(* ===== verification/Prelude.thy ===== *)
theory Prelude
  imports Main "HOL-Library.Word" "HOL-Library.Sublist"
begin

text \<open>
  Shared vocabulary of the development.  Go's \<open>[]byte\<close> is a list of 8-bit words, a Go
  string is a HOL \<open>string\<close> (one \<open>char\<close> per byte), an \<open>error\<close> result is a value of
  \<open>go_error option\<close> (\<open>None\<close> for \<open>nil\<close>) and a run-time panic is a value of
  \<open>outcome\<close>.  The generic lemmas on lists, prefixes and byte/character conversion that
  several components use are collected here.
\<close>

unbundle bit_operations_syntax

named_theorems codec_simps \<open>evaluation rules of the packet codec\<close>
named_theorems conn_simps \<open>evaluation rules of connections and contexts\<close>
named_theorems config_simps \<open>evaluation rules of the server table\<close>

type_synonym byte = "8 word"
type_synonym bytes = "byte list"

text \<open>
  The error values the program distinguishes.  \<open>EOF\<close>, \<open>UnexpectedEOF\<close> are \<open>io.EOF\<close> and
  \<open>io.ErrUnexpectedEOF\<close>, \<open>Canceled\<close> is \<open>context.Canceled\<close>, \<open>NetTimeout\<close> any error for
  which \<open>os.IsTimeout\<close> holds, \<open>OsExist\<close> one for which \<open>os.IsExist\<close> holds, \<open>Failure\<close> any
  other error of an operating-system or library call, \<open>Errorf\<close> an error built with
  \<open>errors.New\<close> or \<open>fmt.Errorf\<close> (its format, and the inserted text), \<open>Wrapped\<close> one built
  with \<open>%w\<close> (its format, the wrapped error and the inserted number).
\<close>

datatype go_error =
    EOF
  | UnexpectedEOF
  | Canceled
  | NetTimeout
  | OsExist
  | Failure string
  | Errorf string string
  | Wrapped string go_error nat

datatype 'a outcome = Returns 'a | Panics string

primrec returned :: "'a outcome \<Rightarrow> bool" where
  "returned (Returns x) = True"
| "returned (Panics m) = False"

fun bind_outcome :: "'a outcome \<Rightarrow> ('a \<Rightarrow> 'b outcome) \<Rightarrow> 'b outcome" where
  "bind_outcome (Returns x) f = f x"
| "bind_outcome (Panics m) f = Panics m"

lemma bind_outcome_Returns_iff:
  "bind_outcome m f = Returns y \<longleftrightarrow> (\<exists>x. m = Returns x \<and> f x = Returns y)"
  by (cases m) auto

subsection \<open>Bytes and characters\<close>

definition byte_of_char :: "char \<Rightarrow> byte" where
  "byte_of_char c = word_of_nat (of_char c)"

definition char_of_byte :: "byte \<Rightarrow> char" where
  "char_of_byte b = char_of (unat b)"

definition bytes_of_string :: "string \<Rightarrow> bytes" where
  "bytes_of_string s = map byte_of_char s"

definition string_of_bytes :: "bytes \<Rightarrow> string" where
  "string_of_bytes b = map char_of_byte b"

lemma char_of_byte_of_char [simp]: "char_of_byte (byte_of_char c) = c"
  by (simp add: char_of_byte_def byte_of_char_def unat_of_nat)

lemma byte_of_char_of_byte [simp]: "byte_of_char (char_of_byte b) = b"
proof -
  have "unat b < 256"
    using unsigned_less [of b] by simp
  then show ?thesis
    by (simp add: char_of_byte_def byte_of_char_def)
qed

lemma string_of_bytes_of_string [simp]: "string_of_bytes (bytes_of_string s) = s"
  by (simp add: string_of_bytes_def bytes_of_string_def comp_def)

lemma bytes_of_string_of_bytes [simp]: "bytes_of_string (string_of_bytes b) = b"
  by (simp add: string_of_bytes_def bytes_of_string_def comp_def)

lemma length_bytes_of_string [simp]: "length (bytes_of_string s) = length s"
  by (simp add: bytes_of_string_def)

lemma length_string_of_bytes [simp]: "length (string_of_bytes b) = length b"
  by (simp add: string_of_bytes_def)

section \<open>The io.Writer interface\<close>

text \<open>An \<open>io.Writer\<close>: the new state, the count and the error of one call of \<open>Write\<close>.\<close>

type_synonym 'w writer = "'w \<Rightarrow> bytes \<Rightarrow> 'w \<times> nat \<times> go_error option"

text \<open>
  The contract of \<open>io.Writer\<close>: a write without an error has stored the whole slice, a write
  with an error a prefix of it, as long as the count says.
\<close>

locale byte_sink =
  fixes wr :: "'w writer"
    and contents :: "'w \<Rightarrow> bytes"
  assumes wr_ok: "wr w b = (w', n, None) \<Longrightarrow> contents w' = contents w @ b \<and> n = length b"
    and wr_err: "wr w b = (w', n, Some e) \<Longrightarrow> n \<le> length b \<and> contents w' = contents w @ take n b"
begin

definition emits :: "bytes \<Rightarrow> ('w \<Rightarrow> 'w \<times> go_error option) \<Rightarrow> bool" where
  "emits bs f \<longleftrightarrow> (\<forall>w w' e. f w = (w', e) \<longrightarrow>
     (case e of None \<Rightarrow> contents w' = contents w @ bs
      | Some _ \<Rightarrow> (\<exists>k \<le> length bs. contents w' = contents w @ take k bs)))"

lemma emits_write: "emits bs (\<lambda>w. case wr w bs of (w', n, e) \<Rightarrow> (w', e))"
  by (auto simp: emits_def dest: wr_ok wr_err split: prod.splits option.splits)

end

text \<open>A \<open>bytes.Buffer\<close>: every write succeeds and appends.\<close>

definition buffer_write :: "bytes writer" where
  "buffer_write w b = (w @ b, length b, None)"

interpretation buffer: byte_sink buffer_write "\<lambda>w. w"
  by unfold_locales (auto simp: buffer_write_def)

end
