(* ===== verification/Timeoutnet.thy ===== *)
theory Timeoutnet
  imports Prelude
begin

text \<open>
  Connections and contexts, pkg/timeoutnet/timeoutnet.go.  A \<open>net\<close> is one direction of a
  session: what the peer it reads from will send, what it has written to the other peer, the
  time, and the two contexts.  The read side is a list of chunks, each with the seconds it lets
  pass, its bytes and the error the read that delivers its last byte returns; after the last
  chunk every read gives \<open>io.EOF\<close>.  A context is observed only by polls, so its cancellation is
  the number of polls until it is seen; the child context is done with its parent.
\<close>

section \<open>Connections and contexts\<close>

datatype chunk = Chunk (c_wait: "64 word") (c_data: bytes) (c_err: "go_error option")

record net =
  inbox :: "chunk list"
  outbox :: bytes
  out_room :: "(nat \<times> go_error) option"
  deadline_err :: "go_error option"
  now :: "64 word"
  pctx :: "nat option"
  cctx :: "nat option"

definition stream :: "chunk list \<Rightarrow> bytes" where
  "stream cs = concat (map c_data cs)"

definition parent_done :: "net \<Rightarrow> bool" where
  "parent_done s \<longleftrightarrow> pctx s = Some 0"

definition child_done :: "net \<Rightarrow> bool" where
  "child_done s \<longleftrightarrow> pctx s = Some 0 \<or> cctx s = Some 0"

fun tick :: "nat option \<Rightarrow> nat option" where
  "tick (Some (Suc k)) = Some k"
| "tick c = c"

definition polled :: "net \<Rightarrow> net" where
  "polled s = s\<lparr>pctx := tick (pctx s), cctx := tick (cctx s)\<rparr>"

text \<open>Reading into a buffer of length \<open>k\<close>: an empty buffer is filled at once.\<close>

fun conn_read :: "nat \<Rightarrow> net \<Rightarrow> (bytes \<times> go_error option) \<times> net" where
  "conn_read k s =
     (if k = 0 then (([], None), s)
      else case inbox s of
        [] \<Rightarrow> (([], Some EOF), s)
      | Chunk t bs e # cs \<Rightarrow>
          (if k < length bs
           then ((take k bs, None), s\<lparr>inbox := Chunk 0 (drop k bs) e # cs, now := now s + t\<rparr>)
           else ((bs, e), s\<lparr>inbox := cs, now := now s + t\<rparr>)))"

definition conn_write :: "net writer" where
  "conn_write s b = (case out_room s of
       None \<Rightarrow> (s\<lparr>outbox := outbox s @ b\<rparr>, length b, None)
     | Some (n, e) \<Rightarrow>
         (if length b \<le> n
          then (s\<lparr>outbox := outbox s @ b, out_room := Some (n - length b, e)\<rparr>, length b, None)
          else (s\<lparr>outbox := outbox s @ take n b, out_room := Some (0, e)\<rparr>, n, Some e)))"

section \<open>TimeoutReader and TimeoutWriter\<close>

definition timeout_write :: "net writer" where
  "timeout_write s p =
     (if child_done s then (polled s, 0, Some Canceled) else conn_write (polled s) p)"

definition timeout_read :: "nat \<Rightarrow> net \<Rightarrow> (bytes \<times> go_error option) \<times> net" where
  "timeout_read k s =
     (if child_done s then (([], Some Canceled), polled s) else conn_read k (polled s))"

definition inbox_size :: "net \<Rightarrow> nat" where
  "inbox_size s = sum_list (map (\<lambda>c. Suc (length (c_data c))) (inbox s))"

lemma inbox_polled [simp]: "inbox (polled s) = inbox s"
  and outbox_polled [simp]: "outbox (polled s) = outbox s"
  and out_room_polled [simp]: "out_room (polled s) = out_room s"
  and deadline_polled [simp]: "deadline_err (polled s) = deadline_err s"
  and now_polled [simp]: "now (polled s) = now s"
  by (simp_all add: polled_def)

lemma stream_simps [simp]:
  "stream [] = []"
  "stream (Chunk t bs e # cs) = bs @ stream cs"
  by (simp_all add: stream_def)

lemma inbox_size_upd [simp]: "inbox_size (s\<lparr>now := t\<rparr>) = inbox_size s"
  by (simp add: inbox_size_def)

lemma timeout_read_measure:
  "timeout_read k s = ((b, e), s') \<Longrightarrow> 0 < k \<Longrightarrow> e \<noteq> Some EOF \<Longrightarrow> e \<noteq> Some Canceled \<Longrightarrow>
   inbox_size s' < inbox_size s"
  by (auto simp: timeout_read_def inbox_size_def split: if_splits list.splits chunk.splits)

text \<open>
  \<open>TimeoutReader.WriteTo\<close>, which \<open>io.Copy\<close> calls: a 1024-byte buffer, end of file ends the
  copy without an error, a timeout polls again, any other error ends it.
\<close>

function write_to :: "'w writer \<Rightarrow> 64 word \<Rightarrow> net \<Rightarrow> 'w \<Rightarrow> (64 word \<times> go_error option) \<times> net \<times> 'w" where
  "write_to wr tot s w = (case timeout_read 1024 s of ((b, e), s1) \<Rightarrow>
     (case e of
       Some x \<Rightarrow>
         (if x = EOF then ((tot, None), s1, w)
          else if x = NetTimeout then write_to wr tot s1 w
          else ((tot, Some x), s1, w))
     | None \<Rightarrow> (case wr w b of (w1, n, e1) \<Rightarrow>
         (case e1 of
           Some y \<Rightarrow> ((tot + word_of_nat n, Some y), s1, w1)
         | None \<Rightarrow> write_to wr (tot + word_of_nat n) s1 w1))))"
  by pat_completeness auto
termination
  by (relation "measure (\<lambda>(wr, tot, s, w). inbox_size s)") (auto dest!: timeout_read_measure [OF sym])

declare write_to.simps [simp del]

section \<open>What a copy delivers\<close>

text \<open>
  A connection delivers no bytes together with an error; then every byte before the end of file
  is delivered exactly once.
\<close>

definition clean :: "chunk list \<Rightarrow> bool" where
  "clean cs \<longleftrightarrow> (\<forall>c \<in> set cs. c_err c \<noteq> None \<longrightarrow> c_data c = [])"

definition until_eof :: "chunk list \<Rightarrow> bytes" where
  "until_eof cs = stream (takeWhile (\<lambda>c. c_err c \<noteq> Some EOF) cs)"

lemma clean_simps [simp]:
  "clean []"
  "clean (Chunk t bs e # cs) \<longleftrightarrow> (e \<noteq> None \<longrightarrow> bs = []) \<and> clean cs"
  by (auto simp: clean_def)

lemma until_eof_simps [simp]:
  "until_eof [] = []"
  "until_eof (Chunk t bs e # cs) = (if e = Some EOF then [] else bs @ until_eof cs)"
  by (simp_all add: until_eof_def)

lemma timeout_read_clean:
  assumes "timeout_read k s = ((b, e), s')" and "clean (inbox s)" and "0 < k"
  shows "clean (inbox s') \<and>
    (case e of None \<Rightarrow> until_eof (inbox s) = b @ until_eof (inbox s')
     | Some x \<Rightarrow> b = [] \<and> (x = EOF \<longrightarrow> until_eof (inbox s) = [])
         \<and> (x \<noteq> EOF \<longrightarrow> x \<noteq> Canceled \<longrightarrow> until_eof (inbox s') = until_eof (inbox s)))"
  using assms
  by (cases e) (auto simp: timeout_read_def split: if_splits list.splits chunk.splits)

lemma timeout_read_length:
  "timeout_read k s = ((b, e), s') \<Longrightarrow> length b \<le> k"
  by (auto simp: timeout_read_def split: if_splits list.splits chunk.splits)

lemma write_to_delivers_prefix:
  assumes "byte_sink wr contents" and "clean (inbox s)"
    and "write_to wr tot s w = ((n, e), s', w')"
  shows "\<exists>d r. contents w' = contents w @ d \<and> until_eof (inbox s) = d @ r \<and>
    n = tot + word_of_nat (length d) \<and> (e = None \<longrightarrow> r = [])"
  using assms
proof (induction wr tot s w rule: write_to.induct)
  case (1 wr tot s w)
  obtain b x s1 where rd: "timeout_read 1024 s = ((b, x), s1)" by (metis prod.collapse)
  note cl = timeout_read_clean [OF rd "1.prems"(2)]
  show ?case
  proof (cases x)
    case (Some y)
    consider "y = EOF" | "y = NetTimeout" | "y \<noteq> EOF" "y \<noteq> NetTimeout" by blast
    then show ?thesis
    proof cases
      case 2
      then show ?thesis
        using "1.IH"(2) [OF rd [symmetric] refl Some _ _ "1.prems"(1)] "1.prems"(3) rd cl Some
        by (simp add: write_to.simps [of _ _ s])
    qed (use "1.prems"(3) rd cl Some in \<open>auto simp: write_to.simps [of _ _ s]\<close>)
  next
    case None
    obtain w1 m e1 where wr: "wr w b = (w1, m, e1)" by (metis prod_cases3)
    show ?thesis
    proof (cases e1)
      case Some1: (Some y)
      then have "m \<le> length b \<and> contents w1 = contents w @ take m b"
        by (intro byte_sink.wr_err [OF "1.prems"(1) wr [unfolded Some1]])
      then show ?thesis
        using "1.prems"(3) rd cl None wr Some1
        by (auto simp: write_to.simps [of _ _ s] intro!: exI [of _ "take m b"] exI [of _ "drop m b @ until_eof (inbox s1)"])
    next
      case None1: None
      then have ok: "contents w1 = contents w @ b \<and> m = length b"
        by (intro byte_sink.wr_ok [OF "1.prems"(1) wr [unfolded None1]])
      have "write_to wr (tot + word_of_nat m) s1 w1 = ((n, e), s', w')"
        using "1.prems"(3) rd wr None None1 by (simp add: write_to.simps [of _ _ s])
      from "1.IH"(1) [OF rd [symmetric] refl None wr [symmetric] refl None1 "1.prems"(1) _ this] cl None ok
      obtain d r where "contents w' = contents w1 @ d" "until_eof (inbox s1) = d @ r"
        "n = tot + word_of_nat m + word_of_nat (length d)" "e = None \<longrightarrow> r = []"
        by auto
      then show ?thesis
        using cl None ok by (auto intro!: exI [of _ "b @ d"] exI [of _ r])
    qed
  qed
qed

lemma byte_sink_conn: "byte_sink conn_write outbox"
  by unfold_locales (auto simp: conn_write_def split: option.splits if_splits)

interpretation timeout_writer: byte_sink timeout_write outbox
proof
  show "timeout_write w b = (w', n, None) \<Longrightarrow> outbox w' = outbox w @ b \<and> n = length b" for w b w' n
    using byte_sink.wr_ok [OF byte_sink_conn, of "polled w" b w' n]
    by (auto simp: timeout_write_def split: if_splits)
  show "timeout_write w b = (w', n, Some e) \<Longrightarrow> n \<le> length b \<and> outbox w' = outbox w @ take n b" for w b w' n e
    using byte_sink.wr_err [OF byte_sink_conn, of "polled w" b w' n e]
    by (auto simp: timeout_write_def split: if_splits)
qed

lemma write_to_polls:
  "write_to wr tot s w = (r, s', w') \<Longrightarrow> cctx s = Some k \<Longrightarrow>
   length (inbox s) \<le> length (inbox s') + k"
proof (induction wr tot s w arbitrary: k rule: write_to.induct)
  case (1 wr tot s w)
  obtain b x s1 where rd: "timeout_read 1024 s = ((b, x), s1)" by (metis prod.collapse)
  have step: "if k = 0 then x = Some Canceled \<and> inbox s1 = inbox s
      else x = Some Canceled \<and> inbox s1 = inbox s
        \<or> cctx s1 = Some (k - 1) \<and> length (inbox s) \<le> Suc (length (inbox s1))"
    using rd "1.prems"(2)
    by (cases k) (auto simp: timeout_read_def child_done_def polled_def
        split: if_splits list.splits chunk.splits)
  show ?case
  proof (cases "x = Some Canceled")
    case True
    with step "1.prems"(1) rd show ?thesis
      by (auto simp: write_to.simps [of _ _ s] split: if_splits)
  next
    case False
    with step have k: "k \<noteq> 0" "cctx s1 = Some (k - 1)" "length (inbox s) \<le> Suc (length (inbox s1))"
      by (auto split: if_splits)
    show ?thesis
    proof (cases x)
      case (Some y)
      show ?thesis
      proof (cases "y = NetTimeout")
        case True
        then have "length (inbox s1) \<le> length (inbox s') + (k - 1)"
          using "1.IH"(2) [OF rd [symmetric] refl Some _ True _ k(2)] "1.prems"(1) rd Some
          by (simp add: write_to.simps [of _ _ s])
        with k show ?thesis by simp
      next
        case False
        with "1.prems"(1) rd Some k show ?thesis
          by (auto simp: write_to.simps [of _ _ s] split: if_splits)
      qed
    next
      case None
      obtain w1 m e1 where wr: "wr w b = (w1, m, e1)" by (metis prod_cases3)
      show ?thesis
      proof (cases e1)
        case (Some y)
        with "1.prems"(1) rd None wr k show ?thesis
          by (auto simp: write_to.simps [of _ _ s])
      next
        case None1: None
        then have "length (inbox s1) \<le> length (inbox s') + (k - 1)"
          using "1.IH"(1) [OF rd [symmetric] refl None wr [symmetric] refl None1 _ k(2)] "1.prems"(1) rd None wr
          by (simp add: write_to.simps [of _ _ s])
        with k show ?thesis by simp
      qed
    qed
  qed
qed

section \<open>Properties\<close>

definition example_net :: net where
  "example_net = \<lparr>inbox = [Chunk 0 [1, 2] None, Chunk 300 [] (Some NetTimeout), Chunk 1 [3] None,
       Chunk 0 [] (Some EOF), Chunk 0 [4] None],
     outbox = [], out_room = None, deadline_err = None, now = 0, pctx = None, cctx = None\<rparr>"


lemma write_to_example:
  "write_to timeout_write 0 example_net example_net =
    ((3, None), example_net\<lparr>inbox := [Chunk 0 [4] None], now := 301\<rparr>, example_net\<lparr>outbox := [1, 2, 3]\<rparr>)"
  by code_simp


text \<open>C39: cancellation stops a session's copy.  Once the context is to be seen cancelled at the
  \<open>k\<close>-th poll, \<open>WriteTo\<close> takes at most \<open>k\<close> more chunks from the connection, however many
  timeouts or however much data follow.\<close>

theorem write_to_stops_after_cancel:
  assumes "cctx s = Some k" and "write_to wr tot s w = (r, s', w')"
  shows "length (inbox s) \<le> length (inbox s') + k"
  using write_to_polls [OF assms(2,1)] .

theorem write_to_stops_after_cancel_witness:
  "\<exists>r s' w'. write_to buffer_write 0 (example_net\<lparr>cctx := Some 2\<rparr>) [] = (r, s', w')
    \<and> 5 \<le> length (inbox s') + 2"
proof -
  obtain r s' w' where run: "write_to buffer_write 0 (example_net\<lparr>cctx := Some 2\<rparr>) [] = (r, s', w')"
    by (metis prod_cases3)
  from write_to_stops_after_cancel [OF _ run, of 2] run show ?thesis
    by (simp add: example_net_def)
qed

text \<open>Bytes that a read delivers together with an error are dropped.  \<open>io.Reader\<close> allows a
  read to return its last bytes with \<open>io.EOF\<close>; then \<open>WriteTo\<close> reports a complete copy and has
  written none of them.\<close>

lemma write_to_drops_bytes_with_eof:
  assumes "length bs \<le> 1024" and "\<not> child_done s" and "inbox s = [Chunk t bs (Some EOF)]"
  shows "\<exists>s'. write_to wr tot s w = ((tot, None), s', w) \<and> inbox s' = []"
  using assms by (simp add: write_to.simps [of _ _ s] timeout_read_def)

end
