(* ===== verification/Codec.thy ===== *)
theory Codec
  imports Prelude
begin

text \<open>
  The packet codec, pkg/mysqlproxy/sendpacket/sendpacket.go.  An \<open>io.Writer\<close> is a function
  from a writer state and a byte slice to the new state, the count and the error; the encoder
  is the chain of its calls.  The decoder keeps its scratch buffer as a slice of an explicit
  store of arrays, because the \<open>Packets\<close> field it returns aliases that buffer.  The source it
  reads from is the remaining bytes with the error that follows them.
\<close>

section \<open>The record and the little-endian integers\<close>

record 'p send_packet =
  sp_Datetime :: "64 word"
  sp_ConnectionID :: "32 word"
  sp_User :: string
  sp_Db :: string
  sp_Addr :: string
  sp_State :: string
  sp_Err :: string
  sp_Packets :: 'p
  sp_Cmd :: string

fun le_put :: "nat \<Rightarrow> 'a::len word \<Rightarrow> bytes" where
  "le_put 0 v = []"
| "le_put (Suc n) v = ucast v # le_put n (drop_bit 8 v)"

fun le_get :: "bytes \<Rightarrow> 'a::len word" where
  "le_get [] = 0"
| "le_get (b # bs) = ucast b OR push_bit 8 (le_get bs)"

lemma length_le_put [simp]: "length (le_put n v) = n"
  by (induction n arbitrary: v) auto

lemma le_put_numeral:
  "le_put (numeral k) v = ucast v # le_put (pred_numeral k) (drop_bit 8 v)"
  by (simp add: numeral_eq_Suc)

lemma bit_le_get_put:
  "bit (le_get (le_put n v) :: 'a::len word) i \<longleftrightarrow> i < 8 * n \<and> bit (v :: 'a word) i"
proof (induction n arbitrary: v i)
  case 0
  then show ?case by simp
next
  case (Suc n)
  show ?case
  proof (cases "i < 8")
    case True
    then show ?thesis
      by (auto simp: bit_simps Suc.IH dest: bit_imp_le_length)
  next
    case False
    then show ?thesis
      by (auto simp: bit_simps Suc.IH dest: bit_imp_le_length)
  qed
qed

lemma le_get_put:
  assumes "LENGTH('a::len) \<le> 8 * n"
  shows "le_get (le_put n v) = (v :: 'a word)"
proof (rule bit_word_eqI)
  fix i
  assume "i < LENGTH('a)"
  then show "bit (le_get (le_put n v) :: 'a word) i = bit v i"
    using assms by (simp add: bit_le_get_put)
qed

abbreviation put_uint32 :: "32 word \<Rightarrow> bytes" where
  "put_uint32 \<equiv> le_put 4"

abbreviation put_int64 :: "64 word \<Rightarrow> bytes" where
  "put_int64 \<equiv> le_put 8"

section \<open>Encoding to an io.Writer\<close>

definition binary_write :: "'w writer \<Rightarrow> 'w \<Rightarrow> bytes \<Rightarrow> 'w \<times> go_error option" where
  "binary_write wr w bs = (case wr w bs of (w', n, e) \<Rightarrow> (w', e))"

definition and_then ::
  "'w \<times> go_error option \<Rightarrow> ('w \<Rightarrow> 'w \<times> go_error option) \<Rightarrow> 'w \<times> go_error option" where
  "and_then r k = (case r of (w, Some e) \<Rightarrow> (w, Some e) | (w, None) \<Rightarrow> k w)"

definition write_bytes :: "'w writer \<Rightarrow> bytes \<Rightarrow> 'w \<Rightarrow> 'w \<times> go_error option" where
  "write_bytes wr b w =
     and_then (binary_write wr w (put_uint32 (word_of_nat (length b))))
       (\<lambda>w. case wr w b of (w', n, e) \<Rightarrow> (w', e))"

definition encode_packet :: "'w writer \<Rightarrow> 'w \<Rightarrow> bytes send_packet \<Rightarrow> 'w \<times> go_error option" where
  "encode_packet wr w p =
     and_then (binary_write wr w (put_int64 (sp_Datetime p)))
     (\<lambda>w. and_then (binary_write wr w (put_uint32 (sp_ConnectionID p)))
     (\<lambda>w. and_then (write_bytes wr (bytes_of_string (sp_User p)) w)
     (\<lambda>w. and_then (write_bytes wr (bytes_of_string (sp_Db p)) w)
     (\<lambda>w. and_then (write_bytes wr (bytes_of_string (sp_Addr p)) w)
     (\<lambda>w. and_then (write_bytes wr (bytes_of_string (sp_State p)) w)
     (\<lambda>w. and_then (write_bytes wr (bytes_of_string (sp_Err p)) w)
     (\<lambda>w. and_then (write_bytes wr (bytes_of_string (sp_Cmd p)) w)
     (\<lambda>w. and_then (write_bytes wr (sp_Packets p) w)
     (\<lambda>w. (w, None))))))))))"

text \<open>The byte layout the chain of writes produces, field by field.\<close>

definition lp_bytes :: "bytes \<Rightarrow> bytes" where
  "lp_bytes b = put_uint32 (word_of_nat (length b)) @ b"

definition packet_strings :: "bytes send_packet \<Rightarrow> bytes list" where
  "packet_strings p =
     [bytes_of_string (sp_User p), bytes_of_string (sp_Db p), bytes_of_string (sp_Addr p),
      bytes_of_string (sp_State p), bytes_of_string (sp_Err p), bytes_of_string (sp_Cmd p),
      sp_Packets p]"

definition packet_bytes :: "bytes send_packet \<Rightarrow> bytes" where
  "packet_bytes p = put_int64 (sp_Datetime p) @ put_uint32 (sp_ConnectionID p) @
     concat (map lp_bytes (packet_strings p))"

context byte_sink
begin

lemma emits_binary_write: "emits bs (\<lambda>w. binary_write wr w bs)"
  unfolding binary_write_def by (rule emits_write)

lemma emits_nothing: "emits [] (\<lambda>w. (w, None))"
  by (simp add: emits_def)

lemma emits_and_then:
  assumes "emits as f" and "emits bs g"
  shows "emits (as @ bs) (\<lambda>w. and_then (f w) g)"
  unfolding emits_def
proof (intro allI impI)
  fix w w' e
  assume run: "and_then (f w) g = (w', e)"
  obtain w1 e1 where f: "f w = (w1, e1)" by (cases "f w")
  show "case e of None \<Rightarrow> contents w' = contents w @ as @ bs
      | Some _ \<Rightarrow> (\<exists>k \<le> length (as @ bs). contents w' = contents w @ take k (as @ bs))"
  proof (cases e1)
    case (Some x)
    with f run have "w' = w1" "e = Some x" by (auto simp: and_then_def)
    moreover obtain k where "k \<le> length as" "contents w1 = contents w @ take k as"
      using assms(1) f Some by (fastforce simp: emits_def)
    ultimately show ?thesis by (auto intro!: exI [of _ k])
  next
    case None
    with f assms(1) have c1: "contents w1 = contents w @ as" by (fastforce simp: emits_def)
    have g: "g w1 = (w', e)" using f run None by (simp add: and_then_def)
    show ?thesis
    proof (cases e)
      case None
      with g assms(2) c1 show ?thesis by (fastforce simp: emits_def)
    next
      case (Some x)
      with g assms(2) obtain k where "k \<le> length bs" "contents w' = contents w1 @ take k bs"
        by (fastforce simp: emits_def)
      with c1 Some show ?thesis by (auto intro!: exI [of _ "length as + k"])
    qed
  qed
qed

lemma emits_write_bytes: "emits (lp_bytes b) (write_bytes wr b)"
  unfolding lp_bytes_def write_bytes_def
  by (rule emits_and_then [OF emits_binary_write emits_write])

lemma emits_encode_packet: "emits (packet_bytes p) (\<lambda>w. encode_packet wr w p)"
  unfolding encode_packet_def packet_bytes_def packet_strings_def list.map concat.simps
  by (intro emits_and_then emits_binary_write emits_write_bytes emits_nothing)

end

section \<open>Decoding from an io.Reader\<close>

type_synonym source = "bytes \<times> go_error"

text \<open>
  \<open>io.ReadFull\<close>: nothing to read at the end gives the reader's own error, a partial read at
  \<open>io.EOF\<close> gives \<open>io.ErrUnexpectedEOF\<close>; an empty buffer is full without reading.
\<close>

fun read_full :: "source \<Rightarrow> nat \<Rightarrow> bytes \<times> go_error option \<times> source" where
  "read_full (bs, e) n =
     (if n \<le> length bs then (take n bs, None, (drop n bs, e))
      else (bs, Some (if e = EOF \<and> bs \<noteq> [] then UnexpectedEOF else e), ([], e)))"

definition read_uint32 :: "source \<Rightarrow> (go_error + 32 word) \<times> source" where
  "read_uint32 s = (case read_full s 4 of
       (b, Some e, s') \<Rightarrow> (Inl e, s') | (b, None, s') \<Rightarrow> (Inr (le_get b), s'))"

definition read_int64 :: "source \<Rightarrow> (go_error + 64 word) \<times> source" where
  "read_int64 s = (case read_full s 8 of
       (b, Some e, s') \<Rightarrow> (Inl e, s') | (b, None, s') \<Rightarrow> (Inr (le_get b), s'))"

text \<open>A slice into the store of arrays, always from index 0, as \<open>d.buf[:len]\<close> makes them.\<close>

record slice =
  sl_arr :: nat
  sl_len :: nat

record decoder =
  d_heap :: "bytes list"
  d_buf :: slice
  d_r :: source

definition new_decoder :: "source \<Rightarrow> decoder" where
  "new_decoder r = \<lparr>d_heap = [replicate 1024 0], d_buf = \<lparr>sl_arr = 0, sl_len = 1024\<rparr>, d_r = r\<rparr>"

definition slice_cap :: "bytes list \<Rightarrow> slice \<Rightarrow> nat" where
  "slice_cap h s = length (h ! sl_arr s)"

definition deref :: "bytes list \<Rightarrow> slice \<Rightarrow> bytes" where
  "deref h s = take (sl_len s) (h ! sl_arr s)"

definition overwrite :: "bytes \<Rightarrow> bytes \<Rightarrow> bytes" where
  "overwrite arr b = b @ drop (length b) arr"

definition resize_buf :: "decoder \<Rightarrow> 32 word \<Rightarrow> decoder" where
  "resize_buf d len =
     (if word_of_nat (slice_cap (d_heap d) (d_buf d)) < len
      then d\<lparr>d_heap := d_heap d @ [replicate (unat len) 0],
             d_buf := \<lparr>sl_arr = length (d_heap d), sl_len = unat len\<rparr>\<rparr>
      else d\<lparr>d_buf := (d_buf d)\<lparr>sl_len := unat len\<rparr>\<rparr>)"

definition read_bytes :: "decoder \<Rightarrow> (go_error + slice) \<times> decoder" where
  "read_bytes d = (case read_uint32 (d_r d) of
       (Inl e, s) \<Rightarrow> (Inl e, d\<lparr>d_r := s\<rparr>)
     | (Inr len, s) \<Rightarrow>
         let d1 = resize_buf (d\<lparr>d_r := s\<rparr>) len; a = sl_arr (d_buf d1) in
         (case read_full s (sl_len (d_buf d1)) of (b, e, s') \<Rightarrow>
            let d2 = d1\<lparr>d_heap := (d_heap d1)[a := overwrite (d_heap d1 ! a) b], d_r := s'\<rparr> in
            (case e of Some e \<Rightarrow> (Inl e, d2) | None \<Rightarrow> (Inr (d_buf d2), d2))))"

text \<open>
  \<open>DecodePacket\<close> fills the caller's record field by field and stops at the first error,
  with the fields read so far already assigned; the string fields copy the buffer, the
  \<open>Packets\<close> field is the buffer's slice itself.
\<close>

type_synonym 'p decode_state = "decoder \<times> 'p send_packet \<times> go_error option"

definition decode_string ::
  "(string \<Rightarrow> slice send_packet \<Rightarrow> slice send_packet) \<Rightarrow> slice decode_state \<Rightarrow> slice decode_state" where
  "decode_string setf st = (case st of
       (d, p, Some e) \<Rightarrow> (d, p, Some e)
     | (d, p, None) \<Rightarrow> (case read_bytes d of
           (Inl e, d') \<Rightarrow> (d', p, Some e)
         | (Inr s, d') \<Rightarrow> (d', setf (string_of_bytes (deref (d_heap d') s)) p, None)))"

definition decode_packets :: "slice decode_state \<Rightarrow> slice decode_state" where
  "decode_packets st = (case st of
       (d, p, Some e) \<Rightarrow> (d, p, Some e)
     | (d, p, None) \<Rightarrow> (case read_bytes d of
           (Inl e, d') \<Rightarrow> (d', p, Some e)
         | (Inr s, d') \<Rightarrow> (d', p\<lparr>sp_Packets := s\<rparr>, None)))"

definition decode_header :: "decoder \<Rightarrow> slice send_packet \<Rightarrow> slice decode_state" where
  "decode_header d p = (case read_int64 (d_r d) of
       (Inl e, s) \<Rightarrow> (d\<lparr>d_r := s\<rparr>, p, Some e)
     | (Inr t, s) \<Rightarrow> (case read_uint32 s of
           (Inl e, s') \<Rightarrow> (d\<lparr>d_r := s'\<rparr>, p\<lparr>sp_Datetime := t\<rparr>, Some e)
         | (Inr c, s') \<Rightarrow> (d\<lparr>d_r := s'\<rparr>, p\<lparr>sp_Datetime := t, sp_ConnectionID := c\<rparr>, None)))"

definition decode_packet :: "decoder \<Rightarrow> slice send_packet \<Rightarrow> slice decode_state" where
  "decode_packet d p =
     decode_packets
      (decode_string (\<lambda>s p. p\<lparr>sp_Cmd := s\<rparr>)
      (decode_string (\<lambda>s p. p\<lparr>sp_Err := s\<rparr>)
      (decode_string (\<lambda>s p. p\<lparr>sp_State := s\<rparr>)
      (decode_string (\<lambda>s p. p\<lparr>sp_Addr := s\<rparr>)
      (decode_string (\<lambda>s p. p\<lparr>sp_Db := s\<rparr>)
      (decode_string (\<lambda>s p. p\<lparr>sp_User := s\<rparr>)
      (decode_header d p)))))))"

section \<open>The decoder without its buffer\<close>

text \<open>
  The same decoder on values: what a record on the source means, independently of where the
  bytes are put.  The refinement lemmas below say that the buffered decoder computes it.
\<close>

definition parse_bytes :: "source \<Rightarrow> (go_error + bytes) \<times> source" where
  "parse_bytes s = (case read_uint32 s of
       (Inl e, s') \<Rightarrow> (Inl e, s')
     | (Inr len, s') \<Rightarrow> (case read_full s' (unat len) of
           (b, Some e, s'') \<Rightarrow> (Inl e, s'')
         | (b, None, s'') \<Rightarrow> (Inr b, s'')))"

fun parse_fields :: "nat \<Rightarrow> source \<Rightarrow> (go_error + bytes list) \<times> source" where
  "parse_fields 0 s = (Inr [], s)"
| "parse_fields (Suc n) s = (case parse_bytes s of
       (Inl e, s') \<Rightarrow> (Inl e, s')
     | (Inr b, s') \<Rightarrow> (case parse_fields n s' of
           (Inl e, s'') \<Rightarrow> (Inl e, s'')
         | (Inr bs, s'') \<Rightarrow> (Inr (b # bs), s'')))"

fun build_packet :: "64 word \<Rightarrow> 32 word \<Rightarrow> bytes list \<Rightarrow> bytes send_packet" where
  "build_packet t c fs =
     \<lparr>sp_Datetime = t, sp_ConnectionID = c,
      sp_User = string_of_bytes (fs ! 0), sp_Db = string_of_bytes (fs ! 1),
      sp_Addr = string_of_bytes (fs ! 2), sp_State = string_of_bytes (fs ! 3),
      sp_Err = string_of_bytes (fs ! 4), sp_Packets = fs ! 6,
      sp_Cmd = string_of_bytes (fs ! 5)\<rparr>"

definition parse_packet :: "source \<Rightarrow> (go_error + bytes send_packet) \<times> source" where
  "parse_packet s = (case read_int64 s of
       (Inl e, s') \<Rightarrow> (Inl e, s')
     | (Inr t, s') \<Rightarrow> (case read_uint32 s' of
           (Inl e, s'') \<Rightarrow> (Inl e, s'')
         | (Inr c, s'') \<Rightarrow> (case parse_fields 7 s'' of
               (Inl e, s3) \<Rightarrow> (Inl e, s3)
             | (Inr fs, s3) \<Rightarrow> (Inr (build_packet t c fs), s3))))"

subsection \<open>Reading back what was written\<close>

lemma read_full_append [codec_simps]:
  "length b = n \<Longrightarrow> read_full (b @ rest, e) n = (b, None, (rest, e))"
  by auto

lemma read_full_short:
  "length b < n \<Longrightarrow>
   read_full (b, EOF) n = (b, Some (if b = [] then EOF else UnexpectedEOF), ([], EOF))"
  by auto

lemma read_full_error_source:
  "read_full (bs, e) n = (b, x, s') \<Longrightarrow> snd s' = e"
  by (auto split: if_splits)

declare read_full.simps [simp del]

lemma read_uint32_put [codec_simps]: "read_uint32 (put_uint32 v @ rest, e) = (Inr v, (rest, e))"
  by (simp add: read_uint32_def read_full_append le_get_put)

lemma read_int64_put [codec_simps]: "read_int64 (put_int64 v @ rest, e) = (Inr v, (rest, e))"
  by (simp add: read_int64_def read_full_append le_get_put)

lemma unat_of_length: "length b < 2 ^ 32 \<Longrightarrow> unat (word_of_nat (length b) :: 32 word) = length b"
  by (simp add: unat_of_nat)

lemma parse_bytes_lp [codec_simps]:
  "length b < 2 ^ 32 \<Longrightarrow> parse_bytes (lp_bytes b @ rest, e) = (Inr b, (rest, e))"
  by (simp add: parse_bytes_def lp_bytes_def codec_simps unat_of_length)

lemma parse_fields_lp [codec_simps]:
  "\<forall>b \<in> set fs. length b < 2 ^ 32 \<Longrightarrow> n = length fs \<Longrightarrow>
   parse_fields n (concat (map lp_bytes fs) @ rest, e) = (Inr fs, (rest, e))"
  by (induction fs arbitrary: n) (auto simp: codec_simps)

definition encodable :: "bytes send_packet \<Rightarrow> bool" where
  "encodable p \<longleftrightarrow> (\<forall>b \<in> set (packet_strings p). length b < 2 ^ 32)"

lemma build_packet_strings:
  "build_packet (sp_Datetime p) (sp_ConnectionID p) (packet_strings p) = p"
  by (simp add: packet_strings_def)

lemma parse_packet_bytes [codec_simps]:
  "encodable p \<Longrightarrow> parse_packet (packet_bytes p @ rest, e) = (Inr p, (rest, e))"
proof -
  assume "encodable p"
  moreover have "7 = length (packet_strings p)" by (simp add: packet_strings_def)
  ultimately have "parse_fields 7 (concat (map lp_bytes (packet_strings p)) @ rest, e)
      = (Inr (packet_strings p), (rest, e))"
    by (simp add: parse_fields_lp encodable_def)
  then show ?thesis
    by (simp add: parse_packet_def packet_bytes_def codec_simps build_packet_strings
        del: build_packet.simps)
qed

subsection \<open>Truncated input\<close>

lemma read_uint32_short:
  "length b < 4 \<Longrightarrow> read_uint32 (b, EOF) = (Inl (if b = [] then EOF else UnexpectedEOF), ([], EOF))"
  by (simp add: read_uint32_def read_full_short)

lemma read_int64_short:
  "length b < 8 \<Longrightarrow> read_int64 (b, EOF) = (Inl (if b = [] then EOF else UnexpectedEOF), ([], EOF))"
  by (simp add: read_int64_def read_full_short)

lemma take_eq_Nil_pos: "xs \<noteq> [] \<Longrightarrow> take k xs = [] \<longleftrightarrow> k = 0"
  by auto

lemma parse_bytes_short:
  assumes len: "length b < 2 ^ 32" and k: "k < length (lp_bytes b)"
  shows "parse_bytes (take k (lp_bytes b), EOF) =
    (Inl (if k \<in> {0, 4} then EOF else UnexpectedEOF), ([], EOF))"
proof (cases "k < 4")
  case True
  then have "take k (lp_bytes b) = take k (put_uint32 (word_of_nat (length b)))"
    by (simp add: lp_bytes_def)
  moreover have "take k (put_uint32 (word_of_nat (length b))) = [] \<longleftrightarrow> k = 0"
    by (rule take_eq_Nil_pos) (metis length_le_put list.size(3) zero_neq_numeral)
  ultimately show ?thesis
    using True by (simp add: parse_bytes_def read_uint32_short)
next
  case False
  then have "take k (lp_bytes b) = put_uint32 (word_of_nat (length b)) @ take (k - 4) b"
    by (simp add: lp_bytes_def)
  moreover have "k - 4 < length b" using k False by (simp add: lp_bytes_def)
  ultimately show ?thesis
    using False len
    by (auto simp: parse_bytes_def codec_simps unat_of_length read_full_short)
qed

fun cuts :: "bytes list \<Rightarrow> nat list" where
  "cuts [] = []"
| "cuts (b # bs) = 0 # 4 # map (\<lambda>k. length (lp_bytes b) + k) (cuts bs)"

definition cut_error :: "nat \<Rightarrow> nat list \<Rightarrow> go_error" where
  "cut_error k ks = (if k \<in> set ks then EOF else UnexpectedEOF)"

lemma length_lp_bytes [simp]: "length (lp_bytes b) = 4 + length b"
  by (simp add: lp_bytes_def)

lemma parse_fields_short:
  "\<forall>b \<in> set fs. length b < 2 ^ 32 \<Longrightarrow> k < length (concat (map lp_bytes fs)) \<Longrightarrow>
   n = length fs \<Longrightarrow>
   parse_fields n (take k (concat (map lp_bytes fs)), EOF) = (Inl (cut_error k (cuts fs)), ([], EOF))"
proof (induction fs arbitrary: k n)
  case Nil
  then show ?case by simp
next
  case (Cons b fs)
  show ?case
  proof (cases "k < length (lp_bytes b)")
    case True
    then have "parse_bytes (take k (concat (map lp_bytes (b # fs))), EOF) =
        (Inl (if k \<in> {0, 4} then EOF else UnexpectedEOF), ([], EOF))"
      using Cons.prems parse_bytes_short [of b k] by simp
    then show ?thesis using Cons.prems True by (auto simp: cut_error_def)
  next
    case False
    then obtain j where j: "k = length (lp_bytes b) + j" by (metis le_Suc_ex not_less)
    have "take k (concat (map lp_bytes (b # fs))) =
        lp_bytes b @ take j (concat (map lp_bytes fs))"
      by (simp add: j)
    moreover have "j < length (concat (map lp_bytes fs))" using Cons.prems(2) j by simp
    moreover have "cut_error k (cuts (b # fs)) = cut_error j (cuts fs)"
    proof (cases "cuts fs")
      case Nil
      then have "fs = []" by (cases fs) auto
      with \<open>j < length (concat (map lp_bytes fs))\<close> show ?thesis by simp
    next
      case (Cons c cs)
      then have "0 \<in> set (cuts fs)" by (cases fs) auto
      then show ?thesis by (auto simp: cut_error_def j)
    qed
    ultimately show ?thesis
      using Cons.IH [of j "length fs"] Cons.prems by (simp add: codec_simps)
  qed
qed

definition packet_cuts :: "bytes send_packet \<Rightarrow> nat list" where
  "packet_cuts p = 0 # 8 # map (\<lambda>k. 12 + k) (cuts (packet_strings p))"

lemma le_put_nonempty: "0 < n \<Longrightarrow> le_put n v \<noteq> []"
  by (cases n) auto

lemma parse_packet_short [codec_simps]:
  assumes "encodable p" and k: "k < length (packet_bytes p)"
  shows "parse_packet (take k (packet_bytes p), EOF) = (Inl (cut_error k (packet_cuts p)), ([], EOF))"
proof -
  let ?fs = "concat (map lp_bytes (packet_strings p))"
  consider "k < 8" | j where "k = 8 + j" "j < 4" | j where "k = 12 + j"
    using that(2) [of "k - 8"] that(3) [of "k - 12"] by linarith
  then show ?thesis
  proof cases
    case 1
    then show ?thesis
      by (auto simp: parse_packet_def packet_bytes_def read_int64_short cut_error_def
          packet_cuts_def le_put_nonempty)
  next
    case 2
    then have "take k (packet_bytes p) =
        put_int64 (sp_Datetime p) @ take j (put_uint32 (sp_ConnectionID p))"
      by (simp add: packet_bytes_def)
    with 2 show ?thesis
      by (auto simp: parse_packet_def codec_simps read_uint32_short cut_error_def
          packet_cuts_def le_put_nonempty)
  next
    case 3
    then have "take k (packet_bytes p) =
        put_int64 (sp_Datetime p) @ put_uint32 (sp_ConnectionID p) @ take j ?fs"
      by (simp add: packet_bytes_def)
    moreover have "j < length ?fs" using k 3 by (simp add: packet_bytes_def)
    moreover have "cut_error k (packet_cuts p) = cut_error j (cuts (packet_strings p))"
      by (auto simp: cut_error_def packet_cuts_def 3)
    moreover have "7 = length (packet_strings p)" by (simp add: packet_strings_def)
    ultimately show ?thesis
      using assms(1) by (simp add: parse_packet_def codec_simps parse_fields_short encodable_def)
  qed
qed

section \<open>The buffered decoder computes the parse\<close>

declare parse_fields.simps [simp del]

definition wf_decoder :: "decoder \<Rightarrow> bool" where
  "wf_decoder d \<longleftrightarrow> sl_arr (d_buf d) < length (d_heap d) \<and>
     sl_len (d_buf d) \<le> slice_cap (d_heap d) (d_buf d) \<and>
     slice_cap (d_heap d) (d_buf d) < 2 ^ 32"

lemma wf_new_decoder: "wf_decoder (new_decoder r)"
  by (simp add: wf_decoder_def new_decoder_def slice_cap_def)

abbreviation buf_cap :: "decoder \<Rightarrow> nat" where
  "buf_cap d \<equiv> slice_cap (d_heap d) (d_buf d)"

text \<open>No new array was made: the buffer is still a slice of the same one.\<close>

definition same_buf :: "decoder \<Rightarrow> decoder \<Rightarrow> bool" where
  "same_buf d d' \<longleftrightarrow> sl_arr (d_buf d') = sl_arr (d_buf d) \<and> buf_cap d' = buf_cap d"

text \<open>The values behind a record whose \<open>Packets\<close> is a slice.\<close>

definition view :: "bytes list \<Rightarrow> slice send_packet \<Rightarrow> bytes send_packet" where
  "view h p = \<lparr>sp_Datetime = sp_Datetime p, sp_ConnectionID = sp_ConnectionID p,
     sp_User = sp_User p, sp_Db = sp_Db p, sp_Addr = sp_Addr p, sp_State = sp_State p,
     sp_Err = sp_Err p, sp_Packets = deref h (sp_Packets p), sp_Cmd = sp_Cmd p\<rparr>"

lemma wf_resize_buf:
  assumes "wf_decoder d"
  shows "wf_decoder (resize_buf d len) \<and> sl_len (d_buf (resize_buf d len)) = unat len \<and>
    d_r (resize_buf d len) = d_r d"
proof -
  have lt: "unat len < 2 ^ 32"
    using unsigned_less [of len, where ?'a = nat] by simp
  have "unat (word_of_nat (slice_cap (d_heap d) (d_buf d)) :: 32 word) = slice_cap (d_heap d) (d_buf d)"
    using assms by (simp add: wf_decoder_def unat_of_nat)
  then have "word_of_nat (slice_cap (d_heap d) (d_buf d)) < len
      \<longleftrightarrow> slice_cap (d_heap d) (d_buf d) < unat len"
    by (simp add: word_less_nat_alt)
  then show ?thesis
    using assms lt by (auto simp: resize_buf_def wf_decoder_def slice_cap_def)
qed

lemma resize_buf_same:
  assumes "wf_decoder d" and "unat len \<le> buf_cap d"
  shows "same_buf d (resize_buf d len)"
proof -
  have "unat (word_of_nat (buf_cap d) :: 32 word) = buf_cap d"
    using assms by (simp add: wf_decoder_def unat_of_nat)
  then have "\<not> word_of_nat (buf_cap d) < len"
    using assms by (simp add: word_less_nat_alt)
  then show ?thesis by (simp add: resize_buf_def same_buf_def slice_cap_def)
qed

lemma length_overwrite: "length b \<le> length arr \<Longrightarrow> length (overwrite arr b) = length arr"
  by (simp add: overwrite_def)

lemma length_read_full: "read_full s n = (b, e, s') \<Longrightarrow> length b \<le> n \<and> (e = None \<longrightarrow> length b = n)"
  by (cases s) (auto simp: read_full.simps split: if_splits)

text \<open>\<open>read_bytes\<close> step by step: it returns what \<open>parse_bytes\<close> returns, as a view of its buffer.\<close>

lemma read_bytes_refines:
  assumes wf: "wf_decoder d" and run: "read_bytes d = (r, d')"
  shows "wf_decoder d' \<and>
    parse_bytes (d_r d) = (case r of Inl e \<Rightarrow> Inl e | Inr s \<Rightarrow> Inr (deref (d_heap d') s), d_r d') \<and>
    (\<forall>s. r = Inr s \<longrightarrow> s = d_buf d' \<and>
      (length (deref (d_heap d') s) \<le> buf_cap d \<longrightarrow> same_buf d d'))"
proof -
  obtain x s where Pair: "read_uint32 (d_r d) = (x, s)" by (cases "read_uint32 (d_r d)")
  show ?thesis
  proof (cases x)
    case (Inl e)
    then show ?thesis
      using assms Pair
      by (auto simp: read_bytes_def parse_bytes_def wf_decoder_def slice_cap_def)
  next
    case (Inr len)
    define d1 where "d1 = resize_buf (d\<lparr>d_r := s\<rparr>) len"
    obtain b e s' where rf: "read_full s (unat len) = (b, e, s')" by (cases "read_full s (unat len)")
    have "wf_decoder (d\<lparr>d_r := s\<rparr>)" using wf by (simp add: wf_decoder_def)
    then have w1: "wf_decoder d1" "sl_len (d_buf d1) = unat len"
      unfolding d1_def using wf_resize_buf by blast+
    let ?a = "sl_arr (d_buf d1)"
    let ?d2 = "d1\<lparr>d_heap := (d_heap d1)[?a := overwrite (d_heap d1 ! ?a) b], d_r := s'\<rparr>"
    have len: "length b \<le> unat len" "e = None \<Longrightarrow> length b = unat len"
      using length_read_full [OF rf] by auto
    have w2: "wf_decoder ?d2"
      using w1 len by (auto simp: wf_decoder_def slice_cap_def length_overwrite)
    have dr: "deref (d_heap ?d2) (d_buf ?d2) = b" if "e = None"
      using w1 len that by (simp add: wf_decoder_def deref_def overwrite_def)
    have sb: "same_buf d ?d2" if "unat len \<le> buf_cap d"
      using resize_buf_same [of "d\<lparr>d_r := s\<rparr>" len] wf that w1 len
      by (auto simp: same_buf_def d1_def [symmetric] slice_cap_def wf_decoder_def length_overwrite)
    have r: "(r, d') = (case e of Some e \<Rightarrow> Inl e | None \<Rightarrow> Inr (d_buf ?d2), ?d2)"
      using run Pair Inr rf w1(2)
      by (simp add: read_bytes_def Let_def d1_def [symmetric] split: option.splits)
    show ?thesis
      using r w2 dr sb len Pair Inr rf by (cases e) (auto simp: parse_bytes_def)
  qed
qed

text \<open>
  One stage of the decoder: \<open>agrees d0 r d e fs\<close> says that a run that began in state \<open>d0\<close> and
  has come to state \<open>d\<close> with error \<open>e\<close> has done what the parse \<open>r\<close> of the fields \<open>fs\<close> says,
  in the same array if every field fitted into it.
\<close>

definition agrees ::
  "decoder \<Rightarrow> (go_error + bytes list) \<times> source \<Rightarrow> decoder \<Rightarrow> go_error option \<Rightarrow> bytes list \<Rightarrow> bool" where
  "agrees d0 r d e fs \<longleftrightarrow> wf_decoder d \<and>
     r = (case e of Some x \<Rightarrow> Inl x | None \<Rightarrow> Inr fs, d_r d) \<and>
     (e = None \<longrightarrow> (\<forall>b \<in> set fs. length b \<le> buf_cap d0) \<longrightarrow> same_buf d0 d)"

lemma parse_fields_snoc:
  "parse_fields (Suc n) s = (case parse_fields n s of
       (Inl e, s') \<Rightarrow> (Inl e, s')
     | (Inr fs, s') \<Rightarrow> (case parse_bytes s' of
           (Inl e, s'') \<Rightarrow> (Inl e, s'')
         | (Inr b, s'') \<Rightarrow> (Inr (fs @ [b]), s'')))"
proof (induction n arbitrary: s)
  case 0
  then show ?case by (auto simp: parse_fields.simps split: prod.splits sum.splits)
next
  case (Suc n)
  show ?case
    by (subst parse_fields.simps(2), subst Suc.IH)
      (auto simp: parse_fields.simps(2) [of n] split: prod.splits sum.splits)
qed

lemma decode_string_stage:
  assumes "agrees d0 (parse_fields n s) d e fs" and "decode_string setf (d, q, e) = (d', q', e')"
  shows "\<exists>b. agrees d0 (parse_fields (Suc n) s) d' e' (fs @ [b]) \<and>
    (e' = None \<longrightarrow> e = None \<and> q' = setf (string_of_bytes b) q)"
proof (cases e)
  case (Some x)
  with assms show ?thesis by (auto simp: agrees_def same_buf_def decode_string_def parse_fields_snoc)
next
  case None
  obtain r d1 where rb: "read_bytes d = (r, d1)" by (cases "read_bytes d")
  from assms None have "wf_decoder d" by (simp add: agrees_def)
  from read_bytes_refines [OF this rb] show ?thesis
    using assms None rb
    by (cases r) (auto simp: agrees_def same_buf_def decode_string_def parse_fields_snoc)
qed

lemma decode_packets_stage:
  assumes "agrees d0 (parse_fields n s) d e fs" and "decode_packets (d, q, e) = (d', q', e')"
  shows "\<exists>b. agrees d0 (parse_fields (Suc n) s) d' e' (fs @ [b]) \<and>
    (e' = None \<longrightarrow> e = None \<and> q' = q\<lparr>sp_Packets := d_buf d'\<rparr> \<and> b = deref (d_heap d') (d_buf d'))"
proof (cases e)
  case (Some x)
  with assms show ?thesis by (auto simp: agrees_def same_buf_def decode_packets_def parse_fields_snoc)
next
  case None
  obtain r d1 where rb: "read_bytes d = (r, d1)" by (cases "read_bytes d")
  from assms None have "wf_decoder d" by (simp add: agrees_def)
  from read_bytes_refines [OF this rb] show ?thesis
    using assms None rb
    by (cases r) (auto simp: agrees_def same_buf_def decode_packets_def parse_fields_snoc)
qed

lemma decode_strings_stage:
  assumes "agrees d0 (parse_fields n s) d e fs" and "fold decode_string setfs (d, q, e) = (d', q', e')"
    and "m = n + length setfs"
  shows "\<exists>bs. length bs = length setfs \<and> agrees d0 (parse_fields m s) d' e' (fs @ bs) \<and>
    (e' = None \<longrightarrow> e = None \<and>
      q' = fold (\<lambda>(setf, b) q. setf (string_of_bytes b) q) (zip setfs bs) q)"
  using assms
proof (induction setfs arbitrary: n d q e fs)
  case Nil
  then show ?case by (cases e') (auto simp: agrees_def)
next
  case (Cons setf setfs)
  obtain d1 q1 e1 where 1: "decode_string setf (d, q, e) = (d1, q1, e1)" by (metis prod_cases3)
  from decode_string_stage [OF Cons.prems(1) 1] obtain b where
    b: "agrees d0 (parse_fields (Suc n) s) d1 e1 (fs @ [b])"
       "e1 = None \<longrightarrow> e = None \<and> q1 = setf (string_of_bytes b) q" by blast
  have "fold decode_string setfs (d1, q1, e1) = (d', q', e')" "m = Suc n + length setfs"
    using Cons.prems(2,3) 1 by simp_all
  from Cons.IH [OF b(1) this] obtain bs where
    "length bs = length setfs" "agrees d0 (parse_fields m s) d' e' ((fs @ [b]) @ bs)"
    "e' = None \<longrightarrow> e1 = None \<and> q' = fold (\<lambda>(setf, b) q. setf (string_of_bytes b) q) (zip setfs bs) q1"
    by blast
  with b(2) show ?case by (intro exI [of _ "b # bs"]) auto
qed

abbreviation string_setters :: "(string \<Rightarrow> 'p send_packet \<Rightarrow> 'p send_packet) list" where
  "string_setters \<equiv> [\<lambda>s p. p\<lparr>sp_User := s\<rparr>, \<lambda>s p. p\<lparr>sp_Db := s\<rparr>, \<lambda>s p. p\<lparr>sp_Addr := s\<rparr>,
     \<lambda>s p. p\<lparr>sp_State := s\<rparr>, \<lambda>s p. p\<lparr>sp_Err := s\<rparr>, \<lambda>s p. p\<lparr>sp_Cmd := s\<rparr>]"

lemma decode_packet_fold:
  "decode_packet d q = decode_packets (fold decode_string string_setters (decode_header d q))"
  by (simp add: decode_packet_def)

lemma decode_header_None:
  assumes "wf_decoder d" and "decode_header d q = (d1, q1, None)"
  obtains t c where "q1 = q\<lparr>sp_Datetime := t, sp_ConnectionID := c\<rparr>" and "wf_decoder d1"
    and "d_buf d1 = d_buf d" and "d_heap d1 = d_heap d"
    and "parse_packet (d_r d) = (case parse_fields 7 (d_r d1) of
               (Inl e, s3) \<Rightarrow> (Inl e, s3) | (Inr fs, s3) \<Rightarrow> (Inr (build_packet t c fs), s3))"
  using assms
  by (auto simp: decode_header_def parse_packet_def wf_decoder_def
      split: prod.splits sum.splits)

lemma decode_header_Some:
  assumes "wf_decoder d" and "decode_header d q = (d1, q1, Some e)"
  shows "wf_decoder d1 \<and> parse_packet (d_r d) = (Inl e, d_r d1)"
  using assms
  by (auto simp: decode_header_def parse_packet_def wf_decoder_def
      split: prod.splits sum.splits)

lemma fold_decode_string_error:
  "fold decode_string setfs (d, q, Some e) = (d, q, Some e)"
  by (induction setfs) (simp_all add: decode_string_def)

definition encodable_within :: "nat \<Rightarrow> bytes send_packet \<Rightarrow> bool" where
  "encodable_within n p \<longleftrightarrow> (\<forall>b \<in> set (packet_strings p). length b \<le> n)"

lemma decode_packet_view:
  assumes wf: "wf_decoder d" and run: "decode_packet d q = (d', q', e)"
  shows "wf_decoder d' \<and>
    parse_packet (d_r d) = (case e of Some x \<Rightarrow> Inl x | None \<Rightarrow> Inr (view (d_heap d') q'), d_r d')
    \<and> (e = None \<longrightarrow> sp_Packets q' = d_buf d' \<and>
        (encodable_within (buf_cap d) (view (d_heap d') q') \<longrightarrow> same_buf d d'))"
proof -
  obtain d1 q1 e1 where h: "decode_header d q = (d1, q1, e1)" by (metis prod_cases3)
  show ?thesis
  proof (cases e1)
    case (Some x)
    with run h have "decode_packets (fold decode_string string_setters (d1, q1, Some x)) = (d', q', e)"
      by (simp only: decode_packet_fold)
    then have "d' = d1 \<and> e = Some x"
      unfolding fold_decode_string_error by (simp add: decode_packets_def)
    with h wf Some show ?thesis
      using decode_header_Some [of d q d1 q1 x] by simp
  next
    case None
    with h have h0: "decode_header d q = (d1, q1, None)" by simp
    obtain t c where q1: "q1 = q\<lparr>sp_Datetime := t, sp_ConnectionID := c\<rparr>" and w1: "wf_decoder d1"
      and sb: "d_buf d1 = d_buf d" "d_heap d1 = d_heap d"
      and parse: "parse_packet (d_r d) = (case parse_fields 7 (d_r d1) of
               (Inl e, s3) \<Rightarrow> (Inl e, s3) | (Inr fs, s3) \<Rightarrow> (Inr (build_packet t c fs), s3))"
      by (rule decode_header_None [OF wf h0])
    have ag: "agrees d1 (parse_fields 0 (d_r d1)) d1 None []"
      using w1 by (simp add: agrees_def parse_fields.simps same_buf_def)
    obtain d2 q2 e2 where f: "fold decode_string string_setters (d1, q1, None) = (d2, q2, e2)"
      by (metis prod_cases3)
    obtain bs where bs: "length bs = Suc (Suc (Suc (Suc (Suc (Suc 0)))))" "agrees d1 (parse_fields 6 (d_r d1)) d2 e2 bs"
      "e2 = None \<longrightarrow> q2 = fold (\<lambda>(setf, b) q. setf (string_of_bytes b) q) (zip string_setters bs) q1"
      using decode_strings_stage [OF ag f, of 6] by auto
    have "decode_packets (d2, q2, e2) = (d', q', e)"
      using run h None f by (simp only: decode_packet_fold)
    from decode_packets_stage [OF bs(2) this] obtain b where
      b: "agrees d1 (parse_fields 7 (d_r d1)) d' e (bs @ [b])"
         "e = None \<longrightarrow> e2 = None \<and> q' = q2\<lparr>sp_Packets := d_buf d'\<rparr> \<and> b = deref (d_heap d') (d_buf d')"
      by auto
    from bs(1) obtain b0 b1 b2 b3 b4 b5 where "bs = [b0, b1, b2, b3, b4, b5]"
      by (auto simp: length_Suc_conv)
    with b bs(3) parse q1 show ?thesis
      by (cases e) (auto simp: agrees_def view_def eval_nat_numeral encodable_within_def
          packet_strings_def sb same_buf_def)
  qed
qed

section \<open>Streams of encoded values\<close>

text \<open>
  Reading values one after the other until the first error, as the loops over
  \<open>DecodePacket\<close> do.
\<close>

inductive reads :: "(source \<Rightarrow> (go_error + 'a) \<times> source) \<Rightarrow> source \<Rightarrow> 'a list \<Rightarrow> go_error \<Rightarrow> bool"
  for dec where
  reads_stop: "dec s = (Inl e, s') \<Longrightarrow> reads dec s [] e"
| reads_more: "dec s = (Inr a, s') \<Longrightarrow> reads dec s' as e \<Longrightarrow> reads dec s (a # as) e"

inductive_cases reads_NilE: "reads dec s [] e"
inductive_cases reads_ConsE: "reads dec s (a # as) e"

lemma reads_deterministic:
  "reads dec s as e \<Longrightarrow> reads dec s bs e' \<Longrightarrow> bs = as \<and> e' = e"
proof (induction arbitrary: bs e' rule: reads.induct)
  case (reads_stop s e s')
  from reads_stop.prems reads_stop.hyps show ?case by cases auto
next
  case (reads_more s a s' as e)
  from reads_more.prems obtain bs' where bs': "bs = a # bs'" "reads dec s' bs' e'"
    using reads_more.hyps(1) by cases auto
  from reads_more.IH [OF bs'(2)] bs'(1) show ?case by simp
qed

text \<open>
  What a decoder owes to the encoder of the same values, on any source: it returns the value
  and leaves the rest, it reports the source's error at the end of the input, and a value cut
  short is an end-of-file error of one of the two kinds.
\<close>

locale stream_codec =
  fixes enc :: "'a \<Rightarrow> bytes"
    and dec :: "source \<Rightarrow> (go_error + 'a) \<times> source"
    and ok :: "'a \<Rightarrow> bool"
  assumes dec_enc: "ok a \<Longrightarrow> dec (enc a @ rest, e) = (Inr a, (rest, e))"
    and dec_end: "dec ([], e) = (Inl e, ([], e))"
    and dec_short: "ok a \<Longrightarrow> k < length (enc a) \<Longrightarrow>
      \<exists>e. dec (take k (enc a), EOF) = (Inl e, ([], EOF)) \<and> e \<in> {EOF, UnexpectedEOF}"
begin

lemma enc_nonempty: "ok a \<Longrightarrow> enc a \<noteq> []"
  using dec_enc [of a "[]" EOF] dec_end [of EOF] by auto

lemma enc_prefix_free:
  assumes "ok a" and "ok b" and eq: "enc a @ x = enc b @ y"
  shows "a = b \<and> x = y"
proof -
  have "dec (enc b @ y, EOF) = (Inr a, (x, EOF))"
    using dec_enc [OF assms(1), of x EOF] unfolding eq .
  from trans [OF sym [OF this] dec_enc [OF assms(2)]] show ?thesis by simp
qed

lemma concat_enc_inject:
  "\<forall>a \<in> set as. ok a \<Longrightarrow> \<forall>b \<in> set bs. ok b \<Longrightarrow>
   concat (map enc as) = concat (map enc bs) \<Longrightarrow> as = bs"
proof (induction as arbitrary: bs)
  case Nil
  then show ?case by (cases bs) (auto simp: enc_nonempty)
next
  case (Cons a as)
  from Cons.prems(1,3) have "bs \<noteq> []" by (auto simp: enc_nonempty)
  then obtain b bs' where bs: "bs = b # bs'" by (cases bs) auto
  have "enc a @ concat (map enc as) = enc b @ concat (map enc bs')"
    using Cons.prems(3) bs by simp
  then have ab: "a = b \<and> concat (map enc as) = concat (map enc bs')"
    by (rule enc_prefix_free [rotated 2]) (use Cons.prems(1,2) bs in simp_all)
  have "as = bs'"
    by (rule Cons.IH [OF _ _ conjunct2 [OF ab]]) (use Cons.prems(1,2) bs in simp_all)
  with ab bs show ?case by simp
qed

lemma reads_concat_append:
  "\<forall>a \<in> set as. ok a \<Longrightarrow> reads dec (suf, e) bs x \<Longrightarrow>
   reads dec (concat (map enc as) @ suf, e) (as @ bs) x"
  by (induction as) (auto intro: reads_more dec_enc)

lemma reads_concat: "\<forall>a \<in> set as. ok a \<Longrightarrow> reads dec (concat (map enc as), e) as e"
  using reads_concat_append [of as "[]" e "[]" e] reads_stop [of dec, OF dec_end] by simp

lemma reads_truncated:
  assumes "\<forall>a \<in> set as. ok a" and "ok b" and "k < length (enc b)"
  shows "\<exists>e. reads dec (concat (map enc as) @ take k (enc b), EOF) as e \<and> e \<in> {EOF, UnexpectedEOF}"
proof -
  obtain e where "dec (take k (enc b), EOF) = (Inl e, ([], EOF))" "e \<in> {EOF, UnexpectedEOF}"
    using dec_short [OF assms(2,3)] by blast
  then show ?thesis
    using reads_concat_append [OF assms(1), of "take k (enc b)" EOF "[]" e] reads_stop [of dec] by auto
qed

end

lemma read_full_end: "0 < n \<Longrightarrow> read_full ([], e) n = ([], Some e, ([], e))"
  by (simp add: read_full.simps)

interpretation uint32_codec: stream_codec put_uint32 read_uint32 "\<lambda>_. True"
  by unfold_locales (auto simp: codec_simps read_uint32_short read_uint32_def [of "([], _)"] read_full_end)

interpretation int64_codec: stream_codec put_int64 read_int64 "\<lambda>_. True"
  by unfold_locales (auto simp: codec_simps read_int64_short read_int64_def [of "([], _)"] read_full_end)

interpretation field_codec: stream_codec lp_bytes parse_bytes "\<lambda>b. length b < 2 ^ 32"
  by unfold_locales
    (auto simp: codec_simps parse_bytes_short parse_bytes_def [of "([], _)"] uint32_codec.dec_end)

lemma parse_packet_end: "parse_packet ([], e) = (Inl e, ([], e))"
  by (simp add: parse_packet_def int64_codec.dec_end)

interpretation packet_codec: stream_codec packet_bytes parse_packet encodable
  by unfold_locales (auto simp: codec_simps cut_error_def parse_packet_end)

section \<open>Properties\<close>

lemma encode_buffer: "encode_packet buffer_write [] p = (packet_bytes p, None)"
  by (simp add: encode_packet_def write_bytes_def binary_write_def and_then_def
      buffer_write_def packet_bytes_def packet_strings_def lp_bytes_def)

definition blank_packet :: "slice send_packet" where
  "blank_packet = \<lparr>sp_Datetime = 0, sp_ConnectionID = 0, sp_User = [], sp_Db = [], sp_Addr = [],
     sp_State = [], sp_Err = [], sp_Packets = \<lparr>sl_arr = 0, sl_len = 0\<rparr>, sp_Cmd = []\<rparr>"

definition example_packet :: "bytes send_packet" where
  "example_packet = \<lparr>sp_Datetime = 1234, sp_ConnectionID = 1, sp_User = ''u1'', sp_Db = '''',
     sp_Addr = ''h:3306'', sp_State = ''est'', sp_Err = '''', sp_Packets = [1, 0, 0, 0, 14], sp_Cmd = ''''\<rparr>"

lemma encodable_example: "encodable example_packet"
  by (simp add: encodable_def packet_strings_def example_packet_def)

lemma decode_written:
  assumes "encodable p" and "wf_decoder d" and "d_r d = (packet_bytes p @ rest, x)"
  shows "\<exists>d' q'. decode_packet d q = (d', q', None) \<and>
    view (d_heap d') q' = p \<and> d_r d' = (rest, x) \<and> wf_decoder d'"
proof -
  obtain d' q' y where run: "decode_packet d q = (d', q', y)" by (metis prod_cases3)
  show ?thesis
    using decode_packet_view [OF assms(2) run] assms(1,3) run
    by (cases y) (auto simp: codec_simps)
qed

text \<open>C5: every record whose fields are shorter than 4 GiB comes back unchanged: when
  \<open>EncodePacket\<close> has written it to a buffer, \<open>DecodePacket\<close> on that buffer, whatever follows
  it and whatever the decoder read before, returns no error, fills every field with its value,
  and leaves the rest of the input to the next call.\<close>

theorem encode_decode_roundtrip:
  assumes "encodable p" and "encode_packet buffer_write [] p = (bs, e)"
    and "wf_decoder d" and "d_r d = (bs @ rest, x)"
  shows "e = None \<and> (\<exists>d' q'. decode_packet d q = (d', q', None) \<and>
    view (d_heap d') q' = p \<and> d_r d' = (rest, x) \<and> wf_decoder d')"
  using assms(2) decode_written [OF assms(1,3), of rest x q] assms(4) by (simp add: encode_buffer)

theorem encode_decode_roundtrip_witness:
  "\<exists>d' q'. decode_packet (new_decoder (packet_bytes example_packet @ [7], EOF)) blank_packet = (d', q', None)
     \<and> view (d_heap d') q' = example_packet \<and> d_r d' = ([7], EOF)"
proof -
  have "d_r (new_decoder (packet_bytes example_packet @ [7], EOF)) = (packet_bytes example_packet @ [7], EOF)"
    by (simp add: new_decoder_def)
  from encode_decode_roundtrip [OF encodable_example encode_buffer wf_new_decoder this]
  show ?thesis by blast
qed

text \<open>C18: a log that was cut inside a record never decodes into a record.  Cut anywhere before
  its end, the record gives an error and no more input: \<open>io.EOF\<close>, which the callers take for a
  complete log, exactly when the cut is at the start of the record, between the two integers, or
  next to a length prefix, and \<open>io.ErrUnexpectedEOF\<close> otherwise.\<close>

theorem decode_truncated:
  assumes "encodable p" and "k < length (packet_bytes p)"
    and "wf_decoder d" and "d_r d = (take k (packet_bytes p), EOF)"
  shows "\<exists>d' q'. decode_packet d q =
    (d', q', Some (if k \<in> set (packet_cuts p) then EOF else UnexpectedEOF)) \<and> d_r d' = ([], EOF)"
proof -
  obtain d' q' y where run: "decode_packet d q = (d', q', y)" by (metis prod_cases3)
  show ?thesis
    using decode_packet_view [OF assms(3) run] parse_packet_short [OF assms(1,2)] assms(4) run
    by (cases y) (auto simp: cut_error_def)
qed

lemma example_cuts: "12 \<in> set (packet_cuts example_packet)" "12 < length (packet_bytes example_packet)"
  by (simp_all add: packet_cuts_def packet_strings_def packet_bytes_def)

theorem decode_truncated_witness:
  "\<exists>d' q'. decode_packet (new_decoder (take 12 (packet_bytes example_packet), EOF)) blank_packet = (d', q', Some EOF)
     \<and> d_r d' = ([], EOF)"
proof -
  have "d_r (new_decoder (take 12 (packet_bytes example_packet), EOF)) = (take 12 (packet_bytes example_packet), EOF)"
    by (simp add: new_decoder_def)
  from decode_truncated [OF encodable_example example_cuts(2) wf_new_decoder this, of blank_packet]
  show ?thesis using example_cuts(1) by simp
qed

text \<open>Whatever writer the encoder is given, as long as it keeps \<open>io.Writer\<close>'s contract, the
  writer has received the whole record when \<open>EncodePacket\<close> returns no error, and a prefix of it
  when it returns one: the encoder never skips or repeats a byte.\<close>

lemma encode_writes_prefix:
  assumes "byte_sink wr contents" and "encode_packet wr w p = (w', e)"
  shows "case e of None \<Rightarrow> contents w' = contents w @ packet_bytes p
    | Some _ \<Rightarrow> (\<exists>k \<le> length (packet_bytes p). contents w' = contents w @ take k (packet_bytes p))"
  using byte_sink.emits_encode_packet [OF assms(1), of p] assms(2)
  unfolding byte_sink.emits_def [OF assms(1)] by blast

text \<open>A writer with room for \<open>n\<close> more bytes, which then reports an error, as a full disk does.\<close>

definition limited_write :: "(bytes \<times> nat) writer" where
  "limited_write w b = (case w of (out, n) \<Rightarrow>
     if length b \<le> n then ((out @ b, n - length b), length b, None)
     else ((out @ take n b, 0), n, Some (Failure ''no space left on device'')))"

lemma byte_sink_limited: "byte_sink limited_write fst"
  by unfold_locales (auto simp: limited_write_def split: if_splits)

text \<open>The record a caller got from \<open>DecodePacket\<close> is only good until its next call.  When the
  fields of the next record fit the decoder's buffer, the \<open>Packets\<close> slice of the first record
  then reads as the bytes of the second one.\<close>

lemma decode_reuses_buffer:
  assumes "wf_decoder d" and "d_r d = (packet_bytes p1 @ packet_bytes p2 @ rest, x)"
    and "encodable p1" and "encodable p2"
    and "decode_packet d q = (d1, q1, e1)" and "decode_packet d1 q1' = (d2, q2, e2)"
    and "encodable_within (buf_cap d1) p2" and "length (sp_Packets p1) \<le> length (sp_Packets p2)"
  shows "sp_Packets (view (d_heap d1) q1) = sp_Packets p1
    \<and> sp_Packets (view (d_heap d2) q1) = take (length (sp_Packets p1)) (sp_Packets p2)"
proof -
  have v1: "e1 = None" "view (d_heap d1) q1 = p1" "d_r d1 = (packet_bytes p2 @ rest, x)"
      "wf_decoder d1" "sp_Packets q1 = d_buf d1"
    using decode_packet_view [OF assms(1,5)] assms(2,3)
    by (cases e1; simp add: codec_simps)+
  have v2: "view (d_heap d2) q2 = p2" "sp_Packets q2 = d_buf d2" "same_buf d1 d2"
    using decode_packet_view [OF v1(4) assms(6)] assms(4,7) v1(3)
    by (cases e2; simp add: codec_simps)+
  have l1: "length (sp_Packets p1) = sl_len (d_buf d1)"
    using v1 by (auto simp: view_def deref_def wf_decoder_def slice_cap_def)
  have "sp_Packets p2 = take (sl_len (d_buf d2)) (d_heap d2 ! sl_arr (d_buf d2))"
    using v2 by (auto simp: view_def deref_def)
  then have "take (length (sp_Packets p1)) (sp_Packets p2) =
      take (length (sp_Packets p1)) (d_heap d2 ! sl_arr (d_buf d1))"
    using assms(8) v2(3) by (auto simp: same_buf_def min_def split: if_splits)
  then show ?thesis
    using v1 l1 by (simp add: view_def deref_def)
qed

lemma decode_new_packet:
  "encodable p \<Longrightarrow> \<exists>d1 q1. decode_packet (new_decoder (packet_bytes p @ rest, x)) q = (d1, q1, None)
    \<and> d_r d1 = (rest, x) \<and> wf_decoder d1 \<and> (encodable_within 1024 p \<longrightarrow> buf_cap d1 = 1024)"
proof -
  let ?d = "new_decoder (packet_bytes p @ rest, x)"
  assume p: "encodable p"
  obtain d1 q1 e1 where run: "decode_packet ?d q = (d1, q1, e1)" by (metis prod_cases3)
  have "buf_cap ?d = 1024" "d_r ?d = (packet_bytes p @ rest, x)"
    by (simp_all add: new_decoder_def slice_cap_def)
  with decode_packet_view [OF wf_new_decoder run] p run show ?thesis
    by (cases e1) (auto simp: codec_simps same_buf_def)
qed

definition second_packet :: "bytes send_packet" where
  "second_packet = example_packet\<lparr>sp_Packets := [2, 0, 0, 0, 3, 59]\<rparr>"

lemma encodable_second: "encodable second_packet" "encodable_within 1024 second_packet"
    "encodable_within 1024 example_packet"
  by (simp_all add: second_packet_def encodable_def encodable_within_def packet_strings_def example_packet_def)

lemma write_bytes_buffer: "write_bytes buffer_write b w = (w @ lp_bytes b, None)"
  by (simp add: write_bytes_def binary_write_def and_then_def buffer_write_def lp_bytes_def)

lemma parse_bytes_wraps:
  "parse_bytes (lp_bytes b @ rest, e) =
     (Inr (take (length b mod 2 ^ 32) b), (drop (length b mod 2 ^ 32) b @ rest, e))"
proof -
  have m: "unat (word_of_nat (length b) :: 32 word) = length b mod 2 ^ 32"
    by (simp add: unat_of_nat)
  have "length b mod 2 ^ 32 \<le> length b" by simp
  then show ?thesis
    by (simp add: parse_bytes_def lp_bytes_def codec_simps m read_full.simps)
qed

text \<open>The length prefix is 32 bits wide.  \<open>readBytes\<close> on what \<open>writeBytes\<close> wrote returns the
  field's first \<open>n mod 2^32\<close> bytes of \<open>n\<close> and leaves the others in the input, so that a field of
  at least 4 GiB, and only such a field, is cut short and puts the reader out of step.\<close>

lemma field_length_wraps:
  assumes "write_bytes buffer_write b [] = (bs, e)" and "wf_decoder d" and "d_r d = (bs @ rest, x)"
  shows "\<exists>d' s. read_bytes d = (Inr s, d') \<and> deref (d_heap d') s = take (length b mod 2 ^ 32) b
    \<and> d_r d' = (drop (length b mod 2 ^ 32) b @ rest, x)"
proof -
  obtain r d' where run: "read_bytes d = (r, d')" by (cases "read_bytes d")
  show ?thesis
    using read_bytes_refines [OF assms(2) run] assms(1,3) run
    by (cases r) (auto simp: write_bytes_buffer parse_bytes_wraps)
qed

end
