(* ===== verification/SendTask.thy ===== *)
theory SendTask
  imports Timeoutnet Codec
begin

text \<open>
  The command direction of a session, pkg/mysqlproxy/sendtask.go: reading one MySQL packet into
  the buffer of a log record, forwarding it and handing the record to the log writer.  Buffers
  are Go slices with their capacity (\<open>gs_arr\<close> is the array from the slice's first element to
  the end of its capacity), so that reslicing beyond the capacity is a panic of the model.
\<close>

section \<open>Slices with a capacity\<close>

record gslice =
  gs_arr :: bytes
  gs_len :: nat

definition gs_cap :: "gslice \<Rightarrow> nat" where
  "gs_cap b = length (gs_arr b)"

definition gs_bytes :: "gslice \<Rightarrow> bytes" where
  "gs_bytes b = take (gs_len b) (gs_arr b)"

text \<open>
  \<open>append(b, make([]byte, n)...)\<close>: in place when the capacity allows it, otherwise a new array,
  with \<open>slack\<close> bytes more than needed; how many, the language leaves to the runtime.
\<close>

definition append_zeros :: "(nat \<Rightarrow> nat \<Rightarrow> nat) \<Rightarrow> gslice \<Rightarrow> nat \<Rightarrow> gslice" where
  "append_zeros slack b n =
     (if gs_len b + n \<le> gs_cap b
      then \<lparr>gs_arr = take (gs_len b) (gs_arr b) @ replicate n 0 @ drop (gs_len b + n) (gs_arr b),
            gs_len = gs_len b + n\<rparr>
      else \<lparr>gs_arr = take (gs_len b) (gs_arr b) @ replicate (n + slack (gs_cap b) (gs_len b + n)) 0,
            gs_len = gs_len b + n\<rparr>)"

definition resize_slice :: "(nat \<Rightarrow> nat \<Rightarrow> nat) \<Rightarrow> gslice \<Rightarrow> nat \<Rightarrow> gslice" where
  "resize_slice slack b n =
     (if gs_cap b < n then append_zeros slack b (n - gs_cap b) else b\<lparr>gs_len := n\<rparr>)"

text \<open>Storing what a read returned at offset \<open>off\<close> of the slice.\<close>

definition store_at :: "nat \<Rightarrow> bytes \<Rightarrow> gslice \<Rightarrow> gslice" where
  "store_at off d b = b\<lparr>gs_arr := take off (gs_arr b) @ d @ drop (off + length d) (gs_arr b)\<rparr>"

section \<open>Reading a full buffer\<close>

fun errors_is_EOF :: "go_error \<Rightarrow> bool" where
  "errors_is_EOF EOF = True"
| "errors_is_EOF (Wrapped m e n) = errors_is_EOF e"
| "errors_is_EOF _ = False"

lemma inbox_size_polled [simp]: "inbox_size (polled s) = inbox_size s"
  by (simp add: inbox_size_def)

text \<open>
  \<open>readFullMysqlPacket\<close> on a buffer with \<open>k\<close> bytes left and \<open>got\<close> read before: the bytes in
  the buffer, the size and the error it returns.  A timeout polls the session's context and goes
  on; what a read returned counts even when it came with an error.
\<close>

function read_full_mysql_packet ::
  "nat \<Rightarrow> bytes \<Rightarrow> net \<Rightarrow> (bytes \<times> nat \<times> go_error option) \<times> net" where
  "read_full_mysql_packet k got s = (case deadline_err s of
       Some e \<Rightarrow> ((got, 0, Some e), s)
     | None \<Rightarrow> (case timeout_read k s of ((b, e), s1) \<Rightarrow>
         let got1 = got @ b; sz = length got1 in
         (if e = None \<or> e = Some NetTimeout then
            (if e = Some NetTimeout \<and> parent_done s1 then ((got1, sz, None), polled s1)
             else let s2 = (if e = None then s1 else polled s1) in
               (if k \<le> length b then ((got1, sz, None), s2)
                else read_full_mysql_packet (k - length b) got1 s2))
          else if errors_is_EOF (the e) then
            (if sz = 0 then ((got1, sz, e), s1) else ((got1, sz, Some UnexpectedEOF), s1))
          else ((got1, sz, e), s1))))"
  by pat_completeness auto

termination
  by (relation "measure (\<lambda>(k, got, s). inbox_size s)")
    (auto dest!: timeout_read_measure [OF sym] split: if_splits)

declare read_full_mysql_packet.simps [simp del]

section \<open>Forwarding one packet\<close>

definition max_packet_size :: nat where
  "max_packet_size = 16777215 + 4"

definition payload_length :: "bytes \<Rightarrow> nat" where
  "payload_length b = unat (ucast (b ! 0) OR push_bit 8 (ucast (b ! 1))
     OR push_bit 16 (ucast (b ! 2)) :: 32 word)"

text \<open>The part of \<open>writeBufferAndSend\<close> after the header: resize, read the payload, forward.\<close>

definition forward_payload ::
  "(nat \<Rightarrow> nat \<Rightarrow> nat) \<Rightarrow> gslice \<Rightarrow> net \<Rightarrow> (gslice \<times> go_error option) outcome \<times> net" where
  "forward_payload slack dst s =
     (let len = payload_length (gs_arr dst); dst1 = resize_slice slack dst (len + 4) in
      if gs_cap dst1 < len + 4 then (Panics ''slice bounds out of range'', s)
      else case read_full_mysql_packet len [] s of ((data, n, e), s1) \<Rightarrow>
        let dst2 = store_at 4 data dst1 in
        (case e of
          Some x \<Rightarrow> (Returns (dst2, Some (Wrapped ''packet readFullMysqlPacket data err'' x n)), s1)
        | None \<Rightarrow>
            (case timeout_write s1 (take (len + 4) (gs_arr dst2)) of (s2, m, e2) \<Rightarrow>
              (case e2 of
                Some y \<Rightarrow> (Returns (dst2, Some (Wrapped ''netWrite err'' y m)), s2)
              | None \<Rightarrow> (Returns (dst2\<lparr>gs_len := len + 4\<rparr>, None), s2)))))"

definition write_buffer_and_send ::
  "(nat \<Rightarrow> nat \<Rightarrow> nat) \<Rightarrow> gslice \<Rightarrow> net \<Rightarrow> (gslice \<times> go_error option) outcome \<times> net" where
  "write_buffer_and_send slack dst s =
     (let dst1 = resize_slice slack dst 4 in
      case read_full_mysql_packet (gs_len dst1) [] s of ((got, n, e), s1) \<Rightarrow>
      let dst2 = store_at 0 got dst1 in
      (case e of
        Some x \<Rightarrow>
          (if n = 0 \<and> x = EOF then (Returns (dst2\<lparr>gs_len := 0\<rparr>, Some x), s1)
           else (Returns (dst2\<lparr>gs_len := 0\<rparr>,
                   Some (Wrapped ''packet readFullMysqlPacket header err'' x n)), s1))
      | None \<Rightarrow>
          (if gs_len dst2 \<le> 2 then (Panics ''index out of range'', s1)
           else forward_payload slack dst2 s1)))"

section \<open>What the read and the forward do\<close>

lemma parent_done_polled [simp]: "parent_done s \<Longrightarrow> parent_done (polled s)"
  by (simp add: parent_done_def polled_def)

lemma parent_done_child: "parent_done s \<Longrightarrow> child_done s"
  by (simp add: parent_done_def child_done_def)

lemma timeout_read_parent_done:
  "parent_done s \<Longrightarrow> timeout_read k s = (([], Some Canceled), polled s)"
  by (simp add: timeout_read_def parent_done_child)

lemma timeout_read_stream:
  "timeout_read k s = ((b, e), s') \<Longrightarrow>
   stream (inbox s) = b @ stream (inbox s') \<and> length b \<le> k \<and> outbox s' = outbox s \<and>
   out_room s' = out_room s \<and> deadline_err s' = deadline_err s"
  by (auto simp: timeout_read_def split: if_splits list.splits chunk.splits)

lemma timeout_write_deadline: "timeout_write s b = (s', n, e) \<Longrightarrow> deadline_err s' = deadline_err s"
  by (auto simp: timeout_write_def conn_write_def split: if_splits option.splits)

lemma timeout_write_inbox: "timeout_write s b = (s', n, e) \<Longrightarrow> inbox s' = inbox s"
  by (auto simp: timeout_write_def conn_write_def split: if_splits option.splits)

lemma read_full_stream:
  assumes "read_full_mysql_packet k got s = ((g, n, e), s')"
  shows "\<exists>d. g = got @ d \<and> stream (inbox s) = d @ stream (inbox s') \<and> length d \<le> k \<and>
    outbox s' = outbox s \<and> deadline_err s' = deadline_err s \<and>
    (e = None \<longrightarrow> n = length g \<and> (length d = k \<or> parent_done s'))"
  using assms
proof (induction k got s rule: read_full_mysql_packet.induct)
  case (1 k got s)
  show ?case
  proof (cases "deadline_err s")
    case (Some x)
    with "1.prems" show ?thesis by (auto simp: read_full_mysql_packet.simps [of k])
  next
    case None
    obtain b x s1 where rd: "timeout_read k s = ((b, x), s1)" by (metis prod.collapse)
    note st = timeout_read_stream [OF rd]
    let ?s2 = "if x = None then s1 else polled s1"
    consider (err) "x \<noteq> None" "x \<noteq> Some NetTimeout"
      | (short) "x = Some NetTimeout" "parent_done s1"
      | (full) "x = None \<or> x = Some NetTimeout \<and> \<not> parent_done s1" "k \<le> length b"
      | (again) "x = None \<or> x = Some NetTimeout \<and> \<not> parent_done s1" "\<not> k \<le> length b"
      by metis
    then show ?thesis
    proof cases
      case again
      have "read_full_mysql_packet (k - length b) (got @ b) ?s2 = ((g, n, e), s')"
        using "1.prems" None rd again by (auto simp: read_full_mysql_packet.simps [of k] Let_def)
      from "1.IH" [OF None rd [symmetric] refl refl refl _ _ refl _ this] again
      obtain d where "g = (got @ b) @ d" "stream (inbox ?s2) = d @ stream (inbox s')"
        "length d \<le> k - length b" "outbox s' = outbox ?s2" "deadline_err s' = deadline_err ?s2"
        "e = None \<longrightarrow> n = length g \<and> (length d = k - length b \<or> parent_done s')"
        by auto
      with st again show ?thesis by (intro exI [of _ "b @ d"]) (auto split: if_splits)
    qed (use "1.prems" None rd st in
        \<open>auto simp: read_full_mysql_packet.simps [of k] Let_def split: if_splits\<close>)
  qed
qed

lemma read_full_parent_done:
  assumes "parent_done s"
  shows "\<exists>g n x s'. read_full_mysql_packet k got s = ((g, n, Some x), s')"
  using assms
  by (auto simp: read_full_mysql_packet.simps [of k] timeout_read_parent_done Let_def
      split: option.splits)

lemma timeout_read_inbox_size:
  "timeout_read k s = ((b, e), s') \<Longrightarrow> inbox_size s' \<le> inbox_size s"
  by (auto simp: timeout_read_def inbox_size_def split: if_splits list.splits chunk.splits)

lemma read_full_measure:
  assumes "read_full_mysql_packet k got s = ((g, n, e), s')"
  shows "inbox_size s' \<le> inbox_size s \<and> (e = None \<longrightarrow> 0 < k \<longrightarrow> inbox_size s' < inbox_size s)"
  using assms
proof (induction k got s rule: read_full_mysql_packet.induct)
  case (1 k got s)
  show ?case
  proof (cases "deadline_err s")
    case (Some x)
    with "1.prems" show ?thesis by (auto simp: read_full_mysql_packet.simps [of k])
  next
    case None
    obtain b x s1 where rd: "timeout_read k s = ((b, x), s1)" by (metis prod.collapse)
    have le: "inbox_size s1 \<le> inbox_size s" by (rule timeout_read_inbox_size [OF rd])
    have lt: "x = None \<or> x = Some NetTimeout \<Longrightarrow> 0 < k \<Longrightarrow> inbox_size s1 < inbox_size s"
      by (rule timeout_read_measure [OF rd]) auto
    let ?s2 = "if x = None then s1 else polled s1"
    consider (again) "x = None \<or> x = Some NetTimeout \<and> \<not> parent_done s1" "\<not> k \<le> length b"
      | (stop) "x \<noteq> None \<and> x \<noteq> Some NetTimeout \<or> x = Some NetTimeout \<and> parent_done s1 \<or> k \<le> length b"
      by metis
    then show ?thesis
    proof cases
      case again
      have "read_full_mysql_packet (k - length b) (got @ b) ?s2 = ((g, n, e), s')"
        using "1.prems" None rd again by (auto simp: read_full_mysql_packet.simps [of k] Let_def)
      from "1.IH" [OF None rd [symmetric] refl refl refl _ _ refl _ this] again
      have "inbox_size s' \<le> inbox_size ?s2" by auto
      then have "inbox_size s' \<le> inbox_size s1" by (auto split: if_splits)
      with lt again show ?thesis by fastforce
    next
      case stop
      with "1.prems" None rd le lt show ?thesis
        by (auto simp: read_full_mysql_packet.simps [of k] Let_def split: if_splits)
    qed
  qed
qed

lemma read_full_EOF:
  assumes "read_full_mysql_packet k got s = ((g, n, Some EOF), s')" and "deadline_err s = None"
  shows "n = 0 \<and> g = []"
  using assms
proof (induction k got s rule: read_full_mysql_packet.induct)
  case (1 k got s)
  obtain b x s1 where rd: "timeout_read k s = ((b, x), s1)" by (metis prod.collapse)
  note st = timeout_read_stream [OF rd]
  let ?s2 = "if x = None then s1 else polled s1"
  consider (again) "x = None \<or> x = Some NetTimeout \<and> \<not> parent_done s1" "\<not> k \<le> length b"
    | (stop) "x \<noteq> None \<and> x \<noteq> Some NetTimeout \<or> x = Some NetTimeout \<and> parent_done s1 \<or> k \<le> length b"
    by metis
  then show ?case
  proof cases
    case again
    have "read_full_mysql_packet (k - length b) (got @ b) ?s2 = ((g, n, Some EOF), s')"
      using "1.prems" rd again by (auto simp: read_full_mysql_packet.simps [of k] Let_def)
    from "1.IH" [OF "1.prems"(2) rd [symmetric] refl refl refl _ _ refl _ this] again st "1.prems"(2)
    show ?thesis by auto
  next
    case stop
    with "1.prems" rd show ?thesis
      by (auto simp: read_full_mysql_packet.simps [of k] Let_def split: if_splits)
  qed
qed

lemma payload_length_eq:
  "payload_length b = unat (b ! 0) + 256 * unat (b ! 1) + 65536 * unat (b ! 2)"
proof -
  let ?x = "ucast (b ! 0) :: 32 word" and ?y = "push_bit 8 (ucast (b ! 1)) :: 32 word"
    and ?z = "push_bit 16 (ucast (b ! 2)) :: 32 word"
  have yz: "?y OR ?z = ?y + ?z"
    by (rule disjunctive_add [symmetric]) (auto simp: bit_simps dest: bit_imp_le_length)
  have xyz: "?x OR (?y OR ?z) = ?x + (?y OR ?z)"
    by (rule disjunctive_add [symmetric]) (auto simp: bit_simps dest: bit_imp_le_length)
  have lt: "unat (b ! i) < 256" for i using unsigned_less [of "b ! i", where ?'a = nat] by simp
  have ux: "unat ?x = unat (b ! 0)" by (simp add: unsigned_ucast_eq take_bit_nat_eq_self lt less_trans [OF lt])
  have uy: "unat ?y = 256 * unat (b ! 1)"
    using lt [of 1] by (simp add: push_bit_eq_mult unat_word_ariths unsigned_ucast_eq take_bit_nat_eq_self less_trans [OF lt])
  have uz: "unat ?z = 65536 * unat (b ! 2)"
    using lt [of 2] by (simp add: push_bit_eq_mult unat_word_ariths unsigned_ucast_eq take_bit_nat_eq_self less_trans [OF lt])
  show ?thesis
    unfolding payload_length_def xyz [unfolded yz] yz
    using ux uy uz lt [of 0] lt [of 1] lt [of 2] by (simp add: unat_word_ariths)
qed

lemma payload_length_bound: "payload_length b + 4 \<le> max_packet_size"
proof -
  have "unat (b ! i) < 256" for i using unsigned_less [of "b ! i", where ?'a = nat] by simp
  from this [of 0] this [of 1] this [of 2] show ?thesis
    by (simp add: payload_length_eq max_packet_size_def)
qed

lemma payload_length_append: "3 \<le> length b \<Longrightarrow> payload_length (b @ c) = payload_length b"
  by (auto simp: payload_length_def nth_append)

lemma resize_slice_fits: "n \<le> gs_cap b \<Longrightarrow> resize_slice slack b n = b\<lparr>gs_len := n\<rparr>"
  by (simp add: resize_slice_def)

lemma append_zeros_cap:
  "gs_len b + n \<le> gs_cap b \<Longrightarrow> gs_cap (append_zeros slack b n) = gs_cap b"
  by (simp add: append_zeros_def gs_cap_def)

lemma gs_cap_upd [simp]: "gs_cap (b\<lparr>gs_len := n\<rparr>) = gs_cap b"
  by (simp add: gs_cap_def)

lemma gs_cap_store: "off + length d \<le> gs_cap b \<Longrightarrow> gs_cap (store_at off d b) = gs_cap b"
  by (simp add: gs_cap_def store_at_def)

lemma gs_len_store [simp]: "gs_len (store_at off d b) = gs_len b"
  by (simp add: store_at_def)

definition mysql_packet :: "bytes \<Rightarrow> bool" where
  "mysql_packet b \<longleftrightarrow> 4 \<le> length b \<and> length b = payload_length b + 4"

text \<open>
  What one call does, read off its result: \<open>d\<close> was taken from the input, \<open>x\<close> went out.  On
  success both are the buffer's contents, a whole packet; on an error \<open>x\<close> is a part of \<open>d\<close>, and
  \<open>io.EOF\<close> is reported only at a packet boundary.
\<close>

definition forwards :: "net \<Rightarrow> gslice \<times> go_error option \<Rightarrow> net \<Rightarrow> bytes \<Rightarrow> bytes \<Rightarrow> bool" where
  "forwards s res s' d x \<longleftrightarrow> stream (inbox s) = d @ stream (inbox s') \<and> outbox s' = outbox s @ x \<and>
     deadline_err s' = deadline_err s \<and>
     (case snd res of
        None \<Rightarrow> x = d \<and> gs_bytes (fst res) = d \<and> mysql_packet d
      | Some e \<Rightarrow> prefix x d \<and> length x \<le> max_packet_size \<and>
          (e = EOF \<longrightarrow> x = [] \<and> gs_len (fst res) = 0 \<and> (deadline_err s = None \<longrightarrow> d = [])))"

lemma forward_payload_spec:
  assumes cap: "max_packet_size \<le> gs_cap dst" and hd: "length got = 4" "take 4 (gs_arr dst) = got"
    and run: "forward_payload slack dst s = (r, s')"
  shows "\<exists>dst' e d x. r = Returns (dst', e) \<and> gs_cap dst' = gs_cap dst \<and>
    stream (inbox s) = d @ stream (inbox s') \<and> outbox s' = outbox s @ x \<and>
    deadline_err s' = deadline_err s \<and> e \<noteq> Some EOF \<and>
    (case e of None \<Rightarrow> x = got @ d \<and> gs_bytes dst' = got @ d \<and> mysql_packet (got @ d)
      | Some _ \<Rightarrow> prefix x (got @ d) \<and> length x \<le> max_packet_size)"
proof -
  define len where "len = payload_length (gs_arr dst)"
  have room: "len + 4 \<le> gs_cap dst" "len + 4 \<le> max_packet_size"
    using payload_length_bound [of "gs_arr dst"] cap by (simp_all add: len_def)
  obtain data n e s1 where rd: "read_full_mysql_packet len [] s = ((data, n, e), s1)"
    by (metis prod.collapse)
  let ?d2 = "store_at 4 data (dst\<lparr>gs_len := len + 4\<rparr>)"
  from read_full_stream [OF rd] have ld: "length data \<le> len"
    and st: "stream (inbox s) = data @ stream (inbox s1)" "outbox s1 = outbox s"
      "deadline_err s1 = deadline_err s"
    and full: "e = None \<Longrightarrow> length data = len \<or> parent_done s1" by auto
  have c: "gs_cap ?d2 = gs_cap dst" using ld room by (simp add: gs_cap_store)
  have arr: "length data = len \<Longrightarrow> take (len + 4) (gs_arr ?d2) = got @ data"
    using hd by (simp add: store_at_def)
  obtain s2 m e2 where wr: "timeout_write s1 (take (len + 4) (gs_arr ?d2)) = (s2, m, e2)"
    by (metis prod_cases3)
  note w = timeout_write_inbox [OF wr] timeout_write_deadline [OF wr]
  have run': "(r, s') = (case e of
        Some x \<Rightarrow> (Returns (?d2, Some (Wrapped ''packet readFullMysqlPacket data err'' x n)), s1)
      | None \<Rightarrow> (case e2 of
          Some y \<Rightarrow> (Returns (?d2, Some (Wrapped ''netWrite err'' y m)), s2)
        | None \<Rightarrow> (Returns (?d2\<lparr>gs_len := len + 4\<rparr>, None), s2)))"
    using run rd wr room(1)
    by (simp add: forward_payload_def Let_def len_def [symmetric] resize_slice_fits split: option.splits)
  have cancelled: "e2 = Some Canceled \<and> s2 = polled s1" if "parent_done s1"
    using wr that by (simp add: timeout_write_def parent_done_child)
  show ?thesis
  proof (cases "e = None \<and> \<not> parent_done s1")
    case False
    with run' cancelled full c st show ?thesis by (auto split: option.splits)
  next
    case True
    with full have l: "length data = len" by blast
    have pl: "mysql_packet (got @ data)"
    proof -
      have "gs_arr dst = got @ drop 4 (gs_arr dst)" by (metis append_take_drop_id hd(2))
      then have "len = payload_length (got @ drop 4 (gs_arr dst))" by (simp add: len_def)
      then have "len = payload_length (got @ data)" using hd(1) by (simp add: payload_length_append)
      with l hd(1) show ?thesis by (simp add: mysql_packet_def)
    qed
    have wok: "e2 = None \<Longrightarrow> outbox s2 = outbox s1 @ got @ data"
      using timeout_writer.wr_ok [of s1 "got @ data" s2 m] wr arr [OF l] by simp
    have werr: "e2 = Some y \<Longrightarrow> outbox s2 = outbox s1 @ take m (got @ data)" for y
      using timeout_writer.wr_err [of s1 "got @ data" s2 m y] wr arr [OF l] by simp
    show ?thesis
      using run' True c st w wok werr arr [OF l] pl hd(1) l room(2) take_is_prefix [of m "got @ data"]
      by (cases e2) (auto simp: gs_bytes_def)
  qed
qed

lemma write_buffer_and_send_spec:
  assumes cap: "max_packet_size \<le> gs_cap dst"
    and run: "write_buffer_and_send slack dst s = (r, s')"
  shows "\<exists>dst' e d x. r = Returns (dst', e) \<and> gs_cap dst' = gs_cap dst \<and> forwards s (dst', e) s' d x"
proof -
  let ?d1 = "dst\<lparr>gs_len := 4\<rparr>"
  have four: "4 \<le> gs_cap dst" using cap by (simp add: max_packet_size_def)
  then have d1: "resize_slice slack dst 4 = ?d1" by (rule resize_slice_fits)
  obtain got n e s1 where rd: "read_full_mysql_packet 4 [] s = ((got, n, e), s1)"
    by (metis prod.collapse)
  let ?d2 = "store_at 0 got ?d1"
  from read_full_stream [OF rd] have lg: "length got \<le> 4"
    and st: "stream (inbox s) = got @ stream (inbox s1)" "outbox s1 = outbox s"
      "deadline_err s1 = deadline_err s"
    and full: "e = None \<Longrightarrow> length got = 4 \<or> parent_done s1" by auto
  have c: "gs_cap ?d2 = gs_cap dst" using lg four by (simp add: gs_cap_store)
  show ?thesis
  proof (cases e)
    case (Some y)
    have "y = EOF \<Longrightarrow> deadline_err s = None \<Longrightarrow> got = []"
      using read_full_EOF [of 4 "[]" s got n s1] rd Some by simp
    then show ?thesis
      using run rd Some st c d1
      by (auto simp: write_buffer_and_send_def Let_def forwards_def split: if_splits)
  next
    case None
    have run': "forward_payload slack ?d2 s1 = (r, s')"
      using run rd None d1 by (simp add: write_buffer_and_send_def Let_def)
    show ?thesis
    proof (cases "parent_done s1")
      case True
      obtain g m x s2 where rd2: "read_full_mysql_packet (payload_length (gs_arr ?d2)) [] s1 = ((g, m, Some x), s2)"
        using read_full_parent_done [OF True] by blast
      have room: "payload_length (gs_arr ?d2) + 4 \<le> gs_cap ?d2"
        using payload_length_bound [of "gs_arr ?d2"] cap c by simp
      from read_full_stream [OF rd2] have g: "length g \<le> payload_length (gs_arr ?d2)"
        "stream (inbox s1) = g @ stream (inbox s2)" "outbox s2 = outbox s1" "deadline_err s2 = deadline_err s1"
        by auto
      show ?thesis
        using run' rd2 room g st c
        by (auto simp: forward_payload_def Let_def resize_slice_fits forwards_def gs_cap_store)
    next
      case False
      with full None have l: "length got = 4" by blast
      then have h: "take 4 (gs_arr ?d2) = got" by (simp add: store_at_def)
      have "max_packet_size \<le> gs_cap ?d2" using cap c by simp
      from forward_payload_spec [OF this l h run'] c st show ?thesis
        by (fastforce simp: forwards_def split: option.splits)
    qed
  qed
qed

section \<open>The worker\<close>

text \<open>
  The \<open>LogWriter\<close> interface, over a state \<open>'l\<close>: \<open>lw_push\<close> is told whether the context is done,
  which is when its select may take the other branch; sending on a closed channel panics.
\<close>

type_synonym record_buffer = "gslice send_packet"

record 'l log_writer =
  lw_push :: "bool \<Rightarrow> record_buffer \<Rightarrow> 'l \<Rightarrow> (go_error option \<times> 'l) outcome"
  lw_put :: "record_buffer \<Rightarrow> 'l \<Rightarrow> 'l"
  lw_get :: "'l \<Rightarrow> record_buffer \<times> 'l"
  lw_close :: "'l \<Rightarrow> 'l outcome"

record send_task =
  st_RemoteAddr :: string
  st_User :: string
  st_DB :: string
  st_Addr :: string
  st_ConnID :: "32 word"

definition new_send_packet :: "'l log_writer \<Rightarrow> send_task \<Rightarrow> net \<Rightarrow> 'l \<Rightarrow> record_buffer \<times> 'l" where
  "new_send_packet lw st s l = (case lw_get lw l of (sp, l1) \<Rightarrow>
     (sp\<lparr>sp_Datetime := now s, sp_User := st_User st, sp_Addr := st_RemoteAddr st,
         sp_Db := st_DB st, sp_ConnectionID := st_ConnID st, sp_State := ''est''\<rparr>, l1))"

text \<open>
  A push polls the context; when it reports the cancellation the context has been cancelled.
\<close>

definition push_to_log ::
  "'l log_writer \<Rightarrow> record_buffer \<Rightarrow> net \<Rightarrow> 'l \<Rightarrow> (go_error option \<times> net \<times> 'l) outcome" where
  "push_to_log lw sp s l = (case lw_push lw (parent_done s) sp l of
       Panics m \<Rightarrow> Panics m
     | Returns (None, l1) \<Rightarrow> Returns (None, polled s, l1)
     | Returns (Some e, l1) \<Rightarrow> Returns (Some e, (polled s)\<lparr>pctx := Some 0\<rparr>, l1))"

definition send_state ::
  "'l log_writer \<Rightarrow> send_task \<Rightarrow> string \<Rightarrow> net \<Rightarrow> 'l \<Rightarrow> (go_error option \<times> net \<times> 'l) outcome" where
  "send_state lw st state s l = (case new_send_packet lw st s l of (sp, l1) \<Rightarrow>
     push_to_log lw (sp\<lparr>sp_State := state, sp_Packets := (sp_Packets sp)\<lparr>gs_len := 0\<rparr>\<rparr>) s l1)"

lemma forward_payload_measure:
  "forward_payload slack dst s = (r, s') \<Longrightarrow> inbox_size s' \<le> inbox_size s"
proof -
  assume run: "forward_payload slack dst s = (r, s')"
  obtain data n e s1 where rd: "read_full_mysql_packet (payload_length (gs_arr dst)) [] s = ((data, n, e), s1)"
    by (metis prod.collapse)
  from read_full_measure [OF rd] run rd show ?thesis
    by (auto simp: forward_payload_def Let_def inbox_size_def dest: timeout_write_inbox
        split: if_splits option.splits prod.splits)
qed

lemma write_buffer_and_send_measure:
  assumes "write_buffer_and_send slack dst s = (Returns (b, None), s')"
  shows "inbox_size s' < inbox_size s"
proof -
  let ?d1 = "resize_slice slack dst 4"
  obtain got n e s1 where rd: "read_full_mysql_packet (gs_len ?d1) [] s = ((got, n, e), s1)"
    by (metis prod.collapse)
  have "0 < gs_len ?d1" by (auto simp: resize_slice_def append_zeros_def)
  with read_full_measure [OF rd] assms rd show ?thesis
    by (fastforce simp: write_buffer_and_send_def Let_def dest: forward_payload_measure
        split: if_splits option.splits)
qed

lemma push_to_log_inbox:
  "push_to_log lw sp s l = Returns (e, s', l') \<Longrightarrow> inbox_size s' = inbox_size s"
  by (auto simp: push_to_log_def inbox_size_def split: outcome.splits prod.splits option.splits)

text \<open>
  The loop of \<open>Worker\<close>.  Its state is the record being filled, if any, the connection and the log
  writer; it returns the error the function returns and the record the deferred call puts back.
\<close>

function worker_loop ::
  "(nat \<Rightarrow> nat \<Rightarrow> nat) \<Rightarrow> 'l log_writer \<Rightarrow> send_task \<Rightarrow> record_buffer option \<Rightarrow> net \<Rightarrow> 'l \<Rightarrow>
   (go_error \<times> record_buffer option \<times> net \<times> 'l) outcome" where
  "worker_loop slack lw st cur s l =
     (if parent_done s then Returns (Canceled, cur, polled s, l)
      else
        let s0 = polled s;
            (sp, l0) = (case cur of None \<Rightarrow> new_send_packet lw st s0 l | Some sp \<Rightarrow> (sp, l)) in
        case write_buffer_and_send slack (sp_Packets sp) s0 of
          (Panics m, s1) \<Rightarrow> Panics m
        | (Returns (dst, err), s1) \<Rightarrow>
            let sp1 = sp\<lparr>sp_Packets := dst\<rparr> in
            (if err \<noteq> None \<and> err \<noteq> Some EOF then Returns (the err, Some sp1, s1, l0)
             else if 0 < gs_len dst then
               (case push_to_log lw sp1 s1 l0 of
                 Panics m \<Rightarrow> Panics m
               | Returns (Some e, s2, l1) \<Rightarrow> Returns (e, Some sp1, s2, l1)
               | Returns (None, s2, l1) \<Rightarrow>
                   (if err = Some EOF then Returns (EOF, None, s2, l1)
                    else worker_loop slack lw st None s2 l1))
             else if err = Some EOF then Returns (EOF, Some sp1, s1, l0)
             else worker_loop slack lw st (Some sp1) s1 l0))"
  by pat_completeness auto

termination
proof (relation "measure (\<lambda>(slack, lw, st, cur, s, l). inbox_size s)", goal_cases)
  case 1
  show ?case by simp
next
  case (2 slack lw st cur s l)
  then show ?case
    by (auto dest!: write_buffer_and_send_measure [OF sym] push_to_log_inbox)
next
  case (3 slack lw st cur s l)
  then show ?case
    by (auto dest!: write_buffer_and_send_measure [OF sym])
qed

declare worker_loop.simps [simp del]

text \<open>A turn of the loop, by what \<open>writeBufferAndSend\<close> returns.\<close>

lemma worker_loop_error:
  assumes "\<not> parent_done s"
    and "(case cur of None \<Rightarrow> new_send_packet lw st (polled s) l | Some sp \<Rightarrow> (sp, l)) = (sp, l0)"
    and "write_buffer_and_send slack (sp_Packets sp) (polled s) = (Returns (dst, Some y), s1)"
    and "y = EOF \<Longrightarrow> gs_len dst = 0"
  shows "worker_loop slack lw st cur s l = Returns (y, Some (sp\<lparr>sp_Packets := dst\<rparr>), s1, l0)"
  using assms by (cases "y = EOF") (simp_all add: worker_loop.simps [of _ _ _ _ s] Let_def)

lemma worker_loop_packet:
  assumes "\<not> parent_done s"
    and "(case cur of None \<Rightarrow> new_send_packet lw st (polled s) l | Some sp \<Rightarrow> (sp, l)) = (sp, l0)"
    and "write_buffer_and_send slack (sp_Packets sp) (polled s) = (Returns (dst, None), s1)" and "0 < gs_len dst"
  shows "worker_loop slack lw st cur s l =
    (case push_to_log lw (sp\<lparr>sp_Packets := dst\<rparr>) s1 l0 of
       Panics m \<Rightarrow> Panics m
     | Returns (Some e, s2, l1) \<Rightarrow> Returns (e, Some (sp\<lparr>sp_Packets := dst\<rparr>), s2, l1)
     | Returns (None, s2, l1) \<Rightarrow> worker_loop slack lw st None s2 l1)"
  using assms by (simp add: worker_loop.simps [of _ _ _ _ s] Let_def split: outcome.split option.split prod.split)

definition worker ::
  "(nat \<Rightarrow> nat \<Rightarrow> nat) \<Rightarrow> 'l log_writer \<Rightarrow> send_task \<Rightarrow> net \<Rightarrow> 'l \<Rightarrow> (go_error \<times> net \<times> 'l) outcome" where
  "worker slack lw st s l =
     bind_outcome (send_state lw st ''connect'' s l) (\<lambda>(_, s1, l1).
     bind_outcome (worker_loop slack lw st None s1 l1) (\<lambda>(err, cur, s2, l2).
       let l3 = (case cur of None \<Rightarrow> l2 | Some sp \<Rightarrow> lw_put lw sp l2) in
       bind_outcome (send_state lw st ''disconnect'' s2 l3) (\<lambda>(_, s3, l4). Returns (err, s3, l4))))"

section \<open>A session against the log writer's contract\<close>

text \<open>
  The records of the pool have a buffer with room for the longest packet and no text in the two
  fields that the proxy never sets.
\<close>

definition pool_record :: "record_buffer \<Rightarrow> bool" where
  "pool_record sp \<longleftrightarrow> max_packet_size \<le> gs_cap (sp_Packets sp) \<and> sp_Err sp = [] \<and> sp_Cmd sp = []"

definition record_view :: "record_buffer \<Rightarrow> bytes send_packet" where
  "record_view p = \<lparr>sp_Datetime = sp_Datetime p, sp_ConnectionID = sp_ConnectionID p,
     sp_User = sp_User p, sp_Db = sp_Db p, sp_Addr = sp_Addr p, sp_State = sp_State p,
     sp_Err = sp_Err p, sp_Packets = gs_bytes (sp_Packets p), sp_Cmd = sp_Cmd p\<rparr>"

definition session_record :: "send_task \<Rightarrow> string \<Rightarrow> bytes send_packet \<Rightarrow> bool" where
  "session_record st state r \<longleftrightarrow> sp_ConnectionID r = st_ConnID st \<and> sp_User r = st_User st \<and>
     sp_Db r = st_DB st \<and> sp_Addr r = st_RemoteAddr st \<and> sp_State r = state \<and>
     sp_Err r = [] \<and> sp_Cmd r = []"

definition est_record :: "send_task \<Rightarrow> bytes send_packet \<Rightarrow> bool" where
  "est_record st r \<longleftrightarrow> session_record st ''est'' r \<and> mysql_packet (sp_Packets r)"

text \<open>
  What the log writer owes to the session: it hands out records of the pool, keeps them apart
  from the log, and a push without an error has appended exactly the record to the log.
\<close>

locale log_writer_contract =
  fixes lw :: "'l log_writer"
    and inv :: "'l \<Rightarrow> bool"
    and logged :: "'l \<Rightarrow> bytes send_packet list"
  assumes get_record: "inv l \<Longrightarrow> lw_get lw l = (sp, l') \<Longrightarrow> inv l' \<and> logged l' = logged l \<and> pool_record sp"
    and put_record: "inv l \<Longrightarrow> pool_record sp \<Longrightarrow>
      inv (lw_put lw sp l) \<and> logged (lw_put lw sp l) = logged l"
    and push_record: "inv l \<Longrightarrow> pool_record sp \<Longrightarrow> \<exists>e l'. lw_push lw d sp l = Returns (e, l') \<and> inv l' \<and>
      (case e of None \<Rightarrow> logged l' = logged l @ [record_view sp]
       | Some x \<Rightarrow> logged l' = logged l \<and> x = Canceled)"
begin

definition filling :: "send_task \<Rightarrow> record_buffer option \<Rightarrow> bool" where
  "filling st cur \<longleftrightarrow> (\<forall>sp. cur = Some sp \<longrightarrow> pool_record sp \<and>
     session_record st ''est'' (record_view sp))"

lemma new_send_packet_spec:
  assumes "inv l" and "new_send_packet lw st s l = (sp, l')"
  shows "inv l' \<and> logged l' = logged l \<and> filling st (Some sp)"
proof -
  obtain sp0 l1 where g: "lw_get lw l = (sp0, l1)" by (metis prod.collapse)
  note gr = get_record [OF assms(1) g]
  have sp: "sp = sp0\<lparr>sp_Datetime := now s, sp_User := st_User st, sp_Addr := st_RemoteAddr st,
         sp_Db := st_DB st, sp_ConnectionID := st_ConnID st, sp_State := ''est''\<rparr>" "l' = l1"
    using assms(2) g by (auto simp: new_send_packet_def)
  show ?thesis
    using gr unfolding sp by (simp add: filling_def pool_record_def session_record_def record_view_def)
qed

lemma current_record:
  assumes "inv l" and "filling st cur"
  shows "\<exists>sp l0. (case cur of None \<Rightarrow> new_send_packet lw st s l | Some sp \<Rightarrow> (sp, l)) = (sp, l0) \<and>
    inv l0 \<and> logged l0 = logged l \<and> filling st (Some sp) \<and> max_packet_size \<le> gs_cap (sp_Packets sp)"
proof -
  obtain sp l0 where sp: "(case cur of None \<Rightarrow> new_send_packet lw st s l | Some sp \<Rightarrow> (sp, l)) = (sp, l0)"
    by (metis prod.collapse)
  have "inv l0" "logged l0 = logged l" "filling st (Some sp)"
    using sp assms new_send_packet_spec [OF assms(1), of st s sp l0] by (auto split: option.splits)
  with sp show ?thesis by (simp add: filling_def pool_record_def)
qed

lemma push_to_log_spec:
  assumes "inv l" and "pool_record sp"
  shows "\<exists>e s' l'. push_to_log lw sp s l = Returns (e, s', l') \<and> inv l' \<and>
    inbox s' = inbox s \<and> outbox s' = outbox s \<and> deadline_err s' = deadline_err s \<and>
    (case e of None \<Rightarrow> logged l' = logged l @ [record_view sp]
     | Some x \<Rightarrow> logged l' = logged l \<and> x = Canceled \<and> parent_done s')"
proof -
  from push_record [OF assms, of "parent_done s"] obtain e l' where
    p: "lw_push lw (parent_done s) sp l = Returns (e, l')" "inv l'"
      "case e of None \<Rightarrow> logged l' = logged l @ [record_view sp]
       | Some x \<Rightarrow> logged l' = logged l \<and> x = Canceled" by blast
  show ?thesis
  proof (cases e)
    case None
    with p show ?thesis by (simp add: push_to_log_def)
  next
    case (Some x)
    with p show ?thesis by (simp add: push_to_log_def parent_done_def)
  qed
qed

lemma send_state_spec:
  assumes "inv l"
  shows "\<exists>e s' l' cs. send_state lw st state s l = Returns (e, s', l') \<and> inv l' \<and>
    inbox s' = inbox s \<and> outbox s' = outbox s \<and> deadline_err s' = deadline_err s \<and>
    logged l' = logged l @ cs \<and>
    (if e = None then \<exists>c. cs = [c] \<and> session_record st state c \<and> sp_Packets c = []
     else cs = [] \<and> parent_done s')"
proof -
  obtain sp l1 where n: "new_send_packet lw st s l = (sp, l1)" by (metis prod.collapse)
  let ?sp = "sp\<lparr>sp_State := state, sp_Packets := (sp_Packets sp)\<lparr>gs_len := 0\<rparr>\<rparr>"
  from new_send_packet_spec [OF assms n]
  have sp: "inv l1" "logged l1 = logged l" "pool_record ?sp"
    "session_record st state (record_view ?sp)" "sp_Packets (record_view ?sp) = []"
    by (auto simp: filling_def pool_record_def session_record_def record_view_def gs_bytes_def)
  from push_to_log_spec [OF sp(1,3), of s] obtain e s' l' where
    p: "push_to_log lw ?sp s l1 = Returns (e, s', l')" "inv l'" "inbox s' = inbox s"
       "outbox s' = outbox s" "deadline_err s' = deadline_err s"
       "case e of None \<Rightarrow> logged l' = logged l1 @ [record_view ?sp]
        | Some x \<Rightarrow> logged l' = logged l1 \<and> x = Canceled \<and> parent_done s'" by blast
  show ?thesis
    using p sp n
    by (cases e) (auto simp: send_state_def)
qed

text \<open>
  What a run of the loop has done: \<open>rs\<close> went to the log, \<open>d\<close> is what was taken from the client
  beyond them and \<open>x\<close> the part of it that still reached the server.
\<close>

definition session_run ::
  "send_task \<Rightarrow> net \<Rightarrow> 'l \<Rightarrow> go_error \<Rightarrow> net \<Rightarrow> 'l \<Rightarrow> bytes send_packet list \<Rightarrow> bytes \<Rightarrow> bytes \<Rightarrow> bool" where
  "session_run st s l e s' l' rs d x \<longleftrightarrow> inv l' \<and> logged l' = logged l @ rs \<and>
     list_all (est_record st) rs \<and>
     stream (inbox s) = concat (map sp_Packets rs) @ d @ stream (inbox s') \<and>
     outbox s' = outbox s @ concat (map sp_Packets rs) @ x \<and>
     prefix x d \<and> length x \<le> max_packet_size \<and> deadline_err s' = deadline_err s \<and>
     (e = EOF \<longrightarrow> x = [] \<and> (deadline_err s = None \<longrightarrow> d = []))"

lemma session_run_step:
  assumes "session_run st s1 l1 e s' l' rs d x"
    and "logged l1 = logged l @ [r]" and "est_record st r"
    and "stream (inbox s) = sp_Packets r @ stream (inbox s1)"
    and "outbox s1 = outbox s @ sp_Packets r" and "deadline_err s1 = deadline_err s"
  shows "session_run st s l e s' l' (r # rs) d x"
  using assms by (auto simp: session_run_def)

text \<open>One turn of the loop: the session ends, or a packet has gone to the log and to the server.\<close>

definition loop_ends ::
  "(nat \<Rightarrow> nat \<Rightarrow> nat) \<Rightarrow> send_task \<Rightarrow> record_buffer option \<Rightarrow> net \<Rightarrow> 'l \<Rightarrow> bool" where
  "loop_ends slack st cur s l \<longleftrightarrow> (\<exists>e cur' s' l' rs d x. worker_loop slack lw st cur s l = Returns (e, cur', s', l') \<and>
     (\<forall>sp. cur' = Some sp \<longrightarrow> pool_record sp) \<and> session_run st s l e s' l' rs d x)"

definition loop_goes_on ::
  "(nat \<Rightarrow> nat \<Rightarrow> nat) \<Rightarrow> send_task \<Rightarrow> record_buffer option \<Rightarrow> net \<Rightarrow> 'l \<Rightarrow> net \<Rightarrow> 'l \<Rightarrow> bytes send_packet \<Rightarrow> bool" where
  "loop_goes_on slack st cur s l s2 l2 r \<longleftrightarrow> worker_loop slack lw st cur s l = worker_loop slack lw st None s2 l2 \<and>
     inbox_size s2 < inbox_size s \<and> inv l2 \<and> logged l2 = logged l @ [r] \<and> est_record st r \<and>
     stream (inbox s) = sp_Packets r @ stream (inbox s2) \<and> outbox s2 = outbox s @ sp_Packets r \<and>
     deadline_err s2 = deadline_err s"

lemma loop_ends_cancelled:
  assumes "inv l" and "filling st cur" and "parent_done s"
  shows "loop_ends slack st cur s l"
proof -
  have "worker_loop slack lw st cur s l = Returns (Canceled, cur, polled s, l)"
    using assms(3) by (simp add: worker_loop.simps [of _ _ _ _ s])
  with assms(1,2) show ?thesis unfolding loop_ends_def
    by (intro exI [of _ "[]"] exI conjI) (auto simp: session_run_def filling_def)
qed

lemma forwards_packet:
  assumes "forwards s (dst, None) s1 d x"
  shows "x = d" "gs_bytes dst = d" "mysql_packet d" "stream (inbox s) = d @ stream (inbox s1)"
    "outbox s1 = outbox s @ d" "deadline_err s1 = deadline_err s" "0 < gs_len dst" "length d \<le> max_packet_size"
  using assms payload_length_bound [of d] by (auto simp: forwards_def mysql_packet_def gs_bytes_def)

lemma loop_turn:
  assumes "inv l" and "filling st cur" and "\<not> parent_done s"
  shows "loop_ends slack st cur s l \<or> (\<exists>s2 l2 r. loop_goes_on slack st cur s l s2 l2 r)"
proof -
  let ?s0 = "polled s"
  from current_record [OF assms(1,2), of ?s0] obtain sp l0 where
    sp: "(case cur of None \<Rightarrow> new_send_packet lw st ?s0 l | Some sp \<Rightarrow> (sp, l)) = (sp, l0)"
    and l0: "inv l0" "logged l0 = logged l" "filling st (Some sp)" and room: "max_packet_size \<le> gs_cap (sp_Packets sp)"
    by blast
  obtain r s1 where wb: "write_buffer_and_send slack (sp_Packets sp) ?s0 = (r, s1)" by (metis prod.collapse)
  from write_buffer_and_send_spec [OF room wb] obtain dst e d x where
    r: "r = Returns (dst, e)" "gs_cap dst = gs_cap (sp_Packets sp)" "forwards ?s0 (dst, e) s1 d x" by blast
  let ?sp1 = "sp\<lparr>sp_Packets := dst\<rparr>"
  have pr: "pool_record ?sp1" "session_record st ''est'' (record_view ?sp1)"
    using l0(3) r(2) by (auto simp: filling_def pool_record_def session_record_def record_view_def)
  show ?thesis
  proof (cases e)
    case (Some y)
    have "y = EOF \<Longrightarrow> gs_len dst = 0" using r(3) Some by (simp add: forwards_def)
    then have "worker_loop slack lw st cur s l = Returns (y, Some ?sp1, s1, l0)"
      using worker_loop_error [OF assms(3) sp wb [unfolded r(1) Some]] by blast
    moreover have "session_run st s l y s1 l0 [] d x"
      using r(3) Some l0 by (auto simp: session_run_def forwards_def)
    ultimately show ?thesis using pr(1) unfolding loop_ends_def by blast
  next
    case None
    note pk = forwards_packet [OF r(3) [unfolded None]]
    note loop = worker_loop_packet [OF assms(3) sp wb [unfolded r(1) None] pk(7)]
    from push_to_log_spec [OF l0(1) pr(1), of s1] obtain e2 s2 l1 where
      p: "push_to_log lw ?sp1 s1 l0 = Returns (e2, s2, l1)" "inv l1" "inbox s2 = inbox s1"
        "outbox s2 = outbox s1" "deadline_err s2 = deadline_err s1"
        "case e2 of None \<Rightarrow> logged l1 = logged l0 @ [record_view ?sp1]
         | Some x \<Rightarrow> logged l1 = logged l0 \<and> x = Canceled \<and> parent_done s2" by blast
    show ?thesis
    proof (cases e2)
      case (Some y)
      have "worker_loop slack lw st cur s l = Returns (y, Some ?sp1, s2, l1)"
        using loop p(1) Some by simp
      moreover have "session_run st s l y s2 l1 [] d d"
        using pk p Some l0 by (auto simp: session_run_def)
      ultimately show ?thesis using pr(1) unfolding loop_ends_def by blast
    next
      case None2: None
      have "worker_loop slack lw st cur s l = worker_loop slack lw st None s2 l1"
        using loop p(1) None2 by simp
      moreover have "inbox_size s2 < inbox_size s"
        using write_buffer_and_send_measure [OF wb [unfolded r(1) None]] p(3) by (simp add: inbox_size_def)
      ultimately have "loop_goes_on slack st cur s l s2 l1 (record_view ?sp1)"
        using pr(2) pk p None2 l0 by (simp add: loop_goes_on_def est_record_def record_view_def)
      then show ?thesis by blast
    qed
  qed
qed

lemma worker_loop_spec:
  assumes "inv l" and "filling st cur"
  shows "loop_ends slack st cur s l"
  using assms
proof (induction "inbox_size s" arbitrary: cur s l rule: less_induct)
  case less
  have "loop_ends slack st cur s l" if "loop_goes_on slack st cur s l s2 l2 r" for s2 l2 r
  proof -
    note g = that [unfolded loop_goes_on_def]
    from less.hyps [of s2 l2 None] g have "loop_ends slack st None s2 l2" by (simp add: filling_def)
    then obtain e cur' s' l' rs d x where
      e: "worker_loop slack lw st None s2 l2 = Returns (e, cur', s', l')" "\<forall>sp. cur' = Some sp \<longrightarrow> pool_record sp"
        "session_run st s2 l2 e s' l' rs d x" unfolding loop_ends_def by blast
    have "session_run st s l e s' l' (r # rs) d x" using g by (intro session_run_step [OF e(3)]) auto
    with g e(1,2) show ?thesis unfolding loop_ends_def by metis
  qed
  with less.prems loop_ends_cancelled loop_turn show ?case by blast
qed

lemma worker_spec:
  assumes "inv l"
  shows "\<exists>e s' l' cs rs ds d x. worker slack lw st s l = Returns (e, s', l') \<and> inv l' \<and>
    logged l' = logged l @ cs @ rs @ ds \<and>
    cs \<in> {[]} \<union> {[c] | c. session_record st ''connect'' c \<and> sp_Packets c = []} \<and>
    ds \<in> {[]} \<union> {[c] | c. session_record st ''disconnect'' c \<and> sp_Packets c = []} \<and>
    list_all (est_record st) rs \<and>
    stream (inbox s) = concat (map sp_Packets rs) @ d @ stream (inbox s') \<and>
    outbox s' = outbox s @ concat (map sp_Packets rs) @ x \<and>
    prefix x d \<and> length x \<le> max_packet_size \<and>
    (e = EOF \<longrightarrow> x = [] \<and> (deadline_err s = None \<longrightarrow> d = []))"
proof -
  from send_state_spec [OF assms, of st "''connect''" s] obtain e1 s1 l1 cs where
    c: "send_state lw st ''connect'' s l = Returns (e1, s1, l1)" "inv l1" "inbox s1 = inbox s"
      "outbox s1 = outbox s" "deadline_err s1 = deadline_err s" "logged l1 = logged l @ cs"
      "cs \<in> {[]} \<union> {[c] | c. session_record st ''connect'' c \<and> sp_Packets c = []}"
    by (auto split: if_splits)
  have "filling st None" by (simp add: filling_def)
  from worker_loop_spec [OF c(2) this, of slack s1, unfolded loop_ends_def] obtain e cur s2 l2 rs d x where
    r: "worker_loop slack lw st None s1 l1 = Returns (e, cur, s2, l2)"
      "\<forall>sp. cur = Some sp \<longrightarrow> pool_record sp" "session_run st s1 l1 e s2 l2 rs d x" by blast
  define l3 where "l3 = (case cur of None \<Rightarrow> l2 | Some sp \<Rightarrow> lw_put lw sp l2)"
  have l3: "inv l3" "logged l3 = logged l2"
    using r(2,3) put_record by (auto simp: l3_def session_run_def split: option.splits)
  from send_state_spec [OF l3(1), of st "''disconnect''" s2] obtain e3 s3 l4 ds where
    f: "send_state lw st ''disconnect'' s2 l3 = Returns (e3, s3, l4)" "inv l4" "inbox s3 = inbox s2"
      "outbox s3 = outbox s2" "logged l4 = logged l3 @ ds"
      "ds \<in> {[]} \<union> {[c] | c. session_record st ''disconnect'' c \<and> sp_Packets c = []}"
    by (auto split: if_splits)
  have run: "worker slack lw st s l = Returns (e, s3, l4)"
    using c(1) r(1) f(1) by (simp add: worker_def l3_def)
  show ?thesis
    by (rule exI [of _ e], rule exI [of _ s3], rule exI [of _ l4], rule exI [of _ cs],
        rule exI [of _ rs], rule exI [of _ ds], rule exI [of _ d], rule exI [of _ x])
      (use run c f r(3) l3 in \<open>simp add: session_run_def\<close>)
qed

end

section \<open>Properties\<close>

text \<open>C13: forwarding is exact.  With a buffer of the pool (room for the longest packet)
  \<open>writeBufferAndSend\<close> never panics and keeps the buffer's capacity; when it returns without an
  error the bytes taken from the client, the bytes sent to the server and the bytes in the
  buffer are the same and are one whole MySQL packet; when it returns an error what was sent is
  a prefix of what was taken, and \<open>io.EOF\<close> itself is returned only when nothing was taken.\<close>

theorem forwarding_is_exact:
  assumes "max_packet_size \<le> gs_cap dst" and "deadline_err s = None"
    and "write_buffer_and_send slack dst s = (r, s')"
  shows "\<exists>dst' e d x. r = Returns (dst', e) \<and> gs_cap dst' = gs_cap dst \<and>
    stream (inbox s) = d @ stream (inbox s') \<and> outbox s' = outbox s @ x \<and>
    (case e of
       None \<Rightarrow> x = d \<and> gs_bytes dst' = d \<and> mysql_packet d
     | Some y \<Rightarrow> prefix x d \<and> length x \<le> max_packet_size \<and> (y = EOF \<longrightarrow> d = []))"
proof -
  from write_buffer_and_send_spec [OF assms(1,3)] obtain dst' e d x where
    "r = Returns (dst', e)" "gs_cap dst' = gs_cap dst" "forwards s (dst', e) s' d x" by blast
  with assms(2) show ?thesis
    by (intro exI [of _ dst'] exI [of _ e] exI [of _ d] exI [of _ x])
      (auto simp: forwards_def split: option.splits)
qed

definition query_packet :: bytes where
  "query_packet = [5, 0, 0, 0, 3, 100, 111, 32, 49]"

definition query_net :: net where
  "query_net = \<lparr>inbox = [Chunk 600 query_packet None], outbox = [], out_room = None,
     deadline_err = None, now = 1000, pctx = None, cctx = None\<rparr>"

definition pool_buffer :: gslice where
  "pool_buffer = \<lparr>gs_arr = replicate max_packet_size 0, gs_len = 0\<rparr>"

lemma pool_buffer_cap: "gs_cap pool_buffer = max_packet_size"
  by (simp add: pool_buffer_def gs_cap_def)

theorem forwarding_is_exact_witness:
  "\<exists>dst' e d s'. write_buffer_and_send (\<lambda>_ _. 0) pool_buffer query_net = (Returns (dst', e), s')
     \<and> gs_cap dst' = max_packet_size \<and> query_packet = d @ stream (inbox s')"
proof -
  obtain r s' where run: "write_buffer_and_send (\<lambda>_ _. 0) pool_buffer query_net = (r, s')"
    by (metis prod.collapse)
  have "deadline_err query_net = None" by (simp add: query_net_def)
  from forwarding_is_exact [OF _ this run] obtain dst' e d where
    "r = Returns (dst', e)" "gs_cap dst' = max_packet_size" "stream (inbox query_net) = d @ stream (inbox s')"
    by (auto simp: pool_buffer_cap)
  with run show ?thesis by (auto simp: query_net_def)
qed

text \<open>What \<open>resizeSlice\<close> returns.  It has the requested length exactly when the request
  fits the capacity or the slice was full; otherwise it is short, because what is appended is
  measured from the capacity and not from the length.\<close>

lemma resize_slice_length:
  assumes "gs_len b \<le> gs_cap b"
  shows "gs_len (resize_slice slack b n) = n \<longleftrightarrow> n \<le> gs_cap b \<or> gs_len b = gs_cap b"
  using assms by (auto simp: resize_slice_def append_zeros_def)

text \<open>The forwarding depends on the size of the pool's buffers.  With a smaller buffer, a
  packet that needs more than the capacity and at most twice the capacity less four bytes makes
  \<open>writeBufferAndSend\<close> panic on its slice expression.\<close>

lemma small_buffer_panics:
  assumes "inbox s = Chunk t bs None # cs" and "4 \<le> length bs"
    and "\<not> child_done s" and "deadline_err s = None"
    and "4 \<le> gs_cap dst" and "gs_cap dst < payload_length bs + 4"
    and "payload_length bs + 8 \<le> 2 * gs_cap dst"
  shows "fst (write_buffer_and_send slack dst s) = Panics ''slice bounds out of range''"
proof -
  obtain s1 where rd: "read_full_mysql_packet 4 [] s = ((take 4 bs, 4, None), s1)"
    using assms(1-4) by (cases "4 < length bs")
      (auto simp: read_full_mysql_packet.simps [of _ _ s] timeout_read_def Let_def)
  let ?d = "store_at 0 (take 4 bs) (dst\<lparr>gs_len := 4\<rparr>)"
  have arr: "gs_arr ?d = take 4 bs @ drop 4 (gs_arr dst)" using assms(2) by (simp add: store_at_def min_def)
  have len: "payload_length (gs_arr ?d) = payload_length bs"
    using assms(2) payload_length_append [of "take 4 bs" "drop 4 (gs_arr dst)"]
      payload_length_append [of "take 4 bs" "drop 4 bs"] by (simp add: arr)
  have cap: "gs_cap ?d = gs_cap dst" using assms(2,5) by (simp add: gs_cap_store)
  have "gs_cap (resize_slice slack ?d (payload_length bs + 4)) = gs_cap dst"
    using assms(6,7) cap append_zeros_cap [of ?d "payload_length bs + 4 - gs_cap dst" slack]
    by (simp add: resize_slice_def)
  then show ?thesis
    using assms(5,6) rd
    by (simp add: write_buffer_and_send_def resize_slice_fits Let_def forward_payload_def len)
qed

text \<open>A whole packet that arrives in one read, on a connection with nothing in its way.\<close>

lemma read_full_chunk:
  assumes "deadline_err s = None" and "pctx s = None" and "cctx s = None" and "0 < k"
    and "inbox s = Chunk t bs None # cs" and "k \<le> length bs"
  shows "read_full_mysql_packet k got s =
    ((got @ take k bs, length got + k, None),
     s\<lparr>inbox := (if k < length bs then Chunk 0 (drop k bs) None # cs else cs), now := now s + t\<rparr>)"
  using assms
  by (auto simp: read_full_mysql_packet.simps [of _ _ s] timeout_read_def polled_def child_done_def Let_def)

lemma read_full_nothing:
  assumes "deadline_err s = None" and "pctx s = None" and "cctx s = None"
  shows "read_full_mysql_packet 0 [] s = (([], 0, None), s)"
  using assms
  by (auto simp: read_full_mysql_packet.simps [of _ _ s] timeout_read_def polled_def child_done_def Let_def)

lemma timeout_write_free:
  "pctx s = None \<Longrightarrow> cctx s = None \<Longrightarrow> out_room s = None \<Longrightarrow>
   timeout_write s b = (s\<lparr>outbox := outbox s @ b\<rparr>, length b, None)"
  by (simp add: timeout_write_def conn_write_def polled_def child_done_def)

lemma forward_one_packet:
  assumes free: "deadline_err s = None" "pctx s = None" "cctx s = None" "out_room s = None"
    and ib: "inbox s = Chunk t bs None # cs" and pk: "mysql_packet bs" and cap: "max_packet_size \<le> gs_cap dst"
  shows "\<exists>dst'. write_buffer_and_send slack dst s =
      (Returns (dst', None), s\<lparr>inbox := cs, outbox := outbox s @ bs, now := now s + t\<rparr>) \<and> gs_bytes dst' = bs"
proof -
  let ?d1 = "dst\<lparr>gs_len := 4\<rparr>"
  let ?d2 = "store_at 0 (take 4 bs) ?d1"
  let ?s1 = "s\<lparr>inbox := (if 4 < length bs then Chunk 0 (drop 4 bs) None # cs else cs), now := now s + t\<rparr>"
  have four: "4 \<le> length bs" "length bs = payload_length bs + 4" "4 \<le> gs_cap dst"
    using pk cap by (simp_all add: mysql_packet_def max_packet_size_def)
  have r1: "read_full_mysql_packet 4 [] s = ((take 4 bs, 4, None), ?s1)"
    using read_full_chunk [OF free(1-3) _ ib four(1), of "[]"] by simp
  have arr: "take 4 (gs_arr ?d2) = take 4 bs" using four by (simp add: store_at_def)
  have p3: "3 \<le> length (take 4 bs)" using four(1) by simp
  have "gs_arr ?d2 = take 4 bs @ drop 4 (gs_arr dst)" using four(1) by (simp add: store_at_def)
  then have len: "payload_length (gs_arr ?d2) = payload_length bs"
    using payload_length_append [OF p3, of "drop 4 (gs_arr dst)"] payload_length_append [OF p3, of "drop 4 bs"]
    by (simp only: append_take_drop_id)
  have cap2: "gs_cap ?d2 = gs_cap dst" using four by (simp add: gs_cap_store)
  have room: "payload_length bs + 4 \<le> gs_cap dst" using payload_length_bound [of bs] cap by simp
  let ?s2 = "s\<lparr>inbox := cs, now := now s + t\<rparr>"
  have r2: "read_full_mysql_packet (payload_length bs) [] ?s1 = ((drop 4 bs, payload_length bs, None), ?s2)"
  proof (cases "4 < length bs")
    case True
    have p: "0 < payload_length bs" "payload_length bs \<le> length (drop 4 bs)" using True four(2) by simp_all
    have "read_full_mysql_packet (payload_length bs) [] ?s1 =
      (([] @ take (payload_length bs) (drop 4 bs), length ([] :: bytes) + payload_length bs, None),
       ?s1\<lparr>inbox := (if payload_length bs < length (drop 4 bs)
             then Chunk 0 (drop (payload_length bs) (drop 4 bs)) None # cs else cs), now := now ?s1 + 0\<rparr>)"
      by (rule read_full_chunk) (use True free p in simp_all)
    then show ?thesis using four(2) True by simp
  next
    case False
    then have "payload_length bs = 0" "drop 4 bs = []" using four by simp_all
    then show ?thesis using False read_full_nothing [of ?s1] free by simp
  qed
  let ?d3 = "store_at 4 (drop 4 bs) (?d2\<lparr>gs_len := payload_length bs + 4\<rparr>)"
  have arr3: "take (payload_length bs + 4) (gs_arr ?d3) = bs"
    using arr four(2) by (simp add: store_at_def [of 4] min_def)
  have "write_buffer_and_send slack dst s =
      (Returns (?d3\<lparr>gs_len := payload_length bs + 4\<rparr>, None), ?s2\<lparr>outbox := outbox s @ bs\<rparr>)"
    using four(3) room free cap2
    by (simp add: write_buffer_and_send_def forward_payload_def resize_slice_fits Let_def r1 r2 len arr3 timeout_write_free)
  moreover have "gs_bytes (?d3\<lparr>gs_len := payload_length bs + 4\<rparr>) = bs"
    using arr3 by (simp add: gs_bytes_def)
  ultimately show ?thesis by (intro exI conjI) (assumption | simp)+
qed

text \<open>A packet is forwarded, and its record carries the time before it came.  A whole packet
  that comes in one read goes to the server and into the record that is pushed to the log; but
  the record was stamped before the read, so after a wait of \<open>t\<close> seconds, however long, the log
  gives the time at which the session became idle and not the time of the command.\<close>

lemma record_time_precedes_packet:
  assumes "deadline_err s = None" and "pctx s = None" and "cctx s = None" and "out_room s = None"
    and "inbox s = Chunk t bs None # cs" and "mysql_packet bs"
    and "lw_get lw l = (sp, l1)" and "max_packet_size \<le> gs_cap (sp_Packets sp)"
  shows "\<exists>sp'. worker_loop slack lw st None s l =
      (case push_to_log lw sp' (s\<lparr>inbox := cs, outbox := outbox s @ bs, now := now s + t\<rparr>) l1 of
         Panics m \<Rightarrow> Panics m
       | Returns (Some e, s2, l2) \<Rightarrow> Returns (e, Some sp', s2, l2)
       | Returns (None, s2, l2) \<Rightarrow> worker_loop slack lw st None s2 l2)
    \<and> gs_bytes (sp_Packets sp') = bs \<and> sp_Datetime sp' = now s"
proof -
  have p: "polled s = s" "\<not> parent_done s"
    using assms(2,3) by (simp_all add: polled_def parent_done_def)
  let ?sp = "sp\<lparr>sp_Datetime := now s, sp_User := st_User st, sp_Addr := st_RemoteAddr st,
         sp_Db := st_DB st, sp_ConnectionID := st_ConnID st, sp_State := ''est''\<rparr>"
  have n: "new_send_packet lw st s l = (?sp, l1)" using assms(7) by (simp add: new_send_packet_def)
  have "max_packet_size \<le> gs_cap (sp_Packets ?sp)" using assms(8) by simp
  from forward_one_packet [OF assms(1-6) this, of slack] obtain dst where
    w: "write_buffer_and_send slack (sp_Packets ?sp) s =
      (Returns (dst, None), s\<lparr>inbox := cs, outbox := outbox s @ bs, now := now s + t\<rparr>)" "gs_bytes dst = bs" by blast
  have "0 < gs_len dst" using w(2) assms(6) by (auto simp: mysql_packet_def gs_bytes_def)
  then show ?thesis
    using p n w by (intro exI [of _ "?sp\<lparr>sp_Packets := dst\<rparr>"]) (simp add: worker_loop.simps [of _ _ _ _ s] Let_def
        split: outcome.split option.split prod.split)
qed

definition pool_writer :: "unit log_writer" where
  "pool_writer = \<lparr>lw_push = (\<lambda>d sp l. Returns (None, l)), lw_put = (\<lambda>sp l. l),
     lw_get = (\<lambda>l. (\<lparr>sp_Datetime = 0, sp_ConnectionID = 0, sp_User = [], sp_Db = [], sp_Addr = [],
       sp_State = [], sp_Err = [], sp_Packets = pool_buffer, sp_Cmd = []\<rparr>, l)), lw_close = Returns\<rparr>"

end
