(* ===== verification/GoText.thy ===== *)
theory GoText
  imports Prelude
begin

text \<open>
  The functions of Go's \<open>strings\<close>, \<open>fmt\<close> and \<open>math/bits\<close> packages that the session code
  uses: \<open>Split\<close> at one character, \<open>Join\<close>, the verbs \<open>%d\<close>, \<open>%02x\<close>, \<open>%08x\<close> and \<open>%-48s\<close>,
  and \<open>TrailingZeros32\<close>.
\<close>

section \<open>Split and Join\<close>

fun split :: "char \<Rightarrow> string \<Rightarrow> string list" where
  "split c [] = [[]]"
| "split c (x # xs) = (if x = c then [] # split c xs
     else case split c xs of [] \<Rightarrow> [[x]] | y # ys \<Rightarrow> (x # y) # ys)"

fun join :: "string \<Rightarrow> string list \<Rightarrow> string" where
  "join sep [] = []"
| "join sep [x] = x"
| "join sep (x # y # ys) = x @ sep @ join sep (y # ys)"

lemma split_not_Nil [simp]: "split c s \<noteq> []"
  by (cases s) (auto split: list.split)

lemma split_none: "c \<notin> set s \<Longrightarrow> split c s = [s]"
  by (induction s) auto

lemma split_append: "c \<notin> set s \<Longrightarrow> split c (s @ c # t) = s # split c t"
  by (induction s) auto

lemma split_join: "xs \<noteq> [] \<Longrightarrow> \<forall>x \<in> set xs. c \<notin> set x \<Longrightarrow> split c (join [c] xs) = xs"
  by (induction "[c]" xs rule: join.induct) (auto simp: split_none split_append)

lemma join_split: "join [c] (split c s) = s"
proof (induction s)
  case (Cons x s)
  obtain y ys where s: "split c s = y # ys" by (cases "split c s") auto
  with Cons show ?case by (cases ys) auto
qed simp

lemma split_parts: "t \<in> set (split c s) \<Longrightarrow> c \<notin> set t"
proof (induction s arbitrary: t)
  case (Cons x s)
  obtain y ys where s: "split c s = y # ys" by (cases "split c s") auto
  with Cons.IH [of y] Cons.IH [of t] Cons.prems show ?case by (auto split: if_splits)
qed simp

lemma length_split: "length (split c s) = Suc (count_list s c)"
proof (induction s)
  case (Cons x s)
  obtain y ys where s: "split c s = y # ys" by (cases "split c s") auto
  with Cons show ?case by auto
qed simp

lemma split_single: "length (split c s) = 1 \<longleftrightarrow> c \<notin> set s"
  by (simp add: length_split count_list_0_iff)

section \<open>Numbers\<close>

text \<open>The verb \<open>%d\<close> of a natural number, and \<open>%x\<close>.\<close>

definition digit :: "nat \<Rightarrow> char" where
  "digit n = char_of (48 + n)"

fun dec :: "nat \<Rightarrow> string" where
  "dec n = (if n < 10 then [digit n] else dec (n div 10) @ [digit (n mod 10)])"

declare dec.simps [simp del]

definition digits :: "string \<Rightarrow> bool" where
  "digits s \<longleftrightarrow> s \<noteq> [] \<and> (\<forall>c \<in> set s. 48 \<le> (of_char c :: nat) \<and> (of_char c :: nat) \<le> 57)"

lemma digits_dec: "digits (dec n)"
proof (induction n rule: dec.induct)
  case (1 n)
  have "n mod 10 \<le> 9" using mod_less_divisor [of 10 n] by linarith
  with 1 show ?case by (auto simp: digits_def digit_def dec.simps [of n])
qed

definition hex_digit :: "nat \<Rightarrow> char" where
  "hex_digit n = (if n < 10 then char_of (48 + n) else char_of (87 + n))"

fun hex :: "nat \<Rightarrow> string" where
  "hex n = (if n < 16 then [hex_digit n] else hex (n div 16) @ [hex_digit (n mod 16)])"

declare hex.simps [simp del]

definition pad_left :: "char \<Rightarrow> nat \<Rightarrow> string \<Rightarrow> string" where
  "pad_left c k s = replicate (k - length s) c @ s"

definition pad_right :: "char \<Rightarrow> nat \<Rightarrow> string \<Rightarrow> string" where
  "pad_right c k s = s @ replicate (k - length s) c"

text \<open>\<open>%02x\<close> of a byte, and \<open>%08x\<close> of an \<open>int64\<close>, whose sign counts for the width.\<close>

definition hex02 :: "byte \<Rightarrow> string" where
  "hex02 b = pad_left (CHR ''0'') 2 (hex (unat b))"

definition hex08 :: "64 word \<Rightarrow> string" where
  "hex08 w = (if 0 \<le> sint w then pad_left (CHR ''0'') 8 (hex (nat (sint w)))
     else CHR ''-'' # pad_left (CHR ''0'') 7 (hex (nat (- sint w))))"

lemma digit_inj:
  assumes "d < 10" and "e < 10" and "digit d = digit e"
  shows "d = e"
proof -
  have o: "(of_char (digit k) :: nat) = 48 + k" if "k < 10" for k
    using that by (simp add: digit_def)
  have "48 + d = 48 + e" unfolding o [OF assms(1), symmetric] o [OF assms(2), symmetric] assms(3) ..
  then show ?thesis by simp
qed

lemma dec_not_Nil [simp]: "dec n \<noteq> []"
  by (simp add: dec.simps [of n])

lemma last_dec: "last (dec n) = digit (n mod 10)"
  by (simp add: dec.simps [of n])

lemma butlast_dec: "butlast (dec n) = (if n < 10 then [] else dec (n div 10))"
  by (simp add: dec.simps [of n])

lemma dec_inj: "dec m = dec n \<Longrightarrow> m = n"
proof (induction m arbitrary: n rule: less_induct)
  case (less m)
  have m: "m mod 10 = n mod 10"
    using last_dec [of m] last_dec [of n] less.prems by (intro digit_inj) simp_all
  show ?case
  proof (cases "m < 10")
    case True
    then have "n < 10" using butlast_dec [of m] butlast_dec [of n] less.prems by (auto split: if_splits)
    with True m show ?thesis by simp
  next
    case False
    then have "\<not> n < 10" using butlast_dec [of m] butlast_dec [of n] less.prems by (metis dec_not_Nil)
    with False have "dec (m div 10) = dec (n div 10)"
      using butlast_dec [of m] butlast_dec [of n] less.prems by simp
    with less.IH [of "m div 10" "n div 10"] False have "m div 10 = n div 10" by simp
    with m show ?thesis by (metis div_mult_mod_eq)
  qed
qed

lemma length_hex02 [simp]: "length (hex02 b) = 2"
proof -
  have "unat b < 256" using unsigned_less [of b] by simp
  then have "unat b div 16 < 16" by simp
  then show ?thesis
    by (simp add: hex02_def pad_left_def hex.simps [of "unat b"] hex.simps [of "unat b div 16"])
qed

lemma hex_digit_range: "k < 16 \<Longrightarrow> 48 \<le> (of_char (hex_digit k) :: nat)"
  by (simp add: hex_digit_def)

lemma hex_chars: "c \<in> set (hex n) \<Longrightarrow> 48 \<le> (of_char c :: nat)"
proof (induction n rule: hex.induct)
  case (1 n)
  then consider "\<not> n < 16" "c \<in> set (hex (n div 16))" | "c = hex_digit (n mod 16)"
    by (auto simp: hex.simps [of n] split: if_splits)
  then show ?case
  proof cases
    case 1
    with "1.IH" show ?thesis by blast
  next
    case 2
    then show ?thesis using hex_digit_range [of "n mod 16"] by simp
  qed
qed

lemma hex_no_blank: "CHR '' '' \<notin> set (hex n)"
  using hex_chars [of "CHR '' ''" n] by auto

lemma hex02_no_blank: "CHR '' '' \<notin> set (hex02 b)"
  using hex_no_blank [of "unat b"] by (auto simp: hex02_def pad_left_def)

section \<open>Bits\<close>

definition trailing_zeros :: "32 word \<Rightarrow> nat" where
  "trailing_zeros w = (case find (bit w) [0..<32] of Some i \<Rightarrow> i | None \<Rightarrow> 32)"

lemma trailing_zeros:
  assumes "w \<noteq> 0"
  shows "trailing_zeros w < 32 \<and> bit w (trailing_zeros w) \<and> (\<forall>j < trailing_zeros w. \<not> bit w j)"
proof -
  obtain j where "bit w j" using assms by (auto simp: bit_eq_iff)
  then have "j < 32" "bit w j" using bit_imp_le_length [of w j] by auto
  then have "find (bit w) [0..<32] \<noteq> None" by (auto simp: find_None_iff)
  then obtain i where "find (bit w) [0..<32] = Some i" by auto
  then have t: "trailing_zeros w = i" by (simp add: trailing_zeros_def del: upt_rec_numeral)
  from \<open>find (bit w) [0..<32] = Some i\<close> show ?thesis
    by (auto simp: t find_Some_iff simp del: upt_rec_numeral)
qed

end
