(* ===== verification/LogFormat.thy ===== *)
theory LogFormat
  imports Codec GoText "HOL-Library.Product_Lexorder"
begin

text \<open>
  The format and the names of the log files, pkg/mysqlproxy/log/log.go, filereader.go and
  errorreader.go: the version header and its check, the expansion of the time verbs in the
  file path, and opening a file for reading.  A \<open>time.Time\<close> is the civil fields the code asks it
  for.  A log file is the list of the plain texts of its gzip members.
\<close>

section \<open>The version header\<close>

text \<open>The constant is a raw string: it ends in a backslash and the letter n, not in a newline.\<close>

definition fmtVersion :: string where
  "fmtVersion = ''{'' @ [CHR 0x22] @ ''format'' @ [CHR 0x22] @ '':'' @ [CHR 0x22] @
     ''mysqlproxy-v1.00'' @ [CHR 0x22] @ ''}'' @ [CHR 0x5C] @ ''n''"

definition check_format ::
  "(nat \<Rightarrow> 'r \<Rightarrow> (bytes \<times> go_error option) \<times> 'r) \<Rightarrow> 'r \<Rightarrow> (go_error + string) \<times> 'r" where
  "check_format rd r = (let sz = length fmtVersion in
     case rd sz r of ((b, e), r1) \<Rightarrow>
       (case e of
         Some x \<Rightarrow> (Inl x, r1)
       | None \<Rightarrow>
           (if length b \<noteq> sz then (Inl (Errorf ''version not match size:%d'' ''''), r1)
            else (Inr (string_of_bytes b), r1))))"

text \<open>\<open>errorReader.Read\<close>: the last error of the wrapped reader is remembered.\<close>

record 'r error_reader =
  er_Reader :: 'r
  er_err :: "go_error option"

definition new_error_reader :: "'r \<Rightarrow> 'r error_reader" where
  "new_error_reader r = \<lparr>er_Reader = r, er_err = None\<rparr>"

definition error_reader_read ::
  "(nat \<Rightarrow> 'r \<Rightarrow> (bytes \<times> go_error option) \<times> 'r) \<Rightarrow> nat \<Rightarrow> 'r error_reader \<Rightarrow>
   (bytes \<times> go_error option) \<times> 'r error_reader" where
  "error_reader_read rd k r = (case rd k (er_Reader r) of ((b, e), r1) \<Rightarrow>
     ((b, e), \<lparr>er_Reader = r1, er_err = (if e \<noteq> None then e else er_err r)\<rparr>))"

section \<open>File names\<close>

datatype civil = Civil (c_year: nat) (c_month: nat) (c_day: nat) (c_hour: nat) (c_minute: nat) (c_second: nat)

definition civil_key :: "civil \<Rightarrow> nat \<times> nat \<times> nat \<times> nat \<times> nat \<times> nat" where
  "civil_key t = (c_year t, c_month t, c_day t, c_hour t, c_minute t, c_second t)"

lemma civil_key_inject [simp]: "civil_key t = civil_key u \<longleftrightarrow> t = u"
  by (cases t; cases u) (auto simp: civil_key_def)

text \<open>Times are ordered by their fields.\<close>

instantiation civil :: linorder
begin

definition less_eq_civil :: "civil \<Rightarrow> civil \<Rightarrow> bool" where
  "less_eq_civil t u \<longleftrightarrow> civil_key t \<le> civil_key u"

definition less_civil :: "civil \<Rightarrow> civil \<Rightarrow> bool" where
  "less_civil t u \<longleftrightarrow> civil_key t < civil_key u"

instance
  by standard (auto simp: less_eq_civil_def less_civil_def order.strict_iff_order)

end

text \<open>\<open>fmt.Sprintf("%0wd", n)\<close> and \<open>strings.Replace(s, old, new, -1)\<close> for a non-empty \<open>old\<close>.\<close>

definition zero_padded :: "nat \<Rightarrow> nat \<Rightarrow> string" where
  "zero_padded w n = replicate (w - length (dec n)) (CHR ''0'') @ dec n"

function replace_all :: "string \<Rightarrow> string \<Rightarrow> string \<Rightarrow> string" where
  "replace_all old new [] = []"
| "replace_all old new (c # cs) =
     (if old \<noteq> [] \<and> prefix old (c # cs) then new @ replace_all old new (drop (length old) (c # cs))
      else c # replace_all old new cs)"
  by pat_completeness auto
termination
  by (relation "measure (\<lambda>(old, new, s). length s)") (auto simp: length_greater_0_conv [symmetric] simp del: length_greater_0_conv)

definition time2Path :: "string \<Rightarrow> civil \<Rightarrow> string" where
  "time2Path p t =
     (let p = replace_all ''%Y'' (zero_padded 4 (c_year t)) p;
          p = replace_all ''%y'' (zero_padded 2 (c_year t mod 100)) p;
          p = replace_all ''%m'' (zero_padded 2 (c_month t)) p;
          p = replace_all ''%d'' (zero_padded 2 (c_day t)) p;
          p = replace_all ''%H'' (zero_padded 2 (c_hour t)) p;
          p = replace_all ''%M'' (zero_padded 2 (c_minute t)) p;
          p = replace_all ''%S'' (zero_padded 2 (c_second t)) p
      in p)"

text \<open>The specification: one pass over the path, all verbs at once.\<close>

fun expand :: "(char \<Rightarrow> string option) \<Rightarrow> string \<Rightarrow> string" where
  "expand f (x # y # s) =
     (if x = CHR ''%'' then (case f y of Some r \<Rightarrow> r @ expand f s | None \<Rightarrow> x # expand f (y # s))
      else x # expand f (y # s))"
| "expand f s = s"

fun time_verb :: "civil \<Rightarrow> char \<Rightarrow> string option" where
  "time_verb t c =
     (if c = CHR ''Y'' then Some (zero_padded 4 (c_year t))
      else if c = CHR ''y'' then Some (zero_padded 2 (c_year t mod 100))
      else if c = CHR ''m'' then Some (zero_padded 2 (c_month t))
      else if c = CHR ''d'' then Some (zero_padded 2 (c_day t))
      else if c = CHR ''H'' then Some (zero_padded 2 (c_hour t))
      else if c = CHR ''M'' then Some (zero_padded 2 (c_minute t))
      else if c = CHR ''S'' then Some (zero_padded 2 (c_second t))
      else None)"

lemma digits_zero_padded: "digits (zero_padded w n)"
  using digits_dec [of n] by (auto simp: digits_def zero_padded_def)

text \<open>A verb table: digits as texts, letters as verbs.\<close>

definition verbs :: "(char \<Rightarrow> string option) \<Rightarrow> bool" where
  "verbs f \<longleftrightarrow> (\<forall>c r. f c = Some r \<longrightarrow> digits r \<and> 58 \<le> (of_char c :: nat))"

lemma verbs_None: "verbs g \<Longrightarrow> (of_char c :: nat) \<le> 57 \<Longrightarrow> g c = None"
  unfolding verbs_def by (cases "g c") force+

lemma verbs_percent: "verbs g \<Longrightarrow> g (CHR ''%'') = None"
  by (rule verbs_None) simp_all

lemma replace_verb:
  "replace_all [CHR ''%'', y] r s = expand [y \<mapsto> r] s"
proof (induction "[y \<mapsto> r]" s rule: expand.induct)
  case (1 a b s)
  then show ?case by auto
qed auto

lemma expand_copy: "CHR ''%'' \<notin> set r \<Longrightarrow> expand g (r @ q) = r @ expand g q"
proof (induction r)
  case (Cons c r)
  then show ?case by (cases "r @ q") (auto simp: neq_Nil_conv)
qed simp

lemma digits_no_percent: "digits r \<Longrightarrow> CHR ''%'' \<notin> set r"
  by (auto simp: digits_def)

lemma expand_skip:
  "x \<noteq> CHR ''%'' \<Longrightarrow> expand g (x # q) = x # expand g q"
  by (cases q) auto

lemma expand_percent:
  "q = [] \<or> g (hd q) = None \<Longrightarrow> expand g (CHR ''%'' # q) = CHR ''%'' # expand g q"
  by (cases q) auto

lemma expand_head:
  assumes "verbs f" and "verbs g" and "f y = None" and "g y = None"
  shows "expand f (y # s) = [] \<or> g (hd (expand f (y # s))) = None"
proof (cases "y = CHR ''%''")
  case False
  with assms(4) show ?thesis by (simp add: expand_skip)
next
  case True
  show ?thesis
  proof (cases s)
    case Nil
    with assms(4) show ?thesis by simp
  next
    case (Cons z s')
    show ?thesis
    proof (cases "f z")
      case None
      with assms(4) True Cons show ?thesis by simp
    next
      case (Some r)
      with assms(1) have "digits r" by (auto simp: verbs_def)
      then obtain c r' where "r = c # r'" "(of_char c :: nat) \<le> 57"
        by (cases r) (auto simp: digits_def)
      moreover from this assms(2) have "g c = None" by (intro verbs_None)
      ultimately show ?thesis using True Cons Some by simp
    qed
  qed
qed

lemma expand_expand:
  assumes "verbs f" and "verbs g"
  shows "expand g (expand f s) = expand (g ++ f) s"
proof (induction "length s" arbitrary: s rule: less_induct)
  case less
  show ?case
  proof (cases s)
    case Nil
    then show ?thesis by simp
  next
    case (Cons x s1)
    show ?thesis
    proof (cases "x = CHR ''%''")
      case False
      with Cons less show ?thesis by (simp add: expand_skip)
    next
      case True
      show ?thesis
      proof (cases s1)
        case Nil
        with Cons show ?thesis by simp
      next
        case s1: (Cons y s2)
        have ih: "expand g (expand f s2) = expand (g ++ f) s2"
          "expand g (expand f s1) = expand (g ++ f) s1"
          using less Cons s1 by simp_all
        show ?thesis
        proof (cases "f y")
          case (Some r)
          with assms(1) have "CHR ''%'' \<notin> set r" by (auto simp: verbs_def digits_no_percent)
          with Some True Cons s1 ih show ?thesis by (simp add: expand_copy)
        next
          case f: None
          show ?thesis
          proof (cases "g y")
            case (Some r)
            with verbs_percent [OF assms(2)] have "y \<noteq> CHR ''%''" by auto
            moreover have "(g ++ f) y = Some r" using Some f by (simp add: map_add_Some_iff)
            ultimately show ?thesis
              using Some f True Cons s1 ih by (simp add: expand_skip)
          next
            case None
            have gf: "(g ++ f) y = None" using f None by simp
            then show ?thesis
              using True Cons s1 ih f expand_percent [of "expand f (y # s2)" g, OF expand_head [OF assms f None, of s2]]
              by (simp add: gf del: map_add_None)
          qed
        qed
      qed
    qed
  qed
qed

lemma verbs_single: "digits r \<Longrightarrow> 58 \<le> (of_char y :: nat) \<Longrightarrow> verbs [y \<mapsto> r]"
  by (auto simp: verbs_def)

lemma verbs_add: "verbs f \<Longrightarrow> verbs g \<Longrightarrow> verbs (g ++ f)"
  by (auto simp: verbs_def map_add_Some_iff)

lemma time2Path_expand: "time2Path p t = expand (time_verb t) p"
proof -
  let ?f = "\<lambda>c r. [c \<mapsto> r] :: char \<rightharpoonup> string"
  let ?Y = "?f (CHR ''Y'') (zero_padded 4 (c_year t))" and ?y = "?f (CHR ''y'') (zero_padded 2 (c_year t mod 100))"
    and ?m = "?f (CHR ''m'') (zero_padded 2 (c_month t))" and ?d = "?f (CHR ''d'') (zero_padded 2 (c_day t))"
    and ?H = "?f (CHR ''H'') (zero_padded 2 (c_hour t))" and ?M = "?f (CHR ''M'') (zero_padded 2 (c_minute t))"
    and ?S = "?f (CHR ''S'') (zero_padded 2 (c_second t))"
  have v: "verbs ?Y" "verbs ?y" "verbs ?m" "verbs ?d" "verbs ?H" "verbs ?M" "verbs ?S"
    by (simp_all add: verbs_single digits_zero_padded)
  have "time2Path p t = expand (?S ++ (?M ++ (?H ++ (?d ++ (?m ++ (?y ++ ?Y)))))) p"
    by (simp only: time2Path_def Let_def replace_verb expand_expand verbs_add v map_add_assoc)
  also have "?S ++ (?M ++ (?H ++ (?d ++ (?m ++ (?y ++ ?Y))))) = time_verb t"
    by (rule ext) simp
  finally show ?thesis .
qed

section \<open>Reading a log file\<close>

text \<open>
  The standard library's gzip reader: it delivers the plain text in windows of 32768 bytes, and
  the error that ends the stream comes together with the last window.  A file of several
  members reads as one stream.
\<close>

function windows :: "bytes \<Rightarrow> bytes list" where
  "windows b = (if length b < 32768 then [b] else take 32768 b # windows (drop 32768 b))"
  by pat_completeness auto
termination
  by (relation "measure length") auto

declare windows.simps [simp del]

fun gz_blocks :: "bytes list \<Rightarrow> bytes list" where
  "gz_blocks [] = []"
| "gz_blocks [m] = windows m"
| "gz_blocks (m # ms) = filter (\<lambda>b. b \<noteq> []) (windows m) @ gz_blocks ms"

fun gz_read :: "nat \<Rightarrow> bytes list \<Rightarrow> (bytes \<times> go_error option) \<times> bytes list" where
  "gz_read k [] = (([], Some EOF), [])"
| "gz_read k (b # bs) =
     (if k < length b then ((take k b, None), drop k b # bs)
      else ((b, if bs = [] then Some EOF else None), bs))"

type_synonym files = "string \<rightharpoonup> bytes list"

text \<open>
  \<open>NewFileReader\<close>: the gzip reader needs at least one member, the header must be the first 31
  bytes and must come in one read; the decoder reads what is left.
\<close>

definition new_file_reader :: "files \<Rightarrow> string \<Rightarrow> go_error + decoder" where
  "new_file_reader fs filename = (case fs filename of
       None \<Rightarrow> Inl (Errorf ''failed to open file: %v'' ''no such file or directory'')
     | Some ms \<Rightarrow>
         (if ms = [] then Inl (Errorf ''failed to create gzip reader: %v'' ''EOF'')
          else case check_format gz_read (gz_blocks ms) of
            (Inl e, gr) \<Rightarrow> Inl e
          | (Inr version, gr) \<Rightarrow>
              (if version = fmtVersion then Inr (new_decoder (concat gr, EOF))
               else Inl (Errorf ''version not match:%s'' version))))"

definition header :: bytes where
  "header = bytes_of_string fmtVersion"

lemma length_header: "length header = 31"
  by (simp add: header_def fmtVersion_def)

lemma concat_windows [simp]: "concat (windows b) = b"
  by (induction b rule: windows.induct) (simp add: windows.simps)

lemma windows_nonempty [simp]: "windows b \<noteq> []"
  by (simp add: windows.simps [of b])

lemma concat_filter_nonempty: "concat (filter (\<lambda>b. b \<noteq> []) bs) = concat bs"
  by (induction bs) auto

lemma concat_gz_blocks: "concat (gz_blocks ms) = concat ms"
  by (induction ms rule: gz_blocks.induct) (auto simp: concat_filter_nonempty)

lemma hd_windows: "hd (windows b) = take 32768 b"
  by (simp add: windows.simps [of b])

lemma gz_blocks_first:
  assumes "m \<noteq> []"
  shows "\<exists>bs. gz_blocks (m # ms) = take 32768 m # bs"
proof -
  obtain ws where w: "windows m = take 32768 m # ws"
    by (metis hd_windows list.collapse windows_nonempty)
  show ?thesis
    using assms by (cases ms) (simp_all add: w)
qed

lemma check_format_long:
  assumes "31 < length b" and "prefix header b"
  shows "check_format gz_read (b # bs) = (Inr fmtVersion, drop 31 b # bs)"
proof -
  have "length fmtVersion = 31" using length_header by (simp add: header_def)
  moreover have "string_of_bytes (take 31 b) = fmtVersion"
    using assms(2) length_header by (auto simp: header_def elim!: prefixE)
  ultimately show ?thesis using assms(1) by (simp add: check_format_def Let_def)
qed

lemma check_format_exact:
  "check_format gz_read (header # bs) = (if bs = [] then (Inl EOF, []) else (Inr fmtVersion, bs))"
proof -
  have "length fmtVersion = 31" using length_header by (simp add: header_def)
  then show ?thesis by (simp add: check_format_def Let_def length_header) (simp add: header_def)
qed

lemma new_file_reader_ok:
  assumes "fs p = Some (m # ms)" and "prefix header m" and "header \<noteq> concat (m # ms)"
  shows "\<exists>rest. concat (m # ms) = header @ rest \<and> new_file_reader fs p = Inr (new_decoder (rest, EOF))"
proof -
  obtain m' where m: "m = header @ m'" using assms(2) by (auto elim: prefixE)
  have "m \<noteq> []" using m length_header by auto
  from gz_blocks_first [OF this, of ms] obtain bs where
    bs: "gz_blocks (m # ms) = take 32768 m # bs" by auto
  have c: "take 32768 m @ concat bs = concat (m # ms)"
    using concat_gz_blocks [of "m # ms"] by (simp add: bs)
  have t: "take 32768 m = header @ take 32737 m'" using m length_header by simp
  have full: "concat (m # ms) = header @ m' @ concat ms" by (simp add: m)
  show ?thesis
  proof (cases "31 < length (take 32768 m)")
    case True
    then have "check_format gz_read (gz_blocks (m # ms)) = (Inr fmtVersion, drop 31 (take 32768 m) # bs)"
      unfolding bs by (intro check_format_long) (simp_all add: t)
    moreover have "drop 31 (take 32768 m) @ concat bs = m' @ concat ms"
      using c t full length_header by simp
    ultimately show ?thesis using assms(1) full by (simp add: new_file_reader_def)
  next
    case False
    then have e: "take 32737 m' = []" using t length_header by auto
    then have "concat bs = m' @ concat ms" using c t full by simp
    then have "bs \<noteq> []" using assms(3) full by auto
    then have "check_format gz_read (gz_blocks (m # ms)) = (Inr fmtVersion, bs)"
      unfolding bs t e by (simp add: check_format_exact)
    then show ?thesis using assms(1) full \<open>concat bs = m' @ concat ms\<close> by (simp add: new_file_reader_def)
  qed
qed

lemma new_file_reader_header_only:
  assumes "fs p = Some [header]"
  shows "new_file_reader fs p = Inl EOF"
proof -
  have "windows header = [header]" by (simp add: windows.simps [of header] length_header)
  with assms show ?thesis by (simp add: new_file_reader_def check_format_exact)
qed

section \<open>Properties\<close>

text \<open>C37: the path of a log file.  The seven successive replacements of \<open>time2Path\<close> are one
  simultaneous expansion of the verbs: no replacement sees the text another one has inserted,
  whatever the path, with adjacent verbs and doubled percent signs included.\<close>

theorem time2Path_is_one_pass: "time2Path p t = expand (time_verb t) p"
  by (rule time2Path_expand)

text \<open>A log that holds no record cannot be opened.  A file with nothing but the version
  header, which is what a quiet rotation period leaves, is refused with \<open>io.EOF\<close>: the read that
  returns the header's last byte returns the end of file with it.\<close>

lemma header_only_log_is_refused:
  assumes "fs p = Some [header]"
  shows "new_file_reader fs p = Inl EOF"
  using assms by (rule new_file_reader_header_only)

end
