(* ===== verification/AuditLog.thy ===== *)
theory AuditLog
  imports SendTask LogFormat
begin

text \<open>
  The audit log writer, pkg/mysqlproxy/log/auditlogwriter.go: the channel the sessions push to,
  the pool of records, and the worker that writes what it receives to the current gzip file and
  rotates it.  The disk is the plain text of the closed gzip members of every file; the member
  being written is the state of the gzip writer, with its sticky error.
\<close>

section \<open>Files and the gzip writer\<close>

text \<open>
  \<open>k_open\<close> gives the outcome of the coming calls of \<open>os.OpenFile\<close> that the state of the files
  does not decide, \<open>k_room\<close> the bytes the compressor still accepts before a write fails,
  \<open>k_flush\<close> what the flush of a closing gzip writer returns and \<open>k_close\<close> what closing a file
  returns.
\<close>

record disk =
  k_files :: files
  k_open :: "go_error option list"
  k_room :: "(nat \<times> go_error) option"
  k_flush :: "go_error option"
  k_close :: "go_error option"

record gzip_writer =
  z_file :: string
  z_data :: bytes
  z_err :: "go_error option"

datatype open_mode = Excl | Append

definition open_file :: "open_mode \<Rightarrow> string \<Rightarrow> disk \<Rightarrow> go_error option \<times> disk" where
  "open_file mode p k =
     (let k1 = k\<lparr>k_open := tl (k_open k)\<rparr> in
      case (if k_open k = [] then None else hd (k_open k)) of
        Some e \<Rightarrow> (Some e, k1)
      | None \<Rightarrow> (case mode of
          Excl \<Rightarrow> (if k_files k p \<noteq> None then (Some OsExist, k1)
                   else (None, k1\<lparr>k_files := (k_files k)(p \<mapsto> [])\<rparr>))
        | Append \<Rightarrow> (if k_files k p = None then (Some (Failure ''no such file or directory''), k1)
                   else (None, k1))))"

definition gz_write :: "(gzip_writer \<times> disk) writer" where
  "gz_write w b = (case w of (z, k) \<Rightarrow>
     (case z_err z of
       Some e \<Rightarrow> ((z, k), 0, Some e)
     | None \<Rightarrow> (case k_room k of
         None \<Rightarrow> ((z\<lparr>z_data := z_data z @ b\<rparr>, k), length b, None)
       | Some (n, e) \<Rightarrow>
           (if length b \<le> n
            then ((z\<lparr>z_data := z_data z @ b\<rparr>, k\<lparr>k_room := Some (n - length b, e)\<rparr>), length b, None)
            else ((z\<lparr>z_data := z_data z @ take n b, z_err := Some e\<rparr>, k\<lparr>k_room := Some (0, e)\<rparr>), n, Some e)))))"

definition gz_new :: "string \<Rightarrow> gzip_writer" where
  "gz_new p = \<lparr>z_file = p, z_data = [], z_err = None\<rparr>"

text \<open>Closing the gzip writer ends its member in the file; an earlier error is returned again.\<close>

definition add_member :: "string \<Rightarrow> bytes \<Rightarrow> files \<Rightarrow> files" where
  "add_member p m fs = fs(p \<mapsto> (case fs p of None \<Rightarrow> [] | Some ms \<Rightarrow> ms) @ [m])"

definition gz_close :: "gzip_writer \<Rightarrow> disk \<Rightarrow> go_error option \<times> gzip_writer \<times> disk" where
  "gz_close z k = (case z_err z of
       Some e \<Rightarrow> (Some e, z, k)
     | None \<Rightarrow> (case k_flush k of
         Some e \<Rightarrow> (Some e, z\<lparr>z_err := Some e\<rparr>, k)
       | None \<Rightarrow> (None, z, k\<lparr>k_files := add_member (z_file z) (z_data z) (k_files k)\<rparr>)))"

section \<open>The writer's state and operations\<close>

text \<open>
  \<open>al_sent\<close> is everything ever sent on the channel and \<open>al_recv\<close> the number received, so the
  buffered values are \<open>queued\<close>.  The pool is a list; what the runtime's pool hands out first, or
  drops, is not observed by the properties.  \<open>al_picks\<close> are the choices of \<open>select\<close> when a
  cancellation is one of the ways to go on.
\<close>

record audit_log =
  al_filePath :: string
  al_sent :: "record_buffer list"
  al_recv :: nat
  al_cap :: nat
  al_closed :: bool
  al_picks :: "bool list"
  al_pool :: "record_buffer list"
  al_file :: "string option"
  al_gzip :: "gzip_writer option"
  al_latestFile :: string
  al_disk :: disk

definition queued :: "audit_log \<Rightarrow> record_buffer list" where
  "queued a = drop (al_recv a) (al_sent a)"

definition create_file :: "civil \<Rightarrow> audit_log \<Rightarrow> go_error option \<times> audit_log" where
  "create_file t a =
     (let p = time2Path (al_filePath a) t; a0 = a\<lparr>al_latestFile := p\<rparr> in
      case open_file Excl p (al_disk a) of
        (None, k) \<Rightarrow> (case gz_write (gz_new p, k) header of ((z, k'), n, e) \<Rightarrow>
           (None, a0\<lparr>al_file := Some p, al_gzip := Some z, al_disk := k'\<rparr>))
      | (Some e, k) \<Rightarrow>
          (if e = OsExist then
             (case open_file Append p k of
               (Some e', k') \<Rightarrow> (Some e', a0\<lparr>al_file := None, al_disk := k'\<rparr>)
             | (None, k') \<Rightarrow> (None, a0\<lparr>al_file := Some p, al_gzip := Some (gz_new p), al_disk := k'\<rparr>))
           else (Some e, a0\<lparr>al_file := None, al_disk := k\<rparr>)))"

definition new_audit_log ::
  "nat \<Rightarrow> string \<Rightarrow> civil \<Rightarrow> bool list \<Rightarrow> disk \<Rightarrow> go_error + audit_log" where
  "new_audit_log cap filePath t picks k =
     (case create_file t \<lparr>al_filePath = filePath, al_sent = [], al_recv = 0, al_cap = cap,
        al_closed = False, al_picks = picks, al_pool = [], al_file = None, al_gzip = None,
        al_latestFile = [], al_disk = k\<rparr> of
       (Some e, a) \<Rightarrow> Inl e | (None, a) \<Rightarrow> Inr a)"

definition write_data_to_file :: "record_buffer \<Rightarrow> audit_log \<Rightarrow> (go_error option \<times> audit_log) outcome" where
  "write_data_to_file sp a = (case al_gzip a of
       None \<Rightarrow> Panics ''nil pointer dereference''
     | Some z \<Rightarrow> (case encode_packet gz_write (z, al_disk a) (record_view sp) of ((z', k), e) \<Rightarrow>
         Returns (e, a\<lparr>al_gzip := Some z', al_disk := k\<rparr>)))"

definition close_os_file :: "audit_log \<Rightarrow> go_error option \<times> audit_log" where
  "close_os_file a = (case al_file a of
       None \<Rightarrow> (None, a)
     | Some p \<Rightarrow> (k_close (al_disk a), a\<lparr>al_file := None\<rparr>))"

definition close_file :: "audit_log \<Rightarrow> go_error option \<times> audit_log" where
  "close_file a = (case al_gzip a of
       None \<Rightarrow> close_os_file a
     | Some z \<Rightarrow> (case gz_close z (al_disk a) of
         (Some e, z', k) \<Rightarrow> (Some e, a\<lparr>al_gzip := Some z', al_disk := k\<rparr>)
       | (None, z', k) \<Rightarrow> close_os_file (a\<lparr>al_gzip := None, al_disk := k\<rparr>)))"

definition put_send_packet :: "record_buffer \<Rightarrow> audit_log \<Rightarrow> audit_log" where
  "put_send_packet sp a = a\<lparr>al_pool := sp # al_pool a\<rparr>"

definition new_pool_record :: record_buffer where
  "new_pool_record = \<lparr>sp_Datetime = 0, sp_ConnectionID = 0, sp_User = [], sp_Db = [], sp_Addr = [],
     sp_State = [], sp_Err = [],
     sp_Packets = \<lparr>gs_arr = replicate max_packet_size 0, gs_len = max_packet_size\<rparr>, sp_Cmd = []\<rparr>"

definition get_send_packet :: "audit_log \<Rightarrow> record_buffer \<times> audit_log" where
  "get_send_packet a = (case al_pool a of
       [] \<Rightarrow> (new_pool_record, a)
     | sp # ps \<Rightarrow> (sp, a\<lparr>al_pool := ps\<rparr>))"

definition close_channel :: "audit_log \<Rightarrow> audit_log outcome" where
  "close_channel a = (if al_closed a then Panics ''close of closed channel''
     else Returns (a\<lparr>al_closed := True\<rparr>))"

text \<open>
  One turn of the worker: which case of the \<open>select\<close> is ready and taken.  A receive gets the
  oldest buffered value, or the closing of an empty channel.
\<close>

datatype log_turn = Done | Receive | Tick civil

definition turn_ready :: "log_turn \<Rightarrow> audit_log \<Rightarrow> bool" where
  "turn_ready w a \<longleftrightarrow> (w = Receive \<longrightarrow> queued a \<noteq> [] \<or> al_closed a)"

definition receive_and_write :: "log_turn \<Rightarrow> audit_log \<Rightarrow> (go_error option \<times> audit_log) outcome" where
  "receive_and_write w a = (case w of
       Done \<Rightarrow> Returns (None, a)
     | Receive \<Rightarrow> (case queued a of
         [] \<Rightarrow> (case close_file a of (Some e, a1) \<Rightarrow> Returns (Some e, a1) | (None, a1) \<Rightarrow> Returns (Some EOF, a1))
       | sp # q \<Rightarrow> bind_outcome (write_data_to_file sp (a\<lparr>al_recv := Suc (al_recv a)\<rparr>)) (\<lambda>(e, a1).
           Returns (e, put_send_packet sp a1)))
     | Tick t \<Rightarrow> (case close_file a of
         (Some e, a1) \<Rightarrow> Returns (Some e, a1)
       | (None, a1) \<Rightarrow> Returns (create_file t a1)))"

text \<open>
  A send on a full channel waits until the worker has taken a value, unless the context's
  cancellation comes first; a send on a closed channel panics.
\<close>

definition push_to_log_channel ::
  "bool \<Rightarrow> record_buffer \<Rightarrow> audit_log \<Rightarrow> (go_error option \<times> audit_log) outcome" where
  "push_to_log_channel ctx_done sp a =
     (let full = (al_cap a \<le> length (queued a));
          pick = (al_picks a \<noteq> [] \<and> hd (al_picks a)); a1 = a\<lparr>al_picks := tl (al_picks a)\<rparr> in
      if al_closed a then
        (if ctx_done \<and> pick then Returns (Some Canceled, a1) else Panics ''send on closed channel'')
      else if full then
        (if ctx_done \<or> pick then Returns (Some Canceled, a1)
         else bind_outcome (receive_and_write Receive a1) (\<lambda>(e, a2).
           Returns (None, a2\<lparr>al_sent := al_sent a2 @ [sp]\<rparr>)))
      else if ctx_done \<and> pick then Returns (Some Canceled, a1)
      else Returns (None, a1\<lparr>al_sent := al_sent a @ [sp]\<rparr>))"

definition audit_log_writer :: "audit_log log_writer" where
  "audit_log_writer = \<lparr>lw_push = push_to_log_channel, lw_put = put_send_packet,
     lw_get = get_send_packet, lw_close = close_channel\<rparr>"

text \<open>
  \<open>LogWriteWorker\<close>, with what the sessions do between its turns.  It ignores every error but
  \<open>io.EOF\<close>; a turn that is not ready is not taken.  The result says whether the worker is still
  running (\<open>None\<close>) or what it returned.
\<close>

datatype log_event = Pushed record_buffer | Closed | Turn log_turn

fun log_write_worker ::
  "log_event list \<Rightarrow> audit_log \<Rightarrow> (go_error option option \<times> audit_log) outcome" where
  "log_write_worker [] a = Returns (None, a)"
| "log_write_worker (Pushed sp # es) a =
     (if al_closed a then Panics ''send on closed channel''
      else log_write_worker es (a\<lparr>al_sent := al_sent a @ [sp]\<rparr>))"
| "log_write_worker (Closed # es) a = bind_outcome (close_channel a) (log_write_worker es)"
| "log_write_worker (Turn w # es) a =
     (if w = Done then (case close_file a of (e, a1) \<Rightarrow> Returns (Some (Some Canceled), a1))
      else if \<not> turn_ready w a then log_write_worker es a
      else bind_outcome (receive_and_write w a) (\<lambda>(e, a1).
        if e = Some EOF then (case close_file a1 of (e', a2) \<Rightarrow> Returns (Some None, a2))
        else log_write_worker es a1))"

section \<open>The contract with the sessions\<close>

definition log_inv :: "audit_log \<Rightarrow> bool" where
  "log_inv a \<longleftrightarrow> \<not> al_closed a \<and> 0 < al_cap a \<and> al_gzip a \<noteq> None \<and>
     list_all pool_record (al_pool a) \<and> list_all pool_record (queued a) \<and>
     al_recv a \<le> length (al_sent a)"

definition sent_records :: "audit_log \<Rightarrow> bytes send_packet list" where
  "sent_records a = map record_view (al_sent a)"

lemma pool_record_new: "pool_record new_pool_record"
  by (simp add: pool_record_def new_pool_record_def gs_cap_def)

lemma queued_upd [simp]:
  "queued (a\<lparr>al_picks := x\<rparr>) = queued a"
  "queued (a\<lparr>al_pool := ps\<rparr>) = queued a"
  "queued (a\<lparr>al_gzip := z\<rparr>) = queued a"
  "queued (a\<lparr>al_disk := k\<rparr>) = queued a"
  "queued (a\<lparr>al_file := f\<rparr>) = queued a"
  "queued (a\<lparr>al_latestFile := l\<rparr>) = queued a"
  "queued (a\<lparr>al_closed := c\<rparr>) = queued a"
  by (simp_all add: queued_def)

lemma queued_send: "al_recv a \<le> length (al_sent a) \<Longrightarrow>
    queued (a\<lparr>al_sent := al_sent a @ [sp]\<rparr>) = queued a @ [sp]"
  by (simp add: queued_def)

lemma queued_recv: "queued a = sp # q \<Longrightarrow> queued (a\<lparr>al_recv := Suc (al_recv a)\<rparr>) = q"
  by (simp add: queued_def) (metis drop_Suc drop_tl list.sel(3))

lemma queued_ConsD: "queued a = sp # q \<Longrightarrow> Suc (al_recv a) \<le> length (al_sent a)"
  by (simp add: queued_def) (metis drop_all list.distinct(1) not_less_eq_eq)

lemma receive_frame:
  assumes "queued a = sp # q" and "al_gzip a \<noteq> None"
  shows "\<exists>e z k. receive_and_write Receive a = Returns (e,
    a\<lparr>al_recv := Suc (al_recv a), al_gzip := Some z, al_disk := k, al_pool := sp # al_pool a\<rparr>)"
  using assms
  by (auto simp: receive_and_write_def write_data_to_file_def put_send_packet_def split: prod.splits) blast

interpretation audit: log_writer_contract audit_log_writer log_inv sent_records
proof
  fix a :: audit_log and sp a'
  assume "log_inv a" and "lw_get audit_log_writer a = (sp, a')"
  then show "log_inv a' \<and> sent_records a' = sent_records a \<and> pool_record sp"
    by (cases "al_pool a")
      (auto simp: audit_log_writer_def get_send_packet_def log_inv_def sent_records_def pool_record_new)
next
  fix a :: audit_log and sp
  assume "log_inv a" and "pool_record sp"
  then show "log_inv (lw_put audit_log_writer sp a) \<and>
      sent_records (lw_put audit_log_writer sp a) = sent_records a"
    by (auto simp: audit_log_writer_def put_send_packet_def log_inv_def sent_records_def)
next
  fix a :: audit_log and sp d
  assume inv: "log_inv a" and sp: "pool_record sp"
  let ?a1 = "a\<lparr>al_picks := tl (al_picks a)\<rparr>"
  let ?full = "al_cap a \<le> length (queued a)" and ?pick = "al_picks a \<noteq> [] \<and> hd (al_picks a)"
  consider (cancel) "(?full \<and> (d \<or> ?pick)) \<or> (\<not> ?full \<and> d \<and> ?pick)"
    | (wait) "?full" "\<not> (d \<or> ?pick)" | (send) "\<not> ?full" "\<not> (d \<and> ?pick)" by blast
  then have "\<exists>e l'. push_to_log_channel d sp a = Returns (e, l') \<and> log_inv l' \<and>
      (case e of None \<Rightarrow> sent_records l' = sent_records a @ [record_view sp]
       | Some x \<Rightarrow> sent_records l' = sent_records a \<and> x = Canceled)"
  proof cases
    case cancel
    with inv have "push_to_log_channel d sp a = Returns (Some Canceled, ?a1)"
      by (auto simp: push_to_log_channel_def log_inv_def Let_def)
    with inv show ?thesis by (simp add: log_inv_def sent_records_def)
  next
    case wait
    with inv obtain s0 q where q: "queued ?a1 = s0 # q"
      by (cases "queued a") (auto simp: log_inv_def)
    from receive_frame [OF q] inv obtain e z k where
      r: "receive_and_write Receive ?a1 = Returns (e, ?a1\<lparr>al_recv := Suc (al_recv a),
        al_gzip := Some z, al_disk := k, al_pool := s0 # al_pool a\<rparr>)"
      (is "_ = Returns (e, ?a2)") by (auto simp: log_inv_def)
    have "push_to_log_channel d sp a = Returns (None, ?a2\<lparr>al_sent := al_sent a @ [sp]\<rparr>)"
      using inv wait r by (simp add: push_to_log_channel_def log_inv_def Let_def)
    moreover have "queued (?a2\<lparr>al_sent := al_sent a @ [sp]\<rparr>) = q @ [sp]"
      using queued_recv [OF q] queued_ConsD [OF q] by (simp add: queued_def)
    moreover have "list_all pool_record (s0 # q)" using inv q by (simp add: log_inv_def)
    ultimately show ?thesis
      using inv sp queued_ConsD [OF q] by (auto simp: log_inv_def sent_records_def)
  next
    case send
    with inv have "push_to_log_channel d sp a = Returns (None, ?a1\<lparr>al_sent := al_sent a @ [sp]\<rparr>)"
      by (auto simp: push_to_log_channel_def log_inv_def Let_def)
    moreover have "queued (?a1\<lparr>al_sent := al_sent a @ [sp]\<rparr>) = queued a @ [sp]"
      using inv by (simp add: queued_def log_inv_def)
    ultimately show ?thesis using inv sp by (simp add: log_inv_def sent_records_def)
  qed
  then show "\<exists>e l'. lw_push audit_log_writer d sp a = Returns (e, l') \<and> log_inv l' \<and>
      (case e of None \<Rightarrow> sent_records l' = sent_records a @ [record_view sp]
       | Some x \<Rightarrow> sent_records l' = sent_records a \<and> x = Canceled)"
    by (simp add: audit_log_writer_def)
qed

section \<open>What the files hold\<close>

text \<open>
  The abstract log: for every file the records in it.  \<open>stores\<close> is its relation to closed
  files, \<open>writing\<close> to the state of a worker on a disk that reports no error: closing the file
  now would store it.
\<close>

type_synonym logs = "string \<rightharpoonup> bytes send_packet list"

definition log_text :: "bytes send_packet list \<Rightarrow> bytes" where
  "log_text ps = header @ concat (map packet_bytes ps)"

definition log_file :: "bytes list \<Rightarrow> bytes send_packet list \<Rightarrow> bool" where
  "log_file ms ps \<longleftrightarrow> ms \<noteq> [] \<and> prefix header (hd ms) \<and> concat ms = log_text ps \<and> list_all encodable ps"

definition stores :: "files \<Rightarrow> logs \<Rightarrow> bool" where
  "stores fs L \<longleftrightarrow> rel_fun (=) (rel_option log_file) fs L"

definition healthy :: "disk \<Rightarrow> bool" where
  "healthy k \<longleftrightarrow> k_open k = [] \<and> k_room k = None \<and> k_flush k = None \<and> k_close k = None"

definition writing :: "audit_log \<Rightarrow> string \<Rightarrow> logs \<Rightarrow> bool" where
  "writing a cur L \<longleftrightarrow> healthy (al_disk a) \<and> (\<exists>data ms. al_gzip a = Some \<lparr>z_file = cur, z_data = data, z_err = None\<rparr>
     \<and> al_file a = Some cur \<and> k_files (al_disk a) cur = Some ms
     \<and> stores (add_member cur data (k_files (al_disk a))) L)"

definition records_of :: "logs \<Rightarrow> string \<Rightarrow> bytes send_packet list" where
  "records_of L p = (case L p of None \<Rightarrow> [] | Some ps \<Rightarrow> ps)"

lemma stores_update:
  "stores fs L \<Longrightarrow> log_file ms ps \<Longrightarrow> stores (fs(p \<mapsto> ms)) (L(p \<mapsto> ps))"
  by (auto simp: stores_def rel_fun_def)

lemma stores_at: "stores fs L \<Longrightarrow> rel_option log_file (fs p) (L p)"
  by (auto simp: stores_def rel_fun_def)

lemma gz_write_healthy:
  "z_err z = None \<Longrightarrow> k_room k = None \<Longrightarrow>
   gz_write (z, k) b = ((z\<lparr>z_data := z_data z @ b\<rparr>, k), length b, None)"
  by (simp add: gz_write_def)

lemma encode_packet_healthy:
  "z_err z = None \<Longrightarrow> k_room k = None \<Longrightarrow>
   encode_packet gz_write (z, k) p = ((z\<lparr>z_data := z_data z @ packet_bytes p\<rparr>, k), None)"
  by (simp add: encode_packet_def write_bytes_def binary_write_def and_then_def
      gz_write_healthy packet_bytes_def packet_strings_def lp_bytes_def)

interpretation gz: byte_sink gz_write "\<lambda>(z, k). z_data z"
  by unfold_locales (auto simp: gz_write_def split: option.splits if_splits prod.splits)

lemma close_file_writing:
  assumes "writing a cur L"
  shows "\<exists>k. close_file a = (None, a\<lparr>al_gzip := None, al_disk := k, al_file := None\<rparr>) \<and>
    healthy k \<and> stores (k_files k) L"
  using assms
  by (auto simp: writing_def close_file_def gz_close_def close_os_file_def healthy_def)

lemma create_file_frame:
  "create_file t a = (e, a') \<Longrightarrow> queued a' = queued a \<and> al_closed a' = al_closed a \<and>
   al_filePath a' = al_filePath a \<and> al_recv a' = al_recv a \<and> al_sent a' = al_sent a"
  by (auto simp: create_file_def Let_def split: prod.splits option.splits if_splits)

lemma create_file_stores:
  assumes "healthy (al_disk a)" and "stores (k_files (al_disk a)) L" and "p = time2Path (al_filePath a) t"
  shows "\<exists>a2. create_file t a = (None, a2) \<and> writing a2 p (if L p = None then L(p \<mapsto> []) else L)"
proof (cases "k_files (al_disk a) p")
  case None
  then have "L p = None" using stores_at [OF assms(2), of p] by simp
  moreover have "log_file [header] []" by (simp add: log_file_def log_text_def)
  from stores_update [OF assms(2) this, of p] None assms(1)
  have "stores (add_member p header ((k_files (al_disk a))(p \<mapsto> []))) (L(p \<mapsto> []))"
    by (simp add: add_member_def)
  ultimately show ?thesis
    using assms(1,3) None
    by (auto simp: create_file_def open_file_def healthy_def gz_write_healthy gz_new_def writing_def Let_def)
next
  case (Some ms)
  then obtain ps where ps: "L p = Some ps" "log_file ms ps"
    using stores_at [OF assms(2), of p] by (auto simp: option_rel_Some1)
  then have "log_file (ms @ [[]]) ps" by (simp add: log_file_def)
  from stores_update [OF assms(2) this, of p] Some ps(1)
  have "stores (add_member p [] (k_files (al_disk a))) L"
    by (simp add: add_member_def fun_upd_idem)
  then show ?thesis
    using assms(1,3) Some ps(1)
    by (auto simp: create_file_def open_file_def healthy_def gz_new_def writing_def Let_def)
qed

lemma receive_writing:
  assumes w: "writing a cur L" and q: "queued a = sp # q" and enc: "encodable (record_view sp)"
  shows "\<exists>z a'. receive_and_write Receive a = Returns (None, a') \<and>
    a' = a\<lparr>al_recv := Suc (al_recv a), al_gzip := z, al_pool := sp # al_pool a\<rparr> \<and>
    writing a' cur (L(cur \<mapsto> records_of L cur @ [record_view sp]))"
proof -
  from w obtain data ms where a: "healthy (al_disk a)"
    "al_gzip a = Some \<lparr>z_file = cur, z_data = data, z_err = None\<rparr>" "al_file a = Some cur"
    "k_files (al_disk a) cur = Some ms" "stores (add_member cur data (k_files (al_disk a))) L"
    by (auto simp: writing_def)
  let ?p = "record_view sp" and ?fs = "k_files (al_disk a)"
  obtain ps where ps: "L cur = Some ps" "log_file (ms @ [data]) ps"
    using stores_at [OF a(5), of cur] a(4) by (auto simp: add_member_def option_rel_Some1)
  from ps(2) enc have lf: "log_file (ms @ [data @ packet_bytes ?p]) (ps @ [?p])"
    by (cases ms) (auto simp: log_file_def log_text_def)
  have "add_member cur (data @ packet_bytes ?p) ?fs
      = (add_member cur data ?fs)(cur \<mapsto> ms @ [data @ packet_bytes ?p])"
    using a(4) by (simp add: add_member_def)
  then have st: "stores (add_member cur (data @ packet_bytes ?p) ?fs) (L(cur \<mapsto> records_of L cur @ [?p]))"
    using stores_update [OF a(5) lf, of cur] ps(1) by (simp add: records_of_def)
  have "k_room (al_disk a) = None" using a(1) by (simp add: healthy_def)
  then have "receive_and_write Receive a = Returns (None, a\<lparr>al_recv := Suc (al_recv a),
      al_gzip := Some \<lparr>z_file = cur, z_data = data @ packet_bytes ?p, z_err = None\<rparr>, al_pool := sp # al_pool a\<rparr>)"
    using q a(2)
    by (simp add: receive_and_write_def write_data_to_file_def encode_packet_healthy put_send_packet_def)
  then show ?thesis using a st by (auto simp: writing_def)
qed

subsection \<open>Which record goes to which file\<close>

text \<open>
  The specification of a run: the records in the order of the channel, each under the file that
  is current when it is received; \<open>c\<close> says that the channel has been closed.
\<close>

fun filed :: "string \<Rightarrow> log_event list \<Rightarrow> bytes send_packet list \<Rightarrow> bool \<Rightarrow> string \<Rightarrow>
    (string \<times> bytes send_packet) list" where
  "filed fp [] q c cur = []"
| "filed fp (Pushed sp # es) q c cur = filed fp es (q @ [record_view sp]) c cur"
| "filed fp (Closed # es) q c cur = filed fp es q True cur"
| "filed fp (Turn Done # es) q c cur = []"
| "filed fp (Turn (Tick t) # es) q c cur = filed fp es q c (time2Path fp t)"
| "filed fp (Turn Receive # es) q c cur = (case q of
       [] \<Rightarrow> if c then [] else filed fp es q c cur
     | p # q' \<Rightarrow> (cur, p) # filed fp es q' c cur)"

definition filed_in :: "string \<Rightarrow> (string \<times> bytes send_packet) list \<Rightarrow> bytes send_packet list" where
  "filed_in p w = map snd (filter (\<lambda>x. fst x = p) w)"

lemma filed_in_simps [simp]:
  "filed_in p [] = []"
  "filed_in p ((c, r) # w) = (if c = p then r # filed_in p w else filed_in p w)"
  by (auto simp: filed_in_def)

text \<open>The sessions do not use the channel after it has been closed.\<close>

fun orderly :: "bool \<Rightarrow> log_event list \<Rightarrow> bool" where
  "orderly c [] \<longleftrightarrow> True"
| "orderly c (Pushed sp # es) \<longleftrightarrow> \<not> c \<and> encodable (record_view sp) \<and> orderly c es"
| "orderly c (Closed # es) \<longleftrightarrow> \<not> c \<and> orderly True es"
| "orderly c (Turn w # es) \<longleftrightarrow> orderly c es"

definition final_logs :: "go_error option option \<Rightarrow> audit_log \<Rightarrow> logs \<Rightarrow> bool" where
  "final_logs r a L \<longleftrightarrow> (case r of None \<Rightarrow> \<exists>cur. writing a cur L | Some _ \<Rightarrow> stores (k_files (al_disk a)) L)"

fun pushed :: "log_event list \<Rightarrow> bytes send_packet list" where
  "pushed [] = []"
| "pushed (Pushed sp # es) = record_view sp # pushed es"
| "pushed (e # es) = pushed es"

lemma pushed_after_close: "orderly True es \<Longrightarrow> pushed es = []"
  by (induction "True" es rule: orderly.induct) auto

lemma filed_prefix: "prefix (map snd (filed fp es q c cur)) (q @ pushed es)"
  by (induction fp es q c cur rule: filed.induct) (auto split: list.splits)

text \<open>What a run leaves, given the records \<open>w\<close> it has filed and those sent to it.\<close>

definition worker_result ::
  "(go_error option option \<times> audit_log) outcome \<Rightarrow> logs \<Rightarrow> (string \<times> bytes send_packet) list \<Rightarrow>
   bytes send_packet list \<Rightarrow> bool" where
  "worker_result res L w snt \<longleftrightarrow> (\<exists>r a' L'. res = Returns (r, a') \<and> final_logs r a' L' \<and>
     (\<forall>p. records_of L' p = records_of L p @ filed_in p w) \<and> (r = Some None \<longrightarrow> map snd w = snt))"

lemma worker_result_receive:
  assumes "worker_result res (L(cur \<mapsto> records_of L cur @ [x])) w snt"
  shows "worker_result res L ((cur, x) # w) (x # snt)"
proof -
  have "records_of (L(cur \<mapsto> records_of L cur @ [x])) p @ filed_in p w =
      records_of L p @ filed_in p ((cur, x) # w)" for p
    by (simp add: records_of_def)
  with assms show ?thesis unfolding worker_result_def by fastforce
qed

lemma worker_result_tick:
  assumes "worker_result res (if L p = None then L(p \<mapsto> []) else L) w snt"
  shows "worker_result res L w snt"
proof -
  have "records_of (if L p = None then L(p \<mapsto> []) else L) q = records_of L q" for q
    by (simp add: records_of_def)
  with assms show ?thesis unfolding worker_result_def by simp
qed

lemma worker_result_end:
  "final_logs r a L \<Longrightarrow> (r = Some None \<Longrightarrow> snt = []) \<Longrightarrow> worker_result (Returns (r, a)) L [] snt"
  unfolding worker_result_def by auto

text \<open>The turns of a worker that is writing: a rotation, and the end of a closed and empty channel.\<close>

lemma tick_writing:
  assumes "writing a cur L" and "al_recv a \<le> length (al_sent a)"
  shows "\<exists>a2. receive_and_write (Tick tm) a = Returns (None, a2) \<and>
    writing a2 (time2Path (al_filePath a) tm)
      (if L (time2Path (al_filePath a) tm) = None then L(time2Path (al_filePath a) tm \<mapsto> []) else L) \<and>
    queued a2 = queued a \<and> al_closed a2 = al_closed a \<and> al_filePath a2 = al_filePath a \<and> al_recv a2 \<le> length (al_sent a2)"
proof -
  let ?p = "time2Path (al_filePath a) tm"
  from close_file_writing [OF assms(1)] obtain k where
    c: "close_file a = (None, a\<lparr>al_gzip := None, al_disk := k, al_file := None\<rparr>)"
      (is "_ = (None, ?a1)") "healthy k" "stores (k_files k) L" by blast
  have "healthy (al_disk ?a1)" "stores (k_files (al_disk ?a1)) L" using c by simp_all
  from create_file_stores [OF this, of ?p tm] obtain a2 where
    n: "create_file tm ?a1 = (None, a2)" "writing a2 ?p (if L ?p = None then L(?p \<mapsto> []) else L)"
    by auto
  have "queued a2 = queued a" "al_closed a2 = al_closed a" "al_filePath a2 = al_filePath a"
    "al_recv a2 \<le> length (al_sent a2)" using create_file_frame [OF n(1)] assms(2) by simp_all
  moreover have "receive_and_write (Tick tm) a = Returns (None, a2)"
    using c(1) n(1) by (simp add: receive_and_write_def)
  ultimately show ?thesis using n(2) by blast
qed

lemma worker_ends_drained:
  assumes "writing a cur L" and "queued a = []" and "al_closed a"
  shows "\<exists>a1. log_write_worker (Turn Receive # es) a = Returns (Some None, a1) \<and> final_logs (Some None) a1 L"
proof -
  from close_file_writing [OF assms(1)] obtain k where
    c: "close_file a = (None, a\<lparr>al_gzip := None, al_disk := k, al_file := None\<rparr>)"
      (is "_ = (None, ?a1)") "healthy k" "stores (k_files k) L" by blast
  have "close_file ?a1 = (None, ?a1)" by (simp add: close_file_def close_os_file_def)
  with c assms(2,3) show ?thesis by (simp add: receive_and_write_def turn_ready_def final_logs_def)
qed

lemma receive_step:
  assumes "writing a cur L" and "queued a = sp # q" and "encodable (record_view sp)"
  shows "\<exists>a1. receive_and_write Receive a = Returns (None, a1) \<and>
    writing a1 cur (L(cur \<mapsto> records_of L cur @ [record_view sp])) \<and> queued a1 = q \<and>
    al_recv a1 \<le> length (al_sent a1) \<and> al_closed a1 = al_closed a \<and> al_filePath a1 = al_filePath a"
proof -
  from receive_writing [OF assms] obtain z a1 where
    r: "receive_and_write Receive a = Returns (None, a1)"
      "a1 = a\<lparr>al_recv := Suc (al_recv a), al_gzip := z, al_pool := sp # al_pool a\<rparr>"
      "writing a1 cur (L(cur \<mapsto> records_of L cur @ [record_view sp]))" by blast
  have "queued a1 = q" using queued_recv [OF assms(2)] by (simp add: r(2) queued_def)
  moreover have "al_recv a1 \<le> length (al_sent a1)" using queued_ConsD [OF assms(2)] by (simp add: r(2))
  ultimately show ?thesis using r(1,3) by (simp add: r(2) del: fun_upd_apply)
qed

lemma worker_files:
  assumes "writing a cur L" and "orderly (al_closed a) es"
    and "list_all (encodable \<circ> record_view) (queued a)" and "al_recv a \<le> length (al_sent a)"
  shows "worker_result (log_write_worker es a) L
    (filed (al_filePath a) es (map record_view (queued a)) (al_closed a) cur)
    (map record_view (queued a) @ pushed es)"
  using assms
proof (induction es arbitrary: a cur L)
  case Nil
  then show ?case
    by (auto intro!: worker_result_end simp: final_logs_def)
next
  case (Cons ev es)
  note w = Cons.prems(1) and ord = Cons.prems(2) and enc = Cons.prems(3) and le = Cons.prems(4)
  show ?case
  proof (cases ev)
    case (Pushed sp)
    let ?a = "a\<lparr>al_sent := al_sent a @ [sp]\<rparr>"
    have "writing ?a cur L" using w by (simp add: writing_def)
    moreover have "queued ?a = queued a @ [sp]" using le by (rule queued_send)
    ultimately show ?thesis
      using Cons.IH [of ?a cur L] Pushed ord enc le by (cases "al_closed a") simp_all
  next
    case Closed
    let ?a = "a\<lparr>al_closed := True\<rparr>"
    have "writing ?a cur L" using w by (simp add: writing_def)
    then show ?thesis
      using Cons.IH [of ?a cur L] Closed ord enc le
      by (cases "al_closed a") (simp_all add: close_channel_def)
  next
    case (Turn t)
    show ?thesis
    proof (cases t)
      case Done
      from close_file_writing [OF w] Turn Done show ?thesis
        by (auto intro!: worker_result_end simp: final_logs_def)
    next
      case (Tick tm)
      from tick_writing [OF w le, of tm] obtain a2 where
        n: "receive_and_write t a = Returns (None, a2)"
          "writing a2 (time2Path (al_filePath a) tm)
             (if L (time2Path (al_filePath a) tm) = None then L(time2Path (al_filePath a) tm \<mapsto> []) else L)"
        and same: "queued a2 = queued a" "al_closed a2 = al_closed a" "al_filePath a2 = al_filePath a"
          "al_recv a2 \<le> length (al_sent a2)" unfolding Tick by blast
      show ?thesis
        using Cons.IH [OF n(2)] n(1) Turn Tick ord enc same worker_result_tick [of _ L "time2Path (al_filePath a) tm"]
        by (simp add: turn_ready_def del: fun_upd_apply)
    next
      case Receive
      show ?thesis
      proof (cases "queued a")
        case Nil
        show ?thesis
        proof (cases "al_closed a")
          case False
          with Nil Receive Turn Cons.IH [OF w] ord le show ?thesis by (simp add: turn_ready_def)
        next
          case True
          from worker_ends_drained [OF w Nil True, of es] Nil True Receive Turn ord pushed_after_close show ?thesis
            by (auto intro!: worker_result_end simp del: log_write_worker.simps)
        qed
      next
        case q: (Cons sp q)
        from enc q have "encodable (record_view sp)" by simp
        from receive_step [OF w q this] obtain a1 where
          r: "receive_and_write Receive a = Returns (None, a1)"
            "writing a1 cur (L(cur \<mapsto> records_of L cur @ [record_view sp]))"
          and same: "queued a1 = q" "al_recv a1 \<le> length (al_sent a1)" "al_closed a1 = al_closed a"
            "al_filePath a1 = al_filePath a" by blast
        have "worker_result (log_write_worker es a1) (L(cur \<mapsto> records_of L cur @ [record_view sp]))
            (filed (al_filePath a) es (map record_view q) (al_closed a) cur) (map record_view q @ pushed es)"
          using Cons.IH [OF r(2) _ _ same(2)] Turn ord enc q same by (simp del: fun_upd_apply)
        from worker_result_receive [OF this] show ?thesis
          using Turn Receive q r(1) by (simp add: turn_ready_def)
      qed
    qed
  qed
qed

subsection \<open>Reading the files back\<close>

text \<open>A decoder that gives exactly these records, whatever it is asked to fill, and then \<open>io.EOF\<close>.\<close>

primrec decodes :: "decoder \<Rightarrow> bytes send_packet list \<Rightarrow> bool" where
  "decodes d [] \<longleftrightarrow> (\<forall>q. \<exists>d' q'. decode_packet d q = (d', q', Some EOF))"
| "decodes d (p # ps) \<longleftrightarrow>
     (\<forall>q. \<exists>d' q'. decode_packet d q = (d', q', None) \<and> view (d_heap d') q' = p \<and> decodes d' ps)"

lemma decodes_packets:
  assumes "list_all encodable ps" and "wf_decoder d" and "d_r d = (concat (map packet_bytes ps), EOF)"
  shows "decodes d ps"
  using assms
proof (induction ps arbitrary: d)
  case Nil
  have "\<exists>d' q'. decode_packet d q = (d', q', Some EOF)" for q
  proof -
    obtain d' q' e where run: "decode_packet d q = (d', q', e)" by (metis prod_cases3)
    have "d_r d = ([], EOF)" using Nil.prems(3) by simp
    with decode_packet_view [OF Nil.prems(2) run] run show ?thesis
      by (cases e) (auto simp: parse_packet_end)
  qed
  then show ?case by simp
next
  case (Cons p ps)
  have p: "encodable p" "list_all encodable ps" using Cons.prems(1) by simp_all
  have "d_r d = (packet_bytes p @ concat (map packet_bytes ps), EOF)" using Cons.prems(3) by simp
  from decode_written [OF p(1) Cons.prems(2) this] Cons.IH [OF p(2)] show ?case
    by (simp only: decodes.simps) meson
qed

lemma new_file_reader_stores:
  assumes "stores fs L" and "records_of L p \<noteq> []"
  shows "\<exists>d. new_file_reader fs p = Inr d \<and> decodes d (records_of L p)"
proof -
  obtain ps where ps: "L p = Some ps" "records_of L p = ps"
    using assms(2) by (auto simp: records_of_def split: option.splits)
  obtain ms where ms: "fs p = Some ms" "log_file ms ps"
    using stores_at [OF assms(1), of p] ps(1) by (auto simp: option_rel_Some2)
  then obtain m ms' where c: "ms = m # ms'" by (cases ms) (auto simp: log_file_def)
  have t: "concat (m # ms') = header @ concat (map packet_bytes ps)" "prefix header m" "list_all encodable ps"
    using ms(2) c by (auto simp: log_file_def log_text_def)
  have ne: "concat (map packet_bytes ps) \<noteq> []"
    using assms(2) ps(2) t(3) packet_codec.enc_nonempty by (cases ps) auto
  with t(1) have "header \<noteq> concat (m # ms')" by (metis append_Nil2 same_append_eq)
  from new_file_reader_ok [OF _ t(2) this] ms(1) c obtain rest where
    r: "concat (m # ms') = header @ rest" "new_file_reader fs p = Inr (new_decoder (rest, EOF))" by blast
  then have "rest = concat (map packet_bytes ps)" using t(1) by simp
  with r(2) ps(2) decodes_packets [OF t(3) wf_new_decoder] show ?thesis
    by (simp add: new_decoder_def)
qed

lemma new_audit_log_writing:
  assumes "healthy k" and "stores (k_files k) L" and "new_audit_log n fp t picks k = r"
  shows "\<exists>a. r = Inr a \<and> writing a (time2Path fp t) (if L (time2Path fp t) = None then L(time2Path fp t \<mapsto> []) else L)
    \<and> queued a = [] \<and> \<not> al_closed a \<and> al_filePath a = fp \<and> al_sent a = [] \<and> al_recv a = 0"
proof -
  let ?a = "\<lparr>al_filePath = fp, al_sent = [], al_recv = 0, al_cap = n,
        al_closed = False, al_picks = picks, al_pool = [], al_file = None, al_gzip = None,
        al_latestFile = [], al_disk = k\<rparr>"
  have "healthy (al_disk ?a)" "stores (k_files (al_disk ?a)) L" using assms(1,2) by simp_all
  from create_file_stores [OF this, of "time2Path fp t" t] obtain a where
    c: "create_file t ?a = (None, a)"
      "writing a (time2Path fp t) (if L (time2Path fp t) = None then L(time2Path fp t \<mapsto> []) else L)"
    by auto
  from create_file_frame [OF c(1)] have "queued a = []" "\<not> al_closed a" "al_filePath a = fp"
    "al_sent a = []" "al_recv a = 0" by (simp_all add: queued_def)
  with c assms(3) show ?thesis by (intro exI [of _ a]) (simp add: new_audit_log_def)
qed

text \<open>A whole run: the worker of a new log, and what its files decode to.\<close>

lemma worker_run_files:
  assumes "healthy k" and "stores (k_files k) L" and "new_audit_log n fp t picks k = Inr a"
    and "orderly False es" and "w = filed fp es [] False (time2Path fp t)"
  shows "\<exists>r a'. log_write_worker es a = Returns (r, a') \<and> prefix (map snd w) (pushed es) \<and>
    (r = Some None \<longrightarrow> map snd w = pushed es) \<and>
    (r \<noteq> None \<longrightarrow> (\<forall>p. records_of L p @ filed_in p w \<noteq> [] \<longrightarrow>
      (\<exists>d. new_file_reader (k_files (al_disk a')) p = Inr d \<and> decodes d (records_of L p @ filed_in p w))))"
proof -
  let ?p = "time2Path fp t"
  from new_audit_log_writing [OF assms(1-3)] have
    wr: "writing a ?p (if L ?p = None then L(?p \<mapsto> []) else L)"
    and a: "queued a = []" "\<not> al_closed a" "al_filePath a = fp" "al_sent a = []" "al_recv a = 0" by auto
  from worker_result_tick [OF worker_files [OF wr, of es]] a assms(4)
  have "worker_result (log_write_worker es a) L w (pushed es)" by (simp add: assms(5))
  then obtain r a' L' where run: "log_write_worker es a = Returns (r, a')" "final_logs r a' L'"
    "\<forall>p. records_of L' p = records_of L p @ filed_in p w" "r = Some None \<longrightarrow> map snd w = pushed es"
    by (auto simp: worker_result_def)
  have "prefix (map snd w) (pushed es)"
    using filed_prefix [of fp es "[]" False ?p] by (simp add: assms(5))
  moreover have "\<exists>d. new_file_reader (k_files (al_disk a')) p = Inr d \<and> decodes d (records_of L p @ filed_in p w)"
    if "r \<noteq> None" "records_of L p @ filed_in p w \<noteq> []" for p
    using that run(2) new_file_reader_stores [of "k_files (al_disk a')" L' p] run(3)
    by (auto simp: final_logs_def)
  ultimately show ?thesis using run(1,4) by blast
qed

section \<open>Properties\<close>

text \<open>C4: the log holds what was sent to it.  On a disk that reports no error, for any order of
  sends, writes and rotations, the worker never panics; every file then decodes to the records it
  held before followed by those received while it was current, in order and unchanged, across
  rotations and restarts.  The filed records are a prefix of those sent, and all of them when the
  worker has ended because the channel was closed.\<close>

theorem log_holds_what_was_sent:
  assumes "healthy k" and "stores (k_files k) L" and "new_audit_log n fp t picks k = Inr a"
    and "orderly False es" and "w = filed fp es [] False (time2Path fp t)"
  shows "\<exists>r a'. log_write_worker es a = Returns (r, a') \<and> prefix (map snd w) (pushed es) \<and>
    (r = Some None \<longrightarrow> map snd w = pushed es) \<and>
    (r \<noteq> None \<longrightarrow> (\<forall>p. records_of L p @ filed_in p w \<noteq> [] \<longrightarrow>
      (\<exists>d. new_file_reader (k_files (al_disk a')) p = Inr d \<and> decodes d (records_of L p @ filed_in p w))))"
  using worker_run_files [OF assms] .

definition small_record :: "string \<Rightarrow> bytes \<Rightarrow> record_buffer" where
  "small_record u b = \<lparr>sp_Datetime = 7, sp_ConnectionID = 1, sp_User = u, sp_Db = [], sp_Addr = [],
     sp_State = ''est'', sp_Err = [], sp_Packets = \<lparr>gs_arr = b, gs_len = length b\<rparr>, sp_Cmd = []\<rparr>"

definition blank_disk :: disk where
  "blank_disk = \<lparr>k_files = Map.empty, k_open = [], k_room = None, k_flush = None, k_close = None\<rparr>"

definition example_turns :: "log_event list" where
  "example_turns = [Pushed (small_record ''u'' [1, 0, 0, 0, 14]), Pushed (small_record ''v'' [1, 0, 0, 0, 14]),
     Turn Receive, Turn (Tick (Civil 2024 3 4 6 0 0)), Closed, Turn Receive, Turn Receive]"

lemma stores_blank: "stores (k_files blank_disk) Map.empty"
  by (auto simp: stores_def rel_fun_def blank_disk_def)

lemma healthy_blank: "healthy blank_disk"
  by (simp add: healthy_def blank_disk_def)

lemma orderly_example: "orderly False example_turns"
  by (simp add: example_turns_def encodable_def packet_strings_def record_view_def small_record_def gs_bytes_def)

theorem log_holds_what_was_sent_witness:
  "\<exists>a r a'. new_audit_log 1000 ''a.%H'' (Civil 2024 3 4 5 59 0) [] blank_disk = Inr a \<and>
     log_write_worker example_turns a = Returns (r, a') \<and>
     prefix (map snd (filed ''a.%H'' example_turns [] False (time2Path ''a.%H'' (Civil 2024 3 4 5 59 0))))
       (pushed example_turns)"
proof -
  obtain a where "new_audit_log 1000 ''a.%H'' (Civil 2024 3 4 5 59 0) [] blank_disk = Inr a"
    using new_audit_log_writing [OF healthy_blank stores_blank refl] by blast
  from log_holds_what_was_sent [OF healthy_blank stores_blank this orderly_example refl] this
  show ?thesis by blast
qed


definition example_task :: send_task where
  "example_task = \<lparr>st_RemoteAddr = ''10.0.0.1:5000'', st_User = ''u1'', st_DB = ''db'',
     st_Addr = ''h:3306'', st_ConnID = 9\<rparr>"

definition example_log :: audit_log where
  "example_log = \<lparr>al_filePath = ''a'', al_sent = [], al_recv = 0, al_cap = 1000, al_closed = False,
     al_picks = [], al_pool = [], al_file = Some ''a'', al_gzip = Some (gz_new ''a''),
     al_latestFile = ''a'', al_disk = blank_disk\<lparr>k_files := [''a'' \<mapsto> []]\<rparr>\<rparr>"

lemma log_inv_example: "log_inv example_log"
  by (simp add: log_inv_def example_log_def queued_def)


lemma gz_write_sticky: "z_err z = Some e \<Longrightarrow> gz_write (z, k) b = ((z, k), 0, Some e)"
  by (simp add: gz_write_def)

lemma encode_packet_sticky:
  "z_err z = Some e \<Longrightarrow> encode_packet gz_write (z, k) p = ((z, k), Some e)"
  by (simp add: encode_packet_def binary_write_def and_then_def gz_write_sticky)

lemma close_file_sticky:
  "al_gzip a = Some z \<Longrightarrow> z_err z = Some e \<Longrightarrow> close_file a = (Some e, a)"
  by (simp add: close_file_def gz_close_def)

lemma write_worker_sticky:
  assumes "al_gzip a = Some z" and "z_err z = Some e" and "log_write_worker es a = Returns (r, a')"
  shows "k_files (al_disk a') = k_files (al_disk a) \<and> al_latestFile a' = al_latestFile a \<and>
    al_gzip a' = Some z"
  using assms
proof (induction es arbitrary: a)
  case Nil
  then show ?case by simp
next
  case (Cons ev es)
  note z = Cons.prems(1,2) and run = Cons.prems(3)
  show ?case
  proof (cases ev)
    case (Pushed sp)
    with run have r: "log_write_worker es (a\<lparr>al_sent := al_sent a @ [sp]\<rparr>) = Returns (r, a')"
      by (simp split: if_splits)
    from Cons.IH [OF _ z(2) r] z(1) show ?thesis by simp
  next
    case Closed
    with run have r: "log_write_worker es (a\<lparr>al_closed := True\<rparr>) = Returns (r, a')"
      by (simp add: close_channel_def split: if_splits)
    from Cons.IH [OF _ z(2) r] z(1) show ?thesis by simp
  next
    case (Turn t)
    note cl = close_file_sticky [OF z]
    consider (stop) "t = Done" | (wait) "t \<noteq> Done" "\<not> turn_ready t a"
      | (go) "t \<noteq> Done" "turn_ready t a" by blast
    then show ?thesis
    proof cases
      case stop
      with run Turn cl z show ?thesis by simp
    next
      case wait
      with run Turn have r: "log_write_worker es a = Returns (r, a')" by simp
      from Cons.IH [OF z r] show ?thesis .
    next
      case go
      have "\<exists>a1. receive_and_write t a = Returns (Some e, a1) \<and> al_gzip a1 = Some z \<and>
          k_files (al_disk a1) = k_files (al_disk a) \<and> al_latestFile a1 = al_latestFile a"
        using z go cl
        by (cases t; cases "queued a")
          (auto simp: receive_and_write_def write_data_to_file_def encode_packet_sticky put_send_packet_def)
      then obtain a1 where a1: "receive_and_write t a = Returns (Some e, a1)" "al_gzip a1 = Some z"
        "k_files (al_disk a1) = k_files (al_disk a)" "al_latestFile a1 = al_latestFile a" by blast
      show ?thesis
      proof (cases "e = EOF")
        case True
        with run Turn go a1 close_file_sticky [OF a1(2) z(2)] show ?thesis by simp
      next
        case False
        with run Turn go a1(1) have r: "log_write_worker es a1 = Returns (r, a')" by simp
        from Cons.IH [OF a1(2) z(2) r] a1 show ?thesis by simp
      qed
    qed
  qed
qed

text \<open>C29: one failed write ends the audit log.  Once the gzip writer has returned an error, the
  worker goes on, but whatever is sent to it and however often it should rotate, no file ever
  changes again and no new file is created: every record is dropped without a trace.\<close>

theorem write_error_is_final:
  assumes "al_gzip a = Some z" and "z_err z = Some e" and "log_write_worker es a = Returns (r, a')"
  shows "k_files (al_disk a') = k_files (al_disk a) \<and> al_latestFile a' = al_latestFile a"
  using write_worker_sticky [OF assms] by simp

definition full_disk_log :: audit_log where
  "full_disk_log = example_log\<lparr>al_gzip := Some \<lparr>z_file = ''a'', z_data = header,
     z_err = Some (Failure ''no space left on device'')\<rparr>\<rparr>"

theorem write_error_is_final_witness:
  "\<exists>r a'. log_write_worker [Pushed (small_record ''u'' []), Turn Receive, Turn (Tick (Civil 2024 3 4 6 0 0))]
      full_disk_log = Returns (r, a')
    \<and> k_files (al_disk a') = [''a'' \<mapsto> []] \<and> al_latestFile a' = ''a''"
proof -
  let ?es = "[Pushed (small_record ''u'' []), Turn Receive, Turn (Tick (Civil 2024 3 4 6 0 0))]"
  have gz: "al_gzip full_disk_log = Some \<lparr>z_file = ''a'', z_data = header,
     z_err = Some (Failure ''no space left on device'')\<rparr>" (is "_ = Some ?z")
    by (simp add: full_disk_log_def)
  have "\<exists>r a'. log_write_worker ?es full_disk_log = Returns (r, a')"
    by (simp add: full_disk_log_def example_log_def turn_ready_def receive_and_write_def queued_def
        write_data_to_file_def encode_packet_sticky put_send_packet_def close_file_def gz_close_def)
  then obtain r a' where run: "log_write_worker ?es full_disk_log = Returns (r, a')" by blast
  from write_error_is_final [OF gz _ run] run show ?thesis
    by (auto simp: full_disk_log_def example_log_def)
qed

text \<open>C30: a rotation that fails crashes the proxy.  When the new file cannot be opened for any
  reason but its existence, the worker ignores the error with no writer left, and the next record
  it receives is written through a nil pointer.\<close>

theorem failed_rotation_crashes:
  assumes "close_file a = (None, a1)" and "k_open (al_disk a1) = Some e # os" and "e \<noteq> OsExist" and "e \<noteq> EOF"
    and "queued a = sp # q"
  shows "log_write_worker (Turn (Tick t) # Turn Receive # es) a = Panics ''nil pointer dereference''"
proof -
  have g: "al_gzip a1 = None" "queued a1 = queued a"
    using assms(1) by (auto simp: close_file_def close_os_file_def split: option.splits prod.splits)
  obtain a2 where c: "create_file t a1 = (Some e, a2)" "al_gzip a2 = None" "queued a2 = sp # q"
    using assms(2,3,5) g
    by (auto simp: create_file_def open_file_def Let_def split: option.splits)
  then show ?thesis
    using assms(1,4)
    by (simp add: turn_ready_def receive_and_write_def write_data_to_file_def)
qed

theorem failed_rotation_crashes_witness:
  "log_write_worker [Turn (Tick (Civil 2024 3 4 6 0 0)), Turn Receive]
     (example_log\<lparr>al_sent := [small_record ''u'' []],
        al_disk := blank_disk\<lparr>k_files := [''a'' \<mapsto> []], k_open := [Some (Failure ''permission denied'')]\<rparr>\<rparr>)
   = Panics ''nil pointer dereference''"
  by (rule failed_rotation_crashes [where es = "[]" and e = "Failure ''permission denied''" and os = "[]"])
    (simp add: close_file_def gz_close_def close_os_file_def example_log_def blank_disk_def gz_new_def queued_def)+

end
