(* ===== verification/Decoder.thy ===== *)
theory Decoder
  imports AuditLog
begin

text \<open>
  The log decoder, cmd/mysql8-audit-log-decoder (main.go, commap.go): printing every record of a
  log file as a line of JSON, with the command of a MySQL packet made readable.  The command
  bytes are constants of the go-mysql package, so they are a parameter \<open>com\<close> from their names;
  the program does not compile unless they differ.  Marshalling a record is a parameter too.
\<close>

section \<open>Command names\<close>

definition com_names :: "string list" where
  "com_names = [''COM_SLEEP'', ''COM_QUIT'', ''COM_INIT_DB'', ''COM_QUERY'', ''COM_FIELD_LIST'',
     ''COM_CREATE_DB'', ''COM_DROP_DB'', ''COM_REFRESH'', ''COM_SHUTDOWN'', ''COM_STATISTICS'',
     ''COM_PROCESS_INFO'', ''COM_CONNECT'', ''COM_PROCESS_KILL'', ''COM_DEBUG'', ''COM_PING'',
     ''COM_TIME'', ''COM_DELAYED_INSERT'', ''COM_CHANGE_USER'', ''COM_BINLOG_DUMP'',
     ''COM_TABLE_DUMP'', ''COM_CONNECT_OUT'', ''COM_REGISTER_SLAVE'', ''COM_STMT_PREPARE'',
     ''COM_STMT_EXECUTE'', ''COM_STMT_SEND_LONG_DATA'', ''COM_STMT_CLOSE'', ''COM_STMT_RESET'',
     ''COM_SET_OPTION'', ''COM_STMT_FETCH'', ''COM_DAEMON'', ''COM_BINLOG_DUMP_GTID'',
     ''COM_RESET_CONNECTION'']"

definition COMMap :: "(string \<Rightarrow> byte) \<Rightarrow> byte \<rightharpoonup> string" where
  "COMMap com = map_of (map (\<lambda>n. (com n, n)) com_names)"

definition GetComName :: "(string \<Rightarrow> byte) \<Rightarrow> byte \<Rightarrow> string" where
  "GetComName com c = (case COMMap com c of Some s \<Rightarrow> s | None \<Rightarrow> ''UNKNOWN:'' @ hex (unat c))"

section \<open>Formatting a record\<close>

record packet =
  p_Datetime :: "64 word"
  p_ConnectionID :: "32 word"
  p_User :: string
  p_Db :: string
  p_Addr :: string
  p_State :: string
  p_Err :: string
  p_Packets :: bytes
  p_Cmd :: string

definition trim :: "bytes \<Rightarrow> go_error + bytes" where
  "trim dst = (if length dst < 4 then Inl (Errorf ''dst too small %v'' []) else Inr (drop 4 dst))"

text \<open>\<open>bytes.IndexByte\<close>, \<open>None\<close> for minus one.\<close>

fun index_byte :: "bytes \<Rightarrow> byte \<Rightarrow> nat option" where
  "index_byte [] c = None"
| "index_byte (b # bs) c = (if b = c then Some 0 else map_option Suc (index_byte bs c))"

definition field_list :: "bytes \<Rightarrow> string outcome" where
  "field_list data = (case index_byte data 0 of
       None \<Rightarrow> Panics ''slice bounds out of range''
     | Some i \<Rightarrow>
         let table = string_of_bytes (take i data); wildcard = string_of_bytes (drop (i + 1) data) in
         Returns (''fieldList '' @ table @ (if wildcard \<noteq> [] then '' '' @ wildcard else [])))"

text \<open>The cases that name the command and keep the packet, in the order of the switch.\<close>

definition kept_commands :: "(string \<times> string) list" where
  "kept_commands =
     [(''COM_STMT_PREPARE'', ''stmt_prepare''), (''COM_STMT_EXECUTE'', ''stmt_execute''),
      (''COM_STMT_CLOSE'', ''stmt_close''), (''COM_STMT_SEND_LONG_DATA'', ''stmt_send_long_data''),
      (''COM_STMT_RESET'', ''stmt_reset''), (''COM_SET_OPTION'', ''set_option''),
      (''COM_REGISTER_SLAVE'', ''register_slave''), (''COM_BINLOG_DUMP'', ''binlog_dump''),
      (''COM_BINLOG_DUMP_GTID'', ''binlog_dump'')]"

definition format_command :: "(string \<Rightarrow> byte) \<Rightarrow> bytes \<Rightarrow> byte \<Rightarrow> bytes \<Rightarrow> packet \<Rightarrow> packet outcome" where
  "format_command com pkts cmd data res =
     (if cmd = com ''COM_QUIT'' then Returns (res\<lparr>p_Cmd := ''quit'', p_Packets := []\<rparr>)
      else if cmd = com ''COM_QUERY'' then Returns (res\<lparr>p_Cmd := string_of_bytes data, p_Packets := []\<rparr>)
      else if cmd = com ''COM_PING'' then Returns (res\<lparr>p_Cmd := ''ping'', p_Packets := []\<rparr>)
      else if cmd = com ''COM_INIT_DB'' then
        Returns (res\<lparr>p_Cmd := ''use '' @ string_of_bytes data, p_Packets := []\<rparr>)
      else if cmd = com ''COM_FIELD_LIST'' then
        bind_outcome (field_list data) (\<lambda>s. Returns (res\<lparr>p_Cmd := s, p_Packets := []\<rparr>))
      else (case find (\<lambda>(n, s). cmd = com n) kept_commands of
          Some (n, s) \<Rightarrow> Returns (res\<lparr>p_Cmd := s, p_Packets := pkts\<rparr>)
        | None \<Rightarrow> Returns (res\<lparr>p_Cmd := GetComName com cmd, p_Packets := pkts\<rparr>)))"

definition format_packet :: "(string \<Rightarrow> byte) \<Rightarrow> bytes send_packet \<Rightarrow> packet outcome" where
  "format_packet com sp =
     (let res = \<lparr>p_Datetime = sp_Datetime sp, p_ConnectionID = sp_ConnectionID sp, p_User = sp_User sp,
            p_Db = sp_Db sp, p_Addr = sp_Addr sp, p_State = sp_State sp, p_Err = sp_Err sp,
            p_Packets = [], p_Cmd = []\<rparr> in
      case trim (sp_Packets sp) of
        Inl e \<Rightarrow> Returns (res\<lparr>p_Packets := sp_Packets sp\<rparr>)
      | Inr [] \<Rightarrow> Returns (res\<lparr>p_Packets := sp_Packets sp\<rparr>)
      | Inr (cmd # data) \<Rightarrow> format_command com (sp_Packets sp) cmd data res)"

section \<open>Printing a file\<close>

definition fmt_json :: "(packet \<Rightarrow> go_error + bytes) \<Rightarrow> packet \<Rightarrow> bytes" where
  "fmt_json marshal v = (case marshal v of Inl e \<Rightarrow> [] | Inr b \<Rightarrow> b @ [10])"

lemma read_full_length:
  "read_full s n = (b, e, s') \<Longrightarrow> length (fst s') \<le> length (fst s) \<and> (e = None \<longrightarrow> length (fst s') + n = length (fst s))"
  by (cases s) (auto simp: read_full.simps split: if_splits)

lemma read_uint32_length:
  "read_uint32 s = (r, s') \<Longrightarrow> length (fst s') \<le> length (fst s)"
  by (auto simp: read_uint32_def dest: read_full_length split: prod.splits option.splits)

lemma read_int64_length:
  "read_int64 s = (r, s') \<Longrightarrow> length (fst s') \<le> length (fst s) \<and> (\<forall>v. r = Inr v \<longrightarrow> length (fst s') < length (fst s))"
  by (fastforce simp: read_int64_def dest: read_full_length split: prod.splits option.splits)

lemma read_bytes_length:
  "read_bytes d = (r, d') \<Longrightarrow> length (fst (d_r d')) \<le> length (fst (d_r d))"
proof -
  assume run: "read_bytes d = (r, d')"
  obtain x s where u: "read_uint32 (d_r d) = (x, s)" by (metis prod.collapse)
  obtain b e s2 where f: "read_full s (sl_len (d_buf (resize_buf (d\<lparr>d_r := s\<rparr>) (projr x)))) = (b, e, s2)"
    by (metis prod_cases3)
  from run u f read_uint32_length [OF u] read_full_length [OF f] show ?thesis
    by (cases x) (auto simp: read_bytes_def Let_def split: option.splits)
qed

text \<open>The bytes left to the decoder after a stage of \<open>DecodePacket\<close>.\<close>

definition left_of :: "slice decode_state \<Rightarrow> nat" where
  "left_of st = length (fst (d_r (fst st)))"

lemma left_decode_string: "left_of (decode_string f st) \<le> left_of st"
  by (cases st) (auto simp: left_of_def decode_string_def dest: read_bytes_length
      split: option.splits prod.splits sum.splits)

lemma left_decode_packets: "left_of (decode_packets st) \<le> left_of st"
  by (cases st) (auto simp: left_of_def decode_packets_def dest: read_bytes_length
      split: option.splits prod.splits sum.splits)

lemma decode_string_None: "snd (snd (decode_string f st)) = None \<Longrightarrow> snd (snd st) = None"
  by (cases st) (auto simp: decode_string_def split: option.splits prod.splits sum.splits)

lemma decode_packets_None: "snd (snd (decode_packets st)) = None \<Longrightarrow> snd (snd st) = None"
  by (cases st) (auto simp: decode_packets_def split: option.splits prod.splits sum.splits)

lemma left_decode_header:
  "snd (snd (decode_header d q)) = None \<Longrightarrow> left_of (decode_header d q) < length (fst (d_r d))"
  by (auto simp: left_of_def decode_header_def dest!: read_int64_length read_uint32_length
      split: prod.splits sum.splits)

lemma decode_packet_shorter:
  assumes "decode_packet d q = (d', q', None)"
  shows "length (fst (d_r d')) < length (fst (d_r d))"
proof -
  let ?h = "decode_header d q"
  have n: "snd (snd ?h) = None"
    using assms unfolding decode_packet_def
    by (metis decode_packets_None decode_string_None snd_conv)
  have "left_of (decode_packet d q) \<le> left_of ?h"
    unfolding decode_packet_def by (meson left_decode_packets left_decode_string order_trans)
  with left_decode_header [OF n] assms show ?thesis by (simp add: left_of_def)
qed

text \<open>
  The loop of \<open>filePrint\<close>: what it has printed, and how it ends; \<open>bp\<close> is the record it reuses.
\<close>

function print_loop ::
  "(string \<Rightarrow> byte) \<Rightarrow> (packet \<Rightarrow> go_error + bytes) \<Rightarrow> decoder \<Rightarrow> slice send_packet \<Rightarrow> bytes \<Rightarrow>
   bytes \<times> go_error option outcome" where
  "print_loop com marshal d bp out = (case decode_packet d bp of
       (d1, bp1, Some e) \<Rightarrow> (out, Returns (if e = EOF then None else Some e))
     | (d1, bp1, None) \<Rightarrow> (case format_packet com (view (d_heap d1) bp1) of
           Panics m \<Rightarrow> (out, Panics m)
         | Returns p \<Rightarrow> print_loop com marshal d1 bp1 (out @ fmt_json marshal p)))"
  by pat_completeness auto
termination
  by (relation "measure (\<lambda>(com, marshal, d, bp, out). length (fst (d_r d)))")
    (auto dest!: decode_packet_shorter [OF sym])

declare print_loop.simps [simp del]

definition file_print ::
  "(string \<Rightarrow> byte) \<Rightarrow> (packet \<Rightarrow> go_error + bytes) \<Rightarrow> files \<Rightarrow> string \<Rightarrow> bytes \<times> go_error option outcome" where
  "file_print com marshal fs filename = (case new_file_reader fs filename of
       Inl e \<Rightarrow> ([], Returns (Some e))
     | Inr d \<Rightarrow> print_loop com marshal d blank_packet [])"

text \<open>\<open>main\<close>: the files of the command line, an error is reported and the next file follows.\<close>

fun decoder_main ::
  "(string \<Rightarrow> byte) \<Rightarrow> (packet \<Rightarrow> go_error + bytes) \<Rightarrow> files \<Rightarrow> string list \<Rightarrow> bytes \<times> (string \<times> go_error) list outcome" where
  "decoder_main com marshal fs [] = ([], Returns [])"
| "decoder_main com marshal fs (arg # args) = (case file_print com marshal fs arg of
       (out, Panics m) \<Rightarrow> (out, Panics m)
     | (out, Returns e) \<Rightarrow> (case decoder_main com marshal fs args of (out2, r) \<Rightarrow>
         (out @ out2, bind_outcome r (\<lambda>es. Returns ((case e of None \<Rightarrow> [] | Some x \<Rightarrow> [(arg, x)]) @ es)))))"

section \<open>What is printed\<close>

lemma print_loop_decodes:
  assumes "decodes d rs" and "list_all2 (\<lambda>r p. format_packet com r = Returns p) rs ps"
  shows "print_loop com marshal d bp out =
    (out @ concat (map (fmt_json marshal) ps), Returns None)"
  using assms
proof (induction rs arbitrary: d bp out ps)
  case Nil
  then have "ps = []" by simp
  obtain d' q' where "decode_packet d bp = (d', q', Some EOF)"
    using Nil.prems(1) unfolding decodes.simps by blast
  with \<open>ps = []\<close> show ?case by (simp add: print_loop.simps [of _ _ d])
next
  case (Cons r rs)
  then obtain p ps' where ps: "ps = p # ps'" "format_packet com r = Returns p"
    "list_all2 (\<lambda>r p. format_packet com r = Returns p) rs ps'" by (auto simp: list_all2_Cons1)
  obtain d' q' where d: "decode_packet d bp = (d', q', None)"
    "view (d_heap d') q' = r" "decodes d' rs"
    using Cons.prems(1) unfolding decodes.simps by blast
  from Cons.IH [OF d(3) ps(3), of q'] d(1,2) ps(1,2) show ?case
    by (simp add: print_loop.simps [of _ _ d])
qed

lemma index_byte_None: "index_byte bs c = None \<longleftrightarrow> c \<notin> set bs"
  by (induction bs) auto

lemma index_byte_split:
  "index_byte bs c = Some i \<Longrightarrow> bs = take i bs @ c # drop (Suc i) bs \<and> c \<notin> set (take i bs)"
proof (induction bs arbitrary: i)
  case (Cons b bs)
  then show ?case by (auto split: if_splits)
qed simp

lemma distinct_com_names: "distinct com_names"
  by code_simp

lemma COMMap_name:
  assumes "inj_on com (set com_names)" and "n \<in> set com_names"
  shows "COMMap com (com n) = Some n"
proof -
  have "map fst (map (\<lambda>n. (com n, n)) com_names) = map com com_names" by (simp add: comp_def)
  then have "distinct (map fst (map (\<lambda>n. (com n, n)) com_names))"
    using assms(1) distinct_com_names by (simp only: distinct_map)
  then show ?thesis unfolding COMMap_def using assms(2) by (intro map_of_is_SomeI) auto
qed

text \<open>The numbers of the MySQL protocol.\<close>

fun index_of :: "string \<Rightarrow> string list \<Rightarrow> nat option" where
  "index_of n [] = None"
| "index_of n (m # ms) = (if n = m then Some 0 else map_option Suc (index_of n ms))"

definition mysql_com :: "string \<Rightarrow> byte" where
  "mysql_com n = (case index_of n com_names of Some i \<Rightarrow> word_of_nat i | None \<Rightarrow> 255)"

lemma mysql_com_distinct: "distinct (map mysql_com com_names)"
  by code_simp

lemma inj_mysql_com: "inj_on mysql_com (set com_names)"
  using mysql_com_distinct by (simp add: distinct_map)

lemma com_distinct:
  assumes "inj_on com (set com_names)"
  shows "distinct (map com [''COM_QUIT'', ''COM_QUERY'', ''COM_PING'', ''COM_INIT_DB'', ''COM_FIELD_LIST''])"
proof -
  have "set [''COM_QUIT'', ''COM_QUERY'', ''COM_PING'', ''COM_INIT_DB'', ''COM_FIELD_LIST''] \<subseteq> set com_names"
    by code_simp
  from inj_on_subset [OF assms this] show ?thesis
    by (intro iffD2 [OF distinct_map] conjI) (simp, assumption)
qed

lemma format_command_cases:
  obtains (quit) "cmd = com ''COM_QUIT''" "\<And>pk. format_command com pk cmd data res = Returns (res\<lparr>p_Cmd := ''quit'', p_Packets := []\<rparr>)"
  | (query) "cmd = com ''COM_QUERY''" "\<And>pk. format_command com pk cmd data res = Returns (res\<lparr>p_Cmd := string_of_bytes data, p_Packets := []\<rparr>)"
  | (ping) "cmd = com ''COM_PING''" "\<And>pk. format_command com pk cmd data res = Returns (res\<lparr>p_Cmd := ''ping'', p_Packets := []\<rparr>)"
  | (init) "cmd = com ''COM_INIT_DB''" "\<And>pk. format_command com pk cmd data res =
      Returns (res\<lparr>p_Cmd := ''use '' @ string_of_bytes data, p_Packets := []\<rparr>)"
  | (fields) "cmd = com ''COM_FIELD_LIST''" "\<And>pk. format_command com pk cmd data res =
      bind_outcome (field_list data) (\<lambda>s. Returns (res\<lparr>p_Cmd := s, p_Packets := []\<rparr>))"
  | (kept) c where "cmd \<notin> com ` {''COM_QUIT'', ''COM_QUERY'', ''COM_PING'', ''COM_INIT_DB'', ''COM_FIELD_LIST''}"
      "\<And>pk. format_command com pk cmd data res = Returns (res\<lparr>p_Cmd := c, p_Packets := pk\<rparr>)"
proof -
  consider "cmd = com ''COM_QUIT''" | "cmd \<noteq> com ''COM_QUIT''" "cmd = com ''COM_QUERY''"
    | "cmd \<noteq> com ''COM_QUIT''" "cmd \<noteq> com ''COM_QUERY''" "cmd = com ''COM_PING''"
    | "cmd \<noteq> com ''COM_QUIT''" "cmd \<noteq> com ''COM_QUERY''" "cmd \<noteq> com ''COM_PING''" "cmd = com ''COM_INIT_DB''"
    | "cmd \<noteq> com ''COM_QUIT''" "cmd \<noteq> com ''COM_QUERY''" "cmd \<noteq> com ''COM_PING''" "cmd \<noteq> com ''COM_INIT_DB''"
      "cmd = com ''COM_FIELD_LIST''"
    | "cmd \<noteq> com ''COM_QUIT''" "cmd \<noteq> com ''COM_QUERY''" "cmd \<noteq> com ''COM_PING''" "cmd \<noteq> com ''COM_INIT_DB''"
      "cmd \<noteq> com ''COM_FIELD_LIST''" by metis
  then show ?thesis
  proof cases
    case 1
    then show ?thesis by (intro quit) (simp_all only: format_command_def simp_thms if_True)
  next
    case 2
    then show ?thesis by (intro query) (simp_all only: format_command_def simp_thms if_True if_False)
  next
    case 3
    then show ?thesis by (intro ping) (simp_all only: format_command_def simp_thms if_True if_False)
  next
    case 4
    then show ?thesis by (intro init) (simp_all only: format_command_def simp_thms if_True if_False)
  next
    case 5
    then show ?thesis by (intro fields) (simp_all only: format_command_def simp_thms if_True if_False)
  next
    case 6
    show ?thesis
    proof (cases "find (\<lambda>(n, s). cmd = com n) kept_commands")
      case None
      from 6 show ?thesis
        by (intro kept) (simp_all only: format_command_def if_False None option.case, simp)
    next
      case (Some ns)
      obtain n s where "ns = (n, s)" by (cases ns)
      with 6 Some show ?thesis
        by (intro kept [of s]) (simp_all only: format_command_def if_False option.case prod.case, simp)
    qed
  qed
qed

section \<open>Properties\<close>

text \<open>C15: the printed log is the log.  If a file decodes to the records \<open>rs\<close> and each of them can be
  formatted, \<open>filePrint\<close> prints exactly their JSON lines, one per record, in their order, and
  reports success; with the property of the log writer this covers every file it has written.\<close>

theorem file_print_prints_the_log:
  assumes "new_file_reader fs p = Inr d" and "decodes d rs"
    and "list_all2 (\<lambda>r q. format_packet com r = Returns q) rs ps"
  shows "file_print com marshal fs p = (concat (map (fmt_json marshal) ps), Returns None)"
  using assms(1) print_loop_decodes [OF assms(2,3)] by (simp add: file_print_def)

definition printed_example :: packet where
  "printed_example = \<lparr>p_Datetime = 1234, p_ConnectionID = 1, p_User = ''u1'', p_Db = [], p_Addr = ''h:3306'',
     p_State = ''est'', p_Err = [], p_Packets = [], p_Cmd = ''ping''\<rparr>"

lemma format_example: "format_packet mysql_com example_packet = Returns printed_example"
  by code_simp

theorem file_print_prints_the_log_witness:
  "file_print mysql_com (\<lambda>p. Inr (bytes_of_string (p_Cmd p))) [''a'' \<mapsto> [header @ packet_bytes example_packet]] ''a''
     = ([112, 105, 110, 103, 10], Returns None)"
proof -
  let ?fs = "[''a'' \<mapsto> [header @ packet_bytes example_packet]]" and ?L = "[''a'' \<mapsto> [example_packet]]"
  have "stores ?fs ?L"
    by (auto simp: stores_def rel_fun_def log_file_def log_text_def encodable_example)
  moreover have "records_of ?L ''a'' = [example_packet]" by (simp add: records_of_def)
  ultimately obtain d where d: "new_file_reader ?fs ''a'' = Inr d" "decodes d [example_packet]"
    using new_file_reader_stores [of ?fs ?L "''a''"] by auto
  have "list_all2 (\<lambda>r q. format_packet mysql_com r = Returns q) [example_packet] [printed_example]"
    by (simp add: format_example)
  from file_print_prints_the_log [OF d this] show ?thesis
    by (simp add: fmt_json_def printed_example_def bytes_of_string_def byte_of_char_def)
qed

text \<open>C35: when the decoder crashes.  Formatting a record panics exactly when its packet is a field
  list command without a zero byte after the table name; every other record, of any length and
  with any command byte, is formatted.\<close>

theorem format_packet_panics_iff:
  assumes "inj_on com (set com_names)"
  shows "(\<exists>m. format_packet com sp = Panics m) \<longleftrightarrow>
    4 < length (sp_Packets sp) \<and> sp_Packets sp ! 4 = com ''COM_FIELD_LIST'' \<and> 0 \<notin> set (drop 5 (sp_Packets sp))"
proof (cases "drop 4 (sp_Packets sp)")
  case Nil
  then show ?thesis by (auto simp: format_packet_def trim_def Let_def)
next
  case (Cons cmd data)
  then have l: "4 < length (sp_Packets sp)" by (metis drop_eq_Nil list.distinct(1) not_less)
  have h: "sp_Packets sp ! 4 = cmd" "drop 5 (sp_Packets sp) = data"
    using Cons l by (metis hd_drop_conv_nth list.sel(1), simp add: Cons_nth_drop_Suc [symmetric])
  have "com ''COM_QUIT'' \<noteq> com ''COM_FIELD_LIST''" "com ''COM_QUERY'' \<noteq> com ''COM_FIELD_LIST''"
    "com ''COM_PING'' \<noteq> com ''COM_FIELD_LIST''" "com ''COM_INIT_DB'' \<noteq> com ''COM_FIELD_LIST''"
    using com_distinct [OF assms] by simp_all
  then have "(\<exists>m. format_command com pk cmd data res = Panics m)
      \<longleftrightarrow> cmd = com ''COM_FIELD_LIST'' \<and> index_byte data 0 = None" for pk res
    by (cases rule: format_command_cases [of cmd com data res])
      (auto simp: field_list_def Let_def split: option.splits)
  then show ?thesis using Cons l h by (simp add: format_packet_def trim_def Let_def index_byte_None)
qed

theorem format_packet_panics_iff_witness:
  "\<exists>m. format_packet mysql_com (example_packet\<lparr>sp_Packets := [3, 0, 0, 0, 4, 116, 49]\<rparr>) = Panics m"
  by (subst format_packet_panics_iff [OF inj_mysql_com]) (simp, code_simp)



text \<open>Continuation packets are taken for commands.  A command of 16777215 bytes or more comes in
  several MySQL packets, which differ only in the header's sequence number; the decoder never
  looks at the header, so the later ones are shown as if their first byte were a command.\<close>

lemma format_packet_ignores_sequence:
  assumes "length hdr = 4" and "length hdr' = 4" and "data \<noteq> []"
    and "format_packet com (sp\<lparr>sp_Packets := hdr @ data\<rparr>) = Returns p"
  shows "\<exists>p'. format_packet com (sp\<lparr>sp_Packets := hdr' @ data\<rparr>) = Returns p' \<and> p_Cmd p' = p_Cmd p"
proof -
  obtain c ds where d: "data = c # ds" using assms(3) by (cases data) auto
  show ?thesis
    using assms d
    by (cases rule: format_command_cases [of c com ds "\<lparr>p_Datetime = sp_Datetime sp, p_ConnectionID = sp_ConnectionID sp,
            p_User = sp_User sp, p_Db = sp_Db sp, p_Addr = sp_Addr sp, p_State = sp_State sp, p_Err = sp_Err sp,
            p_Packets = [], p_Cmd = []\<rparr>"])
      (auto simp: format_packet_def trim_def Let_def)
qed

text \<open>Command bytes and names.  \<open>GetComName\<close> gives back the name of every constant of the table,
  and a byte that is none of them is shown as unknown, in hexadecimal.\<close>

lemma GetComName_inverts:
  assumes "inj_on com (set com_names)"
  shows "(n \<in> set com_names \<longrightarrow> GetComName com (com n) = n) \<and>
    (c \<notin> com ` set com_names \<longrightarrow> GetComName com c = ''UNKNOWN:'' @ hex (unat c))"
proof -
  have "COMMap com c = None" if "c \<notin> com ` set com_names"
    using that by (auto simp: COMMap_def map_of_eq_None_iff)
  then show ?thesis using COMMap_name [OF assms] by (simp add: GetComName_def)
qed

end
