(* ===== verification/ClientSess.thy ===== *)
theory ClientSess
  imports AuditLog
begin

text \<open>
  One client session, pkg/mysqlproxy/clntsess.go: the text of a capability set, the connection to
  the target server with the capabilities it announces, the two directions of the relay, and the
  debugging wrappers that dump what is written.  The constants of the MySQL protocol and the
  client library that connects are parameters; \<open>DumpResult\<close>, which only logs a result of that
  library, is left out.
\<close>

section \<open>PrintCapability\<close>

text \<open>The names of the switch, in its order; \<open>fl\<close> gives the constants their values.\<close>

definition cap_names :: "string list" where
  "cap_names = [''CLIENT_LONG_PASSWORD'', ''CLIENT_FOUND_ROWS'', ''CLIENT_LONG_FLAG'',
     ''CLIENT_CONNECT_WITH_DB'', ''CLIENT_NO_SCHEMA'', ''CLIENT_COMPRESS'', ''CLIENT_ODBC'',
     ''CLIENT_LOCAL_FILES'', ''CLIENT_IGNORE_SPACE'', ''CLIENT_PROTOCOL_41'', ''CLIENT_INTERACTIVE'',
     ''CLIENT_SSL'', ''CLIENT_IGNORE_SIGPIPE'', ''CLIENT_TRANSACTIONS'', ''CLIENT_RESERVED'',
     ''CLIENT_SECURE_CONNECTION'', ''CLIENT_MULTI_STATEMENTS'', ''CLIENT_MULTI_RESULTS'',
     ''CLIENT_PS_MULTI_RESULTS'', ''CLIENT_PLUGIN_AUTH'', ''CLIENT_CONNECT_ATTRS'',
     ''CLIENT_PLUGIN_AUTH_LENENC_CLIENT_DATA'', ''CLIENT_CAN_HANDLE_EXPIRED_PASSWORDS'',
     ''CLIENT_SESSION_TRACK'', ''CLIENT_DEPRECATE_EOF'', ''CLIENT_OPTIONAL_RESULTSET_METADATA'',
     ''CLIENT_ZSTD_COMPRESSION_ALGORITHM'', ''CLIENT_QUERY_ATTRIBUTES'', ''MULTI_FACTOR_AUTHENTICATION'',
     ''CLIENT_CAPABILITY_EXTENSION'', ''CLIENT_SSL_VERIFY_SERVER_CERT'', ''CLIENT_REMEMBER_OPTIONS'']"

definition cap_name :: "(string \<Rightarrow> 32 word) \<Rightarrow> 32 word \<Rightarrow> string" where
  "cap_name fl field = (case find (\<lambda>n. fl n = field) cap_names of
       Some n \<Rightarrow> n | None \<Rightarrow> ''('' @ dec (unat field) @ '')'')"

text \<open>A round of the loop takes the lowest bit of the word.\<close>

definition lowest_field :: "32 word \<Rightarrow> 32 word" where
  "lowest_field c = push_bit (trailing_zeros c) 1"

definition bits_of :: "32 word \<Rightarrow> nat list" where
  "bits_of c = filter (bit c) [0..<32]"

lemma lowest_cleared:
  assumes "c \<noteq> 0"
  shows "bit (c XOR lowest_field c) i \<longleftrightarrow> bit c i \<and> i \<noteq> trailing_zeros c"
  using trailing_zeros [OF assms]
  by (auto simp: lowest_field_def bit_xor_iff bit_exp_iff possible_bit_word)

lemma bits_of_cleared:
  assumes "c \<noteq> 0"
  shows "bits_of c = trailing_zeros c # bits_of (c XOR lowest_field c)"
proof -
  let ?t = "trailing_zeros c"
  have t: "?t < 32" "bit c ?t" "\<forall>j < ?t. \<not> bit c j" using trailing_zeros [OF assms] by auto
  have "[0..<?t + (32 - ?t)] = [0..<?t] @ [?t..<?t + (32 - ?t)]" by (rule upt_add_eq_append) simp
  then have u: "[0..<32] = [0..<?t] @ ?t # [Suc ?t..<32]"
    using t(1) upt_conv_Cons [OF t(1)] by (simp del: upt_rec_numeral)
  have "filter (bit (c XOR lowest_field c)) [Suc ?t..<32] = filter (bit c) [Suc ?t..<32]"
    by (rule filter_cong) (auto simp: lowest_cleared [OF assms])
  moreover have "filter (bit c) [0..<?t] = []" "filter (bit (c XOR lowest_field c)) [0..<?t] = []"
    using t(3) by (auto simp: filter_empty_conv lowest_cleared [OF assms])
  ultimately show ?thesis
    using t(2) by (simp add: bits_of_def u lowest_cleared [OF assms] del: upt_rec_numeral)
qed

lemma bits_of_0 [simp]: "bits_of 0 = []"
  by (simp add: bits_of_def filter_empty_conv)

function cap_loop :: "(string \<Rightarrow> 32 word) \<Rightarrow> 32 word \<Rightarrow> string list" where
  "cap_loop fl c = (if c = 0 then []
     else let field = lowest_field c in cap_name fl field # cap_loop fl (c XOR field))"
  by pat_completeness auto
termination
  by (relation "measure (\<lambda>(fl, c). length (bits_of c))") (auto simp: bits_of_cleared)

declare cap_loop.simps [simp del]

definition capability_string :: "(string \<Rightarrow> 32 word) \<Rightarrow> 32 word \<Rightarrow> string" where
  "capability_string fl c = join ''|'' (cap_loop fl c)"

lemma cap_loop_bits: "cap_loop fl c = map (\<lambda>i. cap_name fl (push_bit i 1)) (bits_of c)"
proof (induction fl c rule: cap_loop.induct)
  case (1 fl c)
  then show ?case
    by (cases "c = 0")
      (simp_all add: cap_loop.simps [of fl 0] cap_loop.simps [of fl c] bits_of_cleared [of c] lowest_field_def Let_def)
qed

lemma cap_names_plain: "\<forall>n \<in> set cap_names. CHR ''|'' \<notin> set n \<and> CHR ''('' \<notin> set n \<and> n \<noteq> []"
  by (simp add: cap_names_def)

lemma dec_plain: "c \<in> set (dec n) \<Longrightarrow> c \<noteq> CHR ''|''"
  using digits_dec [of n] by (auto simp: digits_def)

lemma cap_name_cases:
  obtains n where "n \<in> set cap_names" "fl n = f" "cap_name fl f = n"
    | "f \<notin> fl ` set cap_names" "cap_name fl f = ''('' @ dec (unat f) @ '')''"
proof (cases "find (\<lambda>n. fl n = f) cap_names")
  case None
  then have "f \<notin> fl ` set cap_names" by (auto simp: find_None_iff)
  with None that(2) show ?thesis by (simp add: cap_name_def)
next
  case (Some n)
  then have "n \<in> set cap_names" "fl n = f" by (auto simp: find_Some_iff)
  with Some that(1) show ?thesis by (simp add: cap_name_def)
qed

lemma cap_name_plain: "CHR ''|'' \<notin> set (cap_name fl f) \<and> cap_name fl f \<noteq> []"
  by (rule cap_name_cases [of fl f]) (use cap_names_plain dec_plain [of _ "unat f"] in \<open>auto\<close>)

lemma cap_name_inj: "cap_name fl f = cap_name fl g \<Longrightarrow> f = g"
proof -
  assume eq: "cap_name fl f = cap_name fl g"
  show "f = g"
  proof (cases rule: cap_name_cases [of fl f])
    case f: (1 n)
    show ?thesis
    proof (cases rule: cap_name_cases [of fl g])
      case (1 m)
      with f eq show ?thesis by simp
    next
      case 2
      with f eq have "CHR ''('' \<in> set n" by (metis append_Cons list.set_intros(1))
      with f(1) cap_names_plain show ?thesis by blast
    qed
  next
    case f: 2
    show ?thesis
    proof (cases rule: cap_name_cases [of fl g])
      case (1 m)
      with f eq have "CHR ''('' \<in> set m" by (metis append_Cons list.set_intros(1))
      with 1(1) cap_names_plain show ?thesis by blast
    next
      case 2
      with f eq have "dec (unat f) = dec (unat g)" by simp
      from dec_inj [OF this] show ?thesis by (simp add: word_unat_eq_iff)
    qed
  qed
qed

lemma split_capability: "split (CHR ''|'') (capability_string fl c) = (if c = 0 then [[]] else cap_loop fl c)"
proof (cases "c = 0")
  case True
  then show ?thesis by (simp add: capability_string_def cap_loop.simps [of fl 0])
next
  case False
  then have "cap_loop fl c \<noteq> []" by (simp add: cap_loop.simps [of fl c] Let_def)
  moreover have "\<forall>x \<in> set (cap_loop fl c). CHR ''|'' \<notin> set x"
    using cap_name_plain by (auto simp: cap_loop_bits)
  ultimately show ?thesis using False by (simp add: capability_string_def split_join)
qed

lemma bits_of_inj: "bits_of c = bits_of d \<Longrightarrow> c = d"
proof (rule bit_eqI)
  fix n
  assume eq: "bits_of c = bits_of d" and n: "possible_bit TYPE(32 word) n"
  then have "n < 32" by (simp add: possible_bit_word)
  moreover have "n \<in> set (bits_of c) \<longleftrightarrow> n \<in> set (bits_of d)" using eq by simp
  ultimately show "bit c n = bit d n" by (simp add: bits_of_def del: upt_rec_numeral)
qed

lemma bits_of_subset: "set (bits_of c) \<subseteq> {0..<32}"
  by (auto simp: bits_of_def simp del: upt_rec_numeral)

lemma cap_fields_inj: "inj_on (\<lambda>i. cap_name fl (push_bit i 1)) {0..<32}"
proof (rule inj_onI)
  fix i j :: nat
  assume ij: "i \<in> {0..<32}" "j \<in> {0..<32}" and "cap_name fl (push_bit i 1) = cap_name fl (push_bit j 1)"
  then have eq: "push_bit i 1 = (push_bit j 1 :: 32 word)" by (intro cap_name_inj)
  have "bit (push_bit j 1 :: 32 word) i"
    using ij unfolding eq [symmetric] by (simp add: bit_exp_iff possible_bit_word)
  then show "i = j" by (simp add: bit_exp_iff)
qed

text \<open>The printed capabilities are the capabilities.  The loop of \<open>PrintCapability\<close> ends for every
  word and lists every set bit once, the lowest first, by its name or, when no constant has that
  value, in decimal; different words never print the same text, whatever values the constants
  have.\<close>

lemma capability_string_is_exact:
  "cap_loop fl c = map (\<lambda>i. cap_name fl (push_bit i 1)) (filter (bit c) [0..<32]) \<and>
   (capability_string fl c = capability_string fl d \<longleftrightarrow> c = d)"
proof -
  have "c = d" if "capability_string fl c = capability_string fl d"
  proof -
    have "(if c = 0 then [[]] else cap_loop fl c) = (if d = 0 then [[]] else cap_loop fl d)"
      using split_capability [of fl c] split_capability [of fl d] that by simp
    moreover have "cap_loop fl x \<noteq> [[]]" for x
      using cap_name_plain [of fl] by (auto simp: cap_loop_bits map_eq_Cons_conv)
    ultimately have "c = 0 \<and> d = 0 \<or> cap_loop fl c = cap_loop fl d"
      by (metis (full_types))
    moreover have "c = d" if "cap_loop fl c = cap_loop fl d"
      using map_inj_on [OF that [unfolded cap_loop_bits]] cap_fields_inj [of fl] bits_of_inj [of c d]
      by (metis (no_types, lifting) bits_of_subset inj_on_subset le_sup_iff)
    ultimately show ?thesis by blast
  qed
  then show ?thesis by (auto simp: cap_loop_bits bits_of_def)
qed

section \<open>Connecting to the target\<close>

text \<open>
  The client library: \<open>ConnectWithDialer\<close> with the network, the address, the user, the password,
  the database and the function it applies to the connection before the login, the two calls of
  that function, and \<open>Close\<close>.
\<close>

record 't mysql_client =
  mc_connect :: "string \<Rightarrow> string \<Rightarrow> string \<Rightarrow> string \<Rightarrow> string \<Rightarrow> ('t \<Rightarrow> 't \<times> go_error option) \<Rightarrow> go_error + 't"
  mc_set_capability :: "32 word \<Rightarrow> 't \<Rightarrow> 't"
  mc_unset_capability :: "32 word \<Rightarrow> 't \<Rightarrow> 't"
  mc_close :: "'t \<Rightarrow> go_error option"

record 't client_sess =
  cs_TargetMysql :: "'t option"
  cs_TargetNet :: string
  cs_TargetAddr :: string
  cs_TargetUser :: string
  cs_TargetPassword :: string
  cs_TargetDB :: string

definition connect_option ::
  "'t mysql_client \<Rightarrow> (string \<Rightarrow> 32 word) \<Rightarrow> 32 word \<Rightarrow> 't \<Rightarrow> 't \<times> go_error option" where
  "connect_option mc fl client_cap con =
     (let cap = client_cap OR fl ''CLIENT_LOCAL_FILES'' in
      (mc_unset_capability mc (fl ''CLIENT_QUERY_ATTRIBUTES'') (mc_set_capability mc cap con), None))"

definition connect_to_mysql ::
  "'t mysql_client \<Rightarrow> (string \<Rightarrow> 32 word) \<Rightarrow> 32 word \<Rightarrow> 't client_sess \<Rightarrow> go_error option \<times> 't client_sess" where
  "connect_to_mysql mc fl client_cap c =
     (case mc_connect mc (cs_TargetNet c) (cs_TargetAddr c) (cs_TargetUser c) (cs_TargetPassword c)
         (cs_TargetDB c) (connect_option mc fl client_cap) of
       Inl e \<Rightarrow> (Some e, c)
     | Inr t \<Rightarrow> (None, c\<lparr>cs_TargetMysql := Some t\<rparr>))"

text \<open>What the option leaves of a capability word, where the library keeps one.\<close>

lemma connect_option_capability:
  assumes "\<And>f t. caps (mc_set_capability mc f t) = caps t OR f"
    and "\<And>f t. caps (mc_unset_capability mc f t) = caps t AND NOT f"
  shows "caps (fst (connect_option mc fl client_cap t)) =
    (caps t OR client_cap OR fl ''CLIENT_LOCAL_FILES'') AND NOT (fl ''CLIENT_QUERY_ATTRIBUTES'')"
  by (simp add: connect_option_def assms or.assoc)

section \<open>Proxy\<close>

text \<open>
  The two goroutines of a session: \<open>io.Copy\<close> from the target to the client, which is
  \<open>TimeoutReader.WriteTo\<close>, and the \<open>SendTask\<close> from the client to the target.  They share no
  connection state but the cancellation of the child context: each direction sees it at one of its own
  polls, wherever the end of the other direction puts it.  \<open>Proxy\<close> waits for both and closes the
  target.
\<close>

datatype proxy_message =
    ClientWriterErr go_error
  | TargetWriterErr go_error
  | TargetCloseErr go_error

definition proxy_task :: "string \<Rightarrow> 32 word \<Rightarrow> 't client_sess \<Rightarrow> send_task" where
  "proxy_task remote conn_id c = \<lparr>st_RemoteAddr = remote, st_User = cs_TargetUser c,
     st_DB = cs_TargetDB c, st_Addr = cs_TargetAddr c, st_ConnID = conn_id\<rparr>"

definition proxy ::
  "'t mysql_client \<Rightarrow> (nat \<Rightarrow> nat \<Rightarrow> nat) \<Rightarrow> 'l log_writer \<Rightarrow> string \<Rightarrow> 32 word \<Rightarrow> 't client_sess \<Rightarrow>
   net \<Rightarrow> net \<Rightarrow> net \<Rightarrow> 'l \<Rightarrow> (proxy_message list \<times> net \<times> net \<times> net \<times> 'l) outcome" where
  "proxy mc slack lw remote conn_id c up down client l =
     (case cs_TargetMysql c of
       None \<Rightarrow> Panics ''invalid memory address or nil pointer dereference''
     | Some t \<Rightarrow>
         (case write_to timeout_write 0 down client of ((n, copy_err), down1, client1) \<Rightarrow>
          bind_outcome (worker slack lw (proxy_task remote conn_id c) up l) (\<lambda>(err, up1, l1).
            Returns (
              (case copy_err of Some e \<Rightarrow> [ClientWriterErr e] | None \<Rightarrow> []) @
              (if err \<noteq> Canceled \<and> err \<noteq> EOF then [TargetWriterErr err] else []) @
              (case mc_close mc t of Some e \<Rightarrow> [TargetCloseErr e] | None \<Rightarrow> []),
              up1, down1, client1, l1))))"

lemma proxy_spec:
  assumes "cs_TargetMysql c = Some t" and "log_inv a" and "clean (inbox down)"
  shows "\<exists>msgs up' down' client' a' cs rs ds d x y z.
    proxy mc slack audit_log_writer remote conn_id c up down client a = Returns (msgs, up', down', client', a') \<and>
    sent_records a' = sent_records a @ cs @ rs @ ds \<and> length cs \<le> 1 \<and> length ds \<le> 1 \<and>
    (\<forall>r \<in> set (cs @ rs @ ds). sp_User r = cs_TargetUser c \<and> sp_Db r = cs_TargetDB c \<and> sp_Addr r = remote \<and>
        sp_ConnectionID r = conn_id) \<and> (\<forall>r \<in> set rs. mysql_packet (sp_Packets r)) \<and>
    stream (inbox up) = concat (map sp_Packets rs) @ d @ stream (inbox up') \<and>
    outbox up' = outbox up @ concat (map sp_Packets rs) @ x \<and> prefix x d \<and>
    until_eof (inbox down) = y @ z \<and> outbox client' = outbox client @ y \<and>
    ((\<forall>e. ClientWriterErr e \<notin> set msgs) \<longrightarrow> z = [])"
proof -
  obtain n ce down' client' where w: "write_to timeout_write 0 down client = ((n, ce), down', client')"
    by (metis prod.collapse)
  from write_to_delivers_prefix [OF timeout_writer.byte_sink_axioms assms(3) w] obtain y z where
    yz: "outbox client' = outbox client @ y" "until_eof (inbox down) = y @ z" "ce = None \<longrightarrow> z = []" by blast
  let ?st = "proxy_task remote conn_id c"
  from audit.worker_spec [OF assms(2), of slack ?st up] obtain err up' a' cs rs ds d x where
    r: "worker slack audit_log_writer ?st up a = Returns (err, up', a')"
      "sent_records a' = sent_records a @ cs @ rs @ ds"
      "cs \<in> {[]} \<union> {[c] | c. session_record ?st ''connect'' c \<and> sp_Packets c = []}"
      "ds \<in> {[]} \<union> {[c] | c. session_record ?st ''disconnect'' c \<and> sp_Packets c = []}"
      "list_all (est_record ?st) rs" "stream (inbox up) = concat (map sp_Packets rs) @ d @ stream (inbox up')"
      "outbox up' = outbox up @ concat (map sp_Packets rs) @ x" "prefix x d" by (elim exE conjE) blast
  let ?msgs = "(case ce of Some e \<Rightarrow> [ClientWriterErr e] | None \<Rightarrow> []) @
    (if err \<noteq> Canceled \<and> err \<noteq> EOF then [TargetWriterErr err] else []) @
    (case mc_close mc t of Some e \<Rightarrow> [TargetCloseErr e] | None \<Rightarrow> [])"
  have p: "proxy mc slack audit_log_writer remote conn_id c up down client a = Returns (?msgs, up', down', client', a')"
    using assms(1) w r(1) by (simp add: proxy_def)
  have e: "(\<forall>e. ClientWriterErr e \<notin> set ?msgs) \<longrightarrow> z = []" using yz(3) by (cases ce) auto
  have l: "length cs \<le> 1" "length ds \<le> 1" using r(3,4) by auto
  have f: "\<forall>r \<in> set (cs @ rs @ ds). sp_User r = cs_TargetUser c \<and> sp_Db r = cs_TargetDB c \<and> sp_Addr r = remote \<and>
        sp_ConnectionID r = conn_id" "\<forall>r \<in> set rs. mysql_packet (sp_Packets r)"
    using r(3-5) by (auto simp: list_all_iff est_record_def session_record_def proxy_task_def)
  show ?thesis using p r(2) l f r(6,7,8) yz(2,1) e by blast
qed


definition example_client :: "32 word mysql_client" where
  "example_client = \<lparr>mc_connect = (\<lambda>net addr user pass db opt. if addr = [] then Inl (Failure ''no address'') else Inr (fst (opt 0))),
     mc_set_capability = (\<lambda>f t. t OR f), mc_unset_capability = (\<lambda>f t. t AND NOT f), mc_close = (\<lambda>t. None)\<rparr>"

definition example_sess :: "32 word client_sess" where
  "example_sess = \<lparr>cs_TargetMysql = Some 0, cs_TargetNet = ''tcp'', cs_TargetAddr = ''h:3306'',
     cs_TargetUser = ''u1'', cs_TargetPassword = ''p'', cs_TargetDB = ''db''\<rparr>"


section \<open>The debugging wrappers\<close>

definition dump_hex :: "bytes \<Rightarrow> string" where
  "dump_hex line = join '' '' (concat (map (\<lambda>i.
     (if i < length line then hex02 (line ! i) else ''  '') # (if i = 7 then [[]] else [])) [0..<16]))"

definition dump_ascii :: "bytes \<Rightarrow> string" where
  "dump_ascii line = map (\<lambda>c. if 32 \<le> c \<and> c \<le> 126 then char_of_byte c else CHR ''.'') line"

definition dump_line :: "string \<Rightarrow> 64 word \<Rightarrow> bytes \<Rightarrow> string" where
  "dump_line pre off line = pre @ '' '' @ hex08 off @ ''  '' @ pad_right (CHR '' '') 48 (dump_hex line) @
     '' |'' @ dump_ascii line @ ''|'' @ [CHR 0x0A]"

function dump_loop :: "string \<Rightarrow> 64 word \<Rightarrow> bytes \<Rightarrow> nat \<Rightarrow> string list" where
  "dump_loop pre base b offset =
     (if offset < length b then
        let stop = (if offset + 16 > length b then length b else offset + 16) in
        dump_line pre (base + word_of_nat offset) (take (stop - offset) (drop offset b)) #
          dump_loop pre base b (offset + 16)
      else [])"
  by pat_completeness auto
termination by (relation "measure (\<lambda>(pre, base, b, offset). length b - offset)") auto

declare dump_loop.simps [simp del]

record 'w debug_writer =
  dw_W :: 'w
  dw_Prefix :: string
  dw_offset :: "64 word"
  dw_stderr :: "string list"

text \<open>\<open>DebugWriter.Write\<close>: the dump goes to the standard error, then the bytes to the writer.\<close>

definition debug_dump :: "bytes \<Rightarrow> 'w debug_writer \<Rightarrow> 'w debug_writer" where
  "debug_dump b d = d\<lparr>dw_stderr := dw_stderr d @ dump_loop (dw_Prefix d) (dw_offset d) b 0\<rparr>"

definition debug_write :: "'w writer \<Rightarrow> 'w debug_writer writer" where
  "debug_write wr d p = (let d1 = debug_dump p d in
     case wr (dw_W d1) p of (w, n, e) \<Rightarrow> (d1\<lparr>dw_W := w, dw_offset := dw_offset d1 + word_of_nat n\<rparr>, n, e))"

definition copy_debug ::
  "string \<Rightarrow> string list \<Rightarrow> 'w writer \<Rightarrow> 'w \<Rightarrow> net \<Rightarrow> (64 word \<times> go_error option) \<times> net \<times> 'w debug_writer" where
  "copy_debug pre err dst w src =
     write_to (debug_write dst) 0 src \<lparr>dw_W = w, dw_Prefix = pre, dw_offset = 0, dw_stderr = err\<rparr>"

text \<open>\<open>DebugConn\<close>, with the connection's \<open>Write\<close>; the other methods pass their call on.\<close>

record 'c debug_conn =
  dc_Conn :: 'c
  dc_Prefix :: string
  dc_offset :: "64 word"
  dc_dumpDest :: "string list"
  dc_maxDumpPerBuf :: int

definition wrap_conn :: "string list \<Rightarrow> 'c \<Rightarrow> string \<Rightarrow> 'c debug_conn" where
  "wrap_conn err c pre = \<lparr>dc_Conn = c, dc_Prefix = pre, dc_offset = 0, dc_dumpDest = err, dc_maxDumpPerBuf = 0\<rparr>"

definition conn_dump :: "bytes \<Rightarrow> 'c debug_conn \<Rightarrow> 'c debug_conn" where
  "conn_dump buf d = (let buf1 = (if 0 < dc_maxDumpPerBuf d \<and> dc_maxDumpPerBuf d < int (length buf)
       then take (nat (dc_maxDumpPerBuf d)) buf else buf) in
     d\<lparr>dc_dumpDest := dc_dumpDest d @ dump_loop (dc_Prefix d) (dc_offset d) buf1 0\<rparr>)"

definition debug_conn_write :: "'c writer \<Rightarrow> 'c debug_conn writer" where
  "debug_conn_write wr d b = (let d1 = conn_dump b d in
     case wr (dc_Conn d1) b of (c, n, e) \<Rightarrow> (d1\<lparr>dc_Conn := c, dc_offset := dc_offset d1 + word_of_nat n\<rparr>, n, e))"

definition debug_conn_read ::
  "(nat \<Rightarrow> 'c \<Rightarrow> (bytes \<times> go_error option) \<times> 'c) \<Rightarrow> nat \<Rightarrow> 'c debug_conn \<Rightarrow> (bytes \<times> go_error option) \<times> 'c debug_conn" where
  "debug_conn_read rd k d = (case rd k (dc_Conn d) of (r, c) \<Rightarrow> (r, d\<lparr>dc_Conn := c\<rparr>))"

lemma debug_write_simps:
  "debug_write wr d p = (d\<lparr>dw_W := fst (wr (dw_W d) p), dw_offset := dw_offset d + word_of_nat (fst (snd (wr (dw_W d) p))),
     dw_stderr := dw_stderr d @ dump_loop (dw_Prefix d) (dw_offset d) p 0\<rparr>, snd (wr (dw_W d) p))"
  by (simp add: debug_write_def debug_dump_def Let_def split: prod.split)

lemma write_to_debug:
  assumes "write_to (debug_write wr) tot s d = ((n, e), s', d')"
  shows "write_to wr tot s (dw_W d) = ((n, e), s', dw_W d') \<and> n - tot = dw_offset d' - dw_offset d \<and>
    prefix (dw_stderr d) (dw_stderr d')"
  using assms
proof (induction "debug_write wr" tot s d rule: write_to.induct)
  case (1 tot s d)
  obtain b x s1 where rd: "timeout_read 1024 s = ((b, x), s1)" by (metis prod.collapse)
  show ?case
  proof (cases x)
    case (Some y)
    then show ?thesis
      using "1.hyps"(2) [OF rd [symmetric] refl Some] "1.prems" rd
      by (auto simp: write_to.simps [of _ _ s] split: if_splits)
  next
    case None
    obtain w m e1 where wr: "wr (dw_W d) b = (w, m, e1)" by (metis prod_cases3)
    let ?d = "d\<lparr>dw_W := w, dw_offset := dw_offset d + word_of_nat m,
       dw_stderr := dw_stderr d @ dump_loop (dw_Prefix d) (dw_offset d) b 0\<rparr>"
    have dw: "debug_write wr d b = (?d, m, e1)" by (simp add: debug_write_simps wr)
    show ?thesis
    proof (cases e1)
      case (Some y)
      with "1.prems" rd None wr dw show ?thesis
        by (auto simp: write_to.simps [of _ _ s])
    next
      case None1: None
      then have "write_to (debug_write wr) (tot + word_of_nat m) s1 ?d = ((n, e), s', d')"
        using "1.prems" rd None dw by (simp add: write_to.simps [of _ _ s])
      from "1.hyps"(1) [OF rd [symmetric] refl None dw [symmetric] refl None1 this] None1 rd None wr
      show ?thesis
        by (auto simp: write_to.simps [of _ _ s] algebra_simps dest: append_prefixD)
    qed
  qed
qed

text \<open>The tokens of a text: its parts between blanks.\<close>

definition tokens :: "string \<Rightarrow> string list" where
  "tokens s = filter (\<lambda>t. t \<noteq> []) (split (CHR '' '') s)"

lemma split_sep: "split c (s @ c # t) = split c s @ split c t"
proof (induction s)
  case (Cons x s)
  obtain y ys where s: "split c s = y # ys" by (cases "split c s") auto
  with Cons show ?case by simp
qed simp

lemma tokens_simps:
  "tokens [] = []"
  "tokens (s @ CHR '' '' # t) = tokens s @ tokens t"
  by (simp_all add: tokens_def split_sep)

lemma tokens_join: "tokens (join '' '' ps) = concat (map tokens ps)"
  by (induction "'' ''" ps rule: join.induct) (simp_all add: tokens_simps)

lemma tokens_hex02 [simp]: "tokens (hex02 b) = [hex02 b]"
proof -
  have "hex02 b \<noteq> []" using length_hex02 [of b] by (metis list.size(3) zero_neq_numeral)
  then show ?thesis by (simp add: tokens_def split_none hex02_no_blank)
qed

lemma tokens_blanks [simp]: "tokens '' '' = []" "tokens ''  '' = []"
  by (simp_all add: tokens_def)

definition dump_cell :: "bytes \<Rightarrow> nat \<Rightarrow> string list" where
  "dump_cell line i = (if i < length line then hex02 (line ! i) else ''  '') # (if i = 7 then [[]] else [])"

lemma dump_hex_cells: "dump_hex line = join '' '' (concat (map (dump_cell line) [0..<16]))"
  by (simp add: dump_hex_def dump_cell_def [abs_def] del: upt_rec_numeral)

lemma tokens_cell: "concat (map tokens (dump_cell line i)) = (if i < length line then [hex02 (line ! i)] else [])"
  by (simp add: dump_cell_def tokens_simps)

lemma concat_map_concat: "concat (map f (concat (map g xs))) = concat (map (\<lambda>i. concat (map f (g i))) xs)"
  by (induction xs) auto

lemma cells_of_line: "k \<le> length line \<Longrightarrow>
    concat (map (\<lambda>i. concat (map tokens (dump_cell line i))) [0..<k]) = map hex02 (take k line)"
  by (induction k) (auto simp: tokens_cell take_Suc_conv_app_nth)

lemma cells_beyond_line: "length line \<le> j \<Longrightarrow>
    concat (map (\<lambda>i. concat (map tokens (dump_cell line i))) [j..<k]) = []"
  by (auto simp: tokens_cell)

lemma dump_hex_tokens:
  assumes "length line \<le> 16"
  shows "tokens (dump_hex line) = map hex02 line"
proof -
  have u: "[0..<16] = [0..<length line] @ [length line..<16]"
    using assms upt_add_eq_append [of 0 "length line" "16 - length line"] by (simp del: upt_rec_numeral)
  have "tokens (dump_hex line) = concat (map (\<lambda>i. concat (map tokens (dump_cell line i))) [0..<16])"
    unfolding dump_hex_cells tokens_join by (rule concat_map_concat)
  also have "\<dots> = map hex02 line"
    unfolding u map_append concat_append cells_of_line [OF order_refl] cells_beyond_line [OF order_refl] by simp
  finally show ?thesis .
qed

lemma length_join: "length (join sep ps) = sum_list (map length ps) + length sep * (length ps - 1)"
  by (induction sep ps rule: join.induct) auto

lemma length_cells: "sum_list (map length (concat (map (dump_cell line) is))) = 2 * length is"
  by (induction "is") (auto simp: dump_cell_def)

lemma count_cells: "length (concat (map (dump_cell line) is)) = length is + count_list is 7"
  by (induction "is") (auto simp: dump_cell_def)

text \<open>The hexadecimal column has 48 characters for every line, so the text column is aligned.\<close>

lemma length_dump_hex: "length (dump_hex line) = 48"
proof -
  have "count_list [0..<16] 7 = (1 :: nat)" by code_simp
  then show ?thesis unfolding dump_hex_cells length_join length_cells count_cells by simp
qed

text \<open>The bytes of a line, read from its column.\<close>

definition hex_column :: "string \<Rightarrow> string \<Rightarrow> string list" where
  "hex_column pre line = tokens (take 48 (drop (length pre + 11) line))"

lemma hex_length: "n < 16 ^ k \<Longrightarrow> 0 < k \<Longrightarrow> length (hex n) \<le> k"
proof (induction k arbitrary: n)
  case (Suc k)
  show ?case
  proof (cases "n < 16")
    case False
    then have "0 < k" using Suc.prems by (cases k) auto
    with Suc.IH [of "n div 16"] Suc.prems False show ?thesis
      by (simp add: hex.simps [of n] less_mult_imp_div_less mult.commute)
  qed (simp add: hex.simps [of n])
qed simp

lemma length_hex08:
  assumes "w < 2 ^ 32"
  shows "length (hex08 w) = 8"
proof -
  have u: "uint w < 2 ^ 32" using assms by (simp add: word_less_def)
  moreover have "- (2 ^ 63) \<le> uint w" using unsigned_greater_eq [of w] by (rule order_trans [rotated]) simp
  ultimately have "sint w = uint w" unfolding sint_uint by (intro signed_take_bit_int_eq_self) auto
  moreover have "unat w < 16 ^ 8" using assms by (simp add: word_less_nat_alt)
  then have "length (hex (nat (uint w))) \<le> 8" by (intro hex_length) simp_all
  ultimately show ?thesis by (simp add: hex08_def pad_left_def)
qed

lemma hex_column_dump:
  assumes "off < 2 ^ 32" and "length line \<le> 16"
  shows "hex_column pre (dump_line pre off line) = map hex02 line"
  using assms
  by (simp add: hex_column_def dump_line_def length_hex08 pad_right_def length_dump_hex dump_hex_tokens)

lemma dump_offset_less:
  fixes base :: "64 word"
  assumes "unat base + off < 2 ^ 32"
  shows "base + word_of_nat off < 2 ^ 32"
proof -
  have "unat (base + word_of_nat off) = unat base + off"
    using assms by (simp add: unat_word_ariths unat_of_nat)
  then show ?thesis using assms by (simp add: word_less_nat_alt)
qed

lemma dump_loop_columns:
  "unat base + length b \<le> 2 ^ 32 \<Longrightarrow>
   concat (map (hex_column pre) (dump_loop pre base b off)) = map hex02 (drop off b)"
proof (induction pre base b off rule: dump_loop.induct)
  case (1 pre base b off)
  show ?case
  proof (cases "off < length b")
    case True
    let ?stop = "if length b < off + 16 then length b else off + 16"
    let ?line = "take (?stop - off) (drop off b)"
    have "hex_column pre (dump_line pre (base + word_of_nat off) ?line) = map hex02 ?line"
      by (rule hex_column_dump) (use dump_offset_less [of base off] "1.prems" True in auto)
    moreover have "?line @ drop (off + 16) b = drop off b"
      using append_take_drop_id [of 16 "drop off b"] by (auto simp: add.commute)
    then have "map hex02 ?line @ map hex02 (drop (off + 16) b) = map hex02 (drop off b)"
      by (metis map_append)
    ultimately show ?thesis
      using "1.IH" [OF True refl "1.prems"] True by (simp add: dump_loop.simps [of pre base b off] Let_def)
  qed (simp add: dump_loop.simps [of pre base b off])
qed

text \<open>A copy through the debugging writer is a copy.  \<open>CopyDebug\<close> takes from the source, writes
  to the destination, counts and fails exactly as \<open>io.Copy\<close> without it, and its offset is the
  number of bytes written; the debugging connection dumps and writes as the debugging writer does.\<close>

lemma debugging_is_transparent:
  "(case copy_debug pre err wr w s of (r, s', d) \<Rightarrow> (r, s', dw_W d, dw_offset d)) =
     (case write_to wr 0 s w of (r, s', w') \<Rightarrow> (r, s', w', fst r)) \<and>
   (case debug_conn_write wr (wrap_conn err w pre) b of (d, n, e) \<Rightarrow> (dc_Conn d, dc_dumpDest d, dc_offset d, n, e)) =
     (case debug_write wr \<lparr>dw_W = w, dw_Prefix = pre, dw_offset = 0, dw_stderr = err\<rparr> b of
       (d, n, e) \<Rightarrow> (dw_W d, dw_stderr d, dw_offset d, n, e))"
proof
  let ?d = "\<lparr>dw_W = w, dw_Prefix = pre, dw_offset = 0, dw_stderr = err\<rparr>"
  obtain n e s' d' where c: "copy_debug pre err wr w s = ((n, e), s', d')" by (metis prod.collapse)
  then have "write_to wr 0 s w = ((n, e), s', dw_W d')" "n = dw_offset d'"
    using write_to_debug [of wr 0 s ?d n e s' d'] by (simp_all add: copy_debug_def)
  with c show "(case copy_debug pre err wr w s of (r, s', d) \<Rightarrow> (r, s', dw_W d, dw_offset d)) =
     (case write_to wr 0 s w of (r, s', w') \<Rightarrow> (r, s', w', fst r))" by simp
qed (simp add: debug_conn_write_def debug_write_def debug_dump_def conn_dump_def wrap_conn_def Let_def split: prod.split)

text \<open>A dump shows what was written.  For writes that end below an offset of four gigabytes, the
  hexadecimal columns of the dumped lines, read line by line, are the bytes of the write, each in
  two digits, in order and complete.\<close>

lemma dump_shows_the_bytes:
  assumes "unat base + length b \<le> 2 ^ 32"
  shows "concat (map (hex_column pre) (dump_loop pre base b 0)) = map hex02 b"
  using dump_loop_columns [OF assms, of pre 0] by simp

end
