(* ===== verification/SqlParse.thy ===== *)
theory SqlParse
  imports Prelude
begin

text \<open>
  SQL statements on the table of servers, pkg/serverconfig/sqlparse.go: the visitor that collects
  a statement's columns, values and conditions, and what the collected parts mean for a list of
  servers.  The parser and its syntax tree are another package's: the parser is a parameter, and
  a tree is a node with the nodes its \<open>Accept\<close> visits, in the order of the visits, of which only
  the kinds that the visitor distinguishes have a name.
\<close>

section \<open>The query and its visitor\<close>

datatype opcode = NoOp | EQ | OtherOp nat

datatype node_kind =
    SelectNode string
  | InsertNode string
  | UpdateNode string
  | DeleteNode string
  | TableName string
  | BinaryOperationExpr opcode
  | ColumnName string
  | ValueExpr string
  | OtherNode

datatype node = Node (n_kind: node_kind) (n_children: "node list")

record query =
  q_Statement :: string
  q_TableName :: string
  q_Columns :: "string list"
  q_Values :: "string list"
  q_Text :: string
  q_CurrentType :: string
  q_WhereColumns :: "string list"
  q_WhereValues :: "string list"
  q_WhereOp :: opcode

definition UpdateStmt :: string where "UpdateStmt = ''udpate''"
definition InsertStmt :: string where "InsertStmt = ''insert''"
definition DeleteStmt :: string where "DeleteStmt = ''delete''"
definition SelectStmt :: string where "SelectStmt = ''select''"
definition Where :: string where "Where = ''Where''"

lemmas stmt_defs = UpdateStmt_def InsertStmt_def DeleteStmt_def SelectStmt_def Where_def

text \<open>The functions of a parsed query, called with the query and the state they work on.\<close>

type_synonym 'h handlers = "string \<rightharpoonup> (query \<Rightarrow> 'h \<Rightarrow> query \<times> 'h)"

definition new_query :: query where
  "new_query = \<lparr>q_Statement = [], q_TableName = [], q_Columns = [], q_Values = [], q_Text = [],
     q_CurrentType = [], q_WhereColumns = [], q_WhereValues = [], q_WhereOp = NoOp\<rparr>"

fun enter :: "node_kind \<Rightarrow> query \<Rightarrow> query" where
  "enter (SelectNode t) p = p\<lparr>q_Statement := SelectStmt, q_Text := t\<rparr>"
| "enter (InsertNode t) p = p\<lparr>q_Statement := InsertStmt, q_Text := t\<rparr>"
| "enter (UpdateNode t) p = p\<lparr>q_Statement := UpdateStmt, q_Text := t\<rparr>"
| "enter (DeleteNode t) p = p\<lparr>q_Statement := DeleteStmt, q_Text := t\<rparr>"
| "enter (TableName n) p = p\<lparr>q_TableName := n\<rparr>"
| "enter (BinaryOperationExpr op) p = p\<lparr>q_CurrentType := Where, q_WhereOp := op\<rparr>"
| "enter (ColumnName c) p =
     (if q_CurrentType p = Where then p\<lparr>q_WhereColumns := q_WhereColumns p @ [c]\<rparr>
      else p\<lparr>q_Columns := q_Columns p @ [c]\<rparr>)"
| "enter (ValueExpr v) p =
     (if q_CurrentType p = Where then p\<lparr>q_WhereValues := q_WhereValues p @ [v]\<rparr>
      else p\<lparr>q_Values := q_Values p @ [v]\<rparr>)"
| "enter OtherNode p = p"

definition leave_func :: "'h handlers \<Rightarrow> query \<times> 'h \<Rightarrow> query \<times> 'h" where
  "leave_func fs s = (case s of (p, h) \<Rightarrow>
     (case fs (q_Statement p) of None \<Rightarrow> (p, h) | Some f \<Rightarrow> f p h))"

fun leave :: "'h handlers \<Rightarrow> node_kind \<Rightarrow> query \<times> 'h \<Rightarrow> query \<times> 'h" where
  "leave fs (SelectNode t) s = leave_func fs s"
| "leave fs (InsertNode t) s = leave_func fs s"
| "leave fs (UpdateNode t) s = leave_func fs s"
| "leave fs (DeleteNode t) s = leave_func fs s"
| "leave fs (BinaryOperationExpr op) s = (case s of (p, h) \<Rightarrow> (p\<lparr>q_CurrentType := []\<rparr>, h))"
| "leave fs k s = s"

text \<open>
  \<open>Accept\<close> as the parser documents it for a visitor that skips no children and never stops.
\<close>

fun accept :: "'h handlers \<Rightarrow> node \<Rightarrow> query \<times> 'h \<Rightarrow> query \<times> 'h" where
  "accept fs (Node k cs) (p, h) = leave fs k (fold (accept fs) cs (enter k p, h))"

text \<open>\<open>Parse\<close>: the first statement; a text without one is an index out of range.\<close>

definition Parse :: "(string \<Rightarrow> go_error + node list) \<Rightarrow> string \<Rightarrow> (go_error + node) outcome" where
  "Parse parser sql = (case parser sql of
       Inl e \<Rightarrow> Returns (Inl e)
     | Inr [] \<Rightarrow> Panics ''index out of range''
     | Inr (n # ns) \<Rightarrow> Returns (Inr n))"

section \<open>Servers\<close>

record server =
  sv_User :: string
  sv_Password :: string

definition blank_server :: server where
  "blank_server = \<lparr>sv_User = [], sv_Password = []\<rparr>"

definition lower_char :: "char \<Rightarrow> char" where
  "lower_char c = (if 65 \<le> (of_char c :: nat) \<and> (of_char c :: nat) \<le> 90 then char_of (of_char c + 32 :: nat) else c)"

definition to_lower :: "string \<Rightarrow> string" where
  "to_lower s = map lower_char s"

definition default_columns :: "query \<Rightarrow> query" where
  "default_columns p = (if q_Columns p = [] then p\<lparr>q_Columns := [''User'', ''Password'']\<rparr> else p)"

text \<open>The loop over the columns of one server, in \<open>columnsToConfig\<close> and \<open>updateColumns\<close>.\<close>

fun fill_server :: "string list \<Rightarrow> string list \<Rightarrow> server \<Rightarrow> (go_error \<times> server) + server" where
  "fill_server [] vs s = Inr s"
| "fill_server (c # cs) [] s = Inl (Errorf ''values length is less than columns length'' [], s)"
| "fill_server (c # cs) (v # vs) s =
     (if to_lower c = ''user'' then fill_server cs vs (s\<lparr>sv_User := v\<rparr>)
      else if to_lower c = ''password'' then fill_server cs vs (s\<lparr>sv_Password := v\<rparr>)
      else Inl (Errorf ''column %s not found'' c, s))"

function servers_of :: "string list \<Rightarrow> string list \<Rightarrow> go_error + server list" where
  "servers_of cols vals =
     (if vals = [] \<or> cols = [] then Inr []
      else case fill_server cols vals blank_server of
        Inl (e, s) \<Rightarrow> Inl e
      | Inr s \<Rightarrow> (case servers_of cols (drop (length cols) vals) of
          Inl e \<Rightarrow> Inl e
        | Inr ss \<Rightarrow> Inr (s # ss)))"
  by pat_completeness auto
termination
  by (relation "measure (\<lambda>(cols, vals). length vals)") (auto simp: length_greater_0_conv [symmetric] simp del: length_greater_0_conv)

declare servers_of.simps [simp del]

definition columns_to_config :: "query \<Rightarrow> go_error + server list" where
  "columns_to_config p = servers_of (q_Columns (default_columns p)) (q_Values p)"

definition update_columns :: "query \<Rightarrow> server \<Rightarrow> (go_error \<times> server) + server" where
  "update_columns p s = fill_server (q_Columns (default_columns p)) (q_Values p) s"

definition get_string :: "string list \<Rightarrow> nat \<Rightarrow> string" where
  "get_string s i = (if i < length s then s ! i else [])"

definition selection :: "(server \<Rightarrow> bool) \<Rightarrow> server list \<Rightarrow> server list" where
  "selection f servers = filter f servers"

fun where_loop :: "nat \<Rightarrow> string list \<Rightarrow> string list \<Rightarrow> server list \<Rightarrow> server list \<Rightarrow> server list" where
  "where_loop i [] vals servers res = res"
| "where_loop i (c # cs) vals servers res = where_loop (Suc i) cs vals servers
     (if to_lower c = ''user'' then selection (\<lambda>sv. sv_User sv = get_string vals i) servers
      else if to_lower c = ''password'' then selection (\<lambda>sv. sv_Password sv = get_string vals i) servers
      else res)"

definition where_columns_to_config :: "query \<Rightarrow> server list \<Rightarrow> go_error + server list" where
  "where_columns_to_config p servers =
     (if q_WhereColumns p = [] then Inr servers
      else if q_WhereOp p \<noteq> EQ then Inl (Errorf ''where only supports equal operation'' [])
      else Inr (where_loop 0 (q_WhereColumns p) (q_WhereValues p) servers []))"

fun result_row :: "string list \<Rightarrow> server \<Rightarrow> (string \<times> string) list" where
  "result_row [] s = []"
| "result_row (c # cs) s =
     (if to_lower c = ''user'' then (''User'', sv_User s) # result_row cs s
      else if to_lower c = ''password'' then (''Password'', sv_Password s) # result_row cs s
      else result_row cs s)"

text \<open>The column names are those of the last row; without a row, or a column, there are none.\<close>

definition select_resultset :: "query \<Rightarrow> server list \<Rightarrow> string list \<times> string list list" where
  "select_resultset p servers =
     (let cols = q_Columns (default_columns p) in
      (if servers = [] then [] else map fst (result_row cols (last servers)),
       map (\<lambda>s. map snd (result_row cols s)) servers))"

section \<open>What the parts of a query mean\<close>

lemma result_row_names: "map fst (result_row cols s) = map fst (result_row cols t)"
  by (induction cols) auto

lemma length_result_row: "length (result_row cols s) = length (result_row cols t)"
  by (metis length_map result_row_names)

text \<open>The position of the last column that the where clause knows.\<close>

definition known_column :: "string \<Rightarrow> bool" where
  "known_column c \<longleftrightarrow> to_lower c = ''user'' \<or> to_lower c = ''password''"

definition condition :: "string \<Rightarrow> string \<Rightarrow> server \<Rightarrow> bool" where
  "condition c v sv \<longleftrightarrow> (if to_lower c = ''user'' then sv_User sv = v else sv_Password sv = v)"

lemma where_loop_append:
  "where_loop i (cs @ [c]) vals servers res =
     (if known_column c then filter (condition c (get_string vals (i + length cs))) servers
      else where_loop i cs vals servers res)"
  by (induction cs arbitrary: i res)
    (auto simp: known_column_def condition_def selection_def intro!: filter_cong)

lemma where_loop_unknown:
  "\<forall>c \<in> set cs. \<not> known_column c \<Longrightarrow> where_loop i cs vals servers res = res"
  by (induction cs arbitrary: i) (auto simp: known_column_def)

lemma where_loop_append_unknown:
  "\<forall>c \<in> set ds. \<not> known_column c \<Longrightarrow> where_loop i (cs @ ds) vals servers res = where_loop i cs vals servers res"
  by (induction cs arbitrary: i res) (auto simp: where_loop_unknown)

lemma fill_server_complete:
  assumes "\<forall>c \<in> set cols. known_column c" and "length cols \<le> length vals"
  shows "\<exists>s'. fill_server cols vals s = Inr s'"
  using assms
proof (induction cols vals s rule: fill_server.induct)
  case (3 c cs v vs s)
  then show ?case by (auto simp: known_column_def)
qed auto

subsection \<open>Which function a statement runs\<close>

fun stmt_name :: "node_kind \<Rightarrow> string option" where
  "stmt_name (SelectNode t) = Some SelectStmt"
| "stmt_name (InsertNode t) = Some InsertStmt"
| "stmt_name (UpdateNode t) = Some UpdateStmt"
| "stmt_name (DeleteNode t) = Some DeleteStmt"
| "stmt_name k = None"

text \<open>The statements of a tree, in the order in which they are entered.\<close>

fun entered :: "node \<Rightarrow> string list" where
  "entered (Node k cs) = (case stmt_name k of None \<Rightarrow> [] | Some n \<Rightarrow> [n]) @ concat (map entered cs)"

text \<open>Functions that leave the statement's name alone, as those of the handler do.\<close>

definition keep_statement :: "'h handlers \<Rightarrow> bool" where
  "keep_statement fs \<longleftrightarrow> (\<forall>n f p h. fs n = Some f \<longrightarrow> q_Statement (fst (f p h)) = q_Statement p)"

lemma leave_keeps: "keep_statement fs \<Longrightarrow> q_Statement (fst (leave fs k s)) = q_Statement (fst s)"
  by (cases k; cases s) (auto simp: leave_func_def keep_statement_def split: option.splits)

lemma enter_statement:
  "q_Statement (enter k p) = (case stmt_name k of None \<Rightarrow> q_Statement p | Some n \<Rightarrow> n)"
  by (cases k) (auto simp: stmt_defs)

lemma accept_statement:
  assumes "keep_statement fs"
  shows "q_Statement (fst (accept fs n s)) = last (q_Statement (fst s) # entered n)"
  using assms
proof (induction fs n s rule: accept.induct)
  case (1 fs k cs p h)
  have kids: "q_Statement (fst (fold (accept fs) ds s)) = last (q_Statement (fst s) # concat (map entered ds))"
    if "set ds \<subseteq> set cs" for ds s
    using that
  proof (induction ds arbitrary: s)
    case Nil
    then show ?case by simp
  next
    case (Cons d ds)
    have "q_Statement (fst (accept fs d s)) = last (q_Statement (fst s) # entered d)"
      using "1.IH" [of d s] Cons.prems "1.prems" by (metis list.set_intros(1) subsetD)
    moreover have "q_Statement (fst (fold (accept fs) ds (accept fs d s)))
        = last (q_Statement (fst (accept fs d s)) # concat (map entered ds))"
      using Cons by simp
    ultimately show ?case by (simp add: last_append)
  qed
  from kids [OF order_refl] show ?case
    by (auto simp: leave_keeps [OF "1.prems"] enter_statement last_append split: option.splits)
qed

lemma fold_accept_statement:
  "keep_statement fs \<Longrightarrow> q_Statement (fst (fold (accept fs) cs s)) = last (q_Statement (fst s) # concat (map entered cs))"
  by (induction cs arbitrary: s) (auto simp: accept_statement last_append)

lemma leave_statement:
  "stmt_name k = Some n \<Longrightarrow> leave fs k s = leave_func fs s"
  by (cases k) auto

subsection \<open>Rows and servers\<close>

definition value_row :: "string list \<Rightarrow> server \<Rightarrow> string list" where
  "value_row cols s = map (\<lambda>c. if to_lower c = ''user'' then sv_User s else sv_Password s) cols"

lemma fill_server_row:
  assumes "\<forall>c \<in> set cols. known_column c"
  shows "fill_server cols (value_row cols s @ rest) s0 = Inr
    \<lparr>sv_User = (if ''user'' \<in> to_lower ` set cols then sv_User s else sv_User s0),
     sv_Password = (if ''password'' \<in> to_lower ` set cols then sv_Password s else sv_Password s0)\<rparr>"
  using assms
proof (induction cols arbitrary: s0)
  case Nil
  then show ?case by (simp add: value_row_def)
next
  case (Cons c cols)
  have r: "value_row (c # cols) s = (if to_lower c = ''user'' then sv_User s else sv_Password s) # value_row cols s"
    by (simp add: value_row_def)
  from Cons.prems have "known_column c" "\<forall>c \<in> set cols. known_column c" by simp_all
  with Cons.IH show ?case unfolding r by (auto simp: known_column_def)
qed

lemma length_value_row [simp]: "length (value_row cols s) = length cols"
  by (simp add: value_row_def)

lemma servers_of_rows:
  assumes "to_lower ` set cols = {''user'', ''password''}"
  shows "servers_of cols (concat (map (value_row cols) ss)) = Inr ss"
proof (induction ss)
  case Nil
  then show ?case by (simp add: servers_of.simps)
next
  case (Cons s ss)
  have ne: "cols \<noteq> []" using assms by (metis image_empty insert_not_empty list.set(1))
  have k: "\<forall>c \<in> set cols. known_column c" using assms unfolding known_column_def by blast
  have "value_row cols s \<noteq> []" using ne by (simp add: value_row_def)
  with ne fill_server_row [OF k, of s "concat (map (value_row cols) ss)" blank_server] Cons show ?case
    unfolding list.map concat.simps servers_of.simps [of cols "value_row cols s @ concat (map (value_row cols) ss)"]
    by (simp add: assms)
qed

section \<open>Properties\<close>

text \<open>C36: an insert statement's rows are its servers.  For columns that name the user and the
  password, in any order and in any letter case, or for no columns at all, the flat list of
  values is cut into exactly the servers it was written from.\<close>

theorem insert_rows_are_servers:
  assumes "q_Columns p = [] \<or> to_lower ` set (q_Columns p) = {''user'', ''password''}"
    and "q_Values p = concat (map (value_row (q_Columns (default_columns p))) ss)"
  shows "columns_to_config p = Inr ss"
proof -
  have "to_lower ` set (q_Columns (default_columns p)) = {''user'', ''password''}"
  proof (cases "q_Columns p = []")
    case True
    then have "q_Columns (default_columns p) = [''User'', ''Password'']" by (simp add: default_columns_def)
    moreover have "to_lower ''User'' = ''user''" "to_lower ''Password'' = ''password''" by code_simp+
    ultimately show ?thesis by simp
  qed (use assms(1) in \<open>simp add: default_columns_def\<close>)
  from servers_of_rows [OF this] assms(2) show ?thesis by (simp add: columns_to_config_def)
qed

theorem insert_rows_are_servers_witness:
  "columns_to_config (new_query\<lparr>q_Columns := [''Password'', ''user''], q_Values := [''p1'', ''u1'', ''p2'', ''u2'']\<rparr>)
     = Inr [\<lparr>sv_User = ''u1'', sv_Password = ''p1''\<rparr>, \<lparr>sv_User = ''u2'', sv_Password = ''p2''\<rparr>]"
  by (rule insert_rows_are_servers; code_simp)

definition equality :: "string \<Rightarrow> string \<Rightarrow> node" where
  "equality c v = Node (BinaryOperationExpr EQ) [Node OtherNode [Node (ColumnName c) []], Node (ValueExpr v) []]"

text \<open>Of a where clause only the last condition counts.  Two equalities, whatever operator joins
  them, select the servers that satisfy the second one: the first is not looked at, and with
  \<open>OR\<close> and \<open>AND\<close> the same servers are shown, updated or deleted.\<close>

lemma where_uses_last_condition:
  assumes "known_column c2" and "q_WhereColumns p = []" and "q_WhereValues p = []"
    and "accept fs (Node (BinaryOperationExpr op) [equality c1 v1, equality c2 v2]) (p, h) = (p', h')"
  shows "where_columns_to_config p' servers = Inr (filter (condition c2 v2) servers)"
proof -
  have "q_WhereColumns p' = [c1] @ [c2] \<and> q_WhereValues p' = [v1, v2] \<and> q_WhereOp p' = EQ"
    using assms(2-4) by (auto simp: equality_def)
  then show ?thesis
    using assms(1) where_loop_append [of 0 "[c1]" c2]
    by (simp add: where_columns_to_config_def get_string_def)
qed



text \<open>A nested statement replaces the outer one.  When a statement is left, the function that
  runs is that of the statement entered last inside it; so an update or insert whose text
  contains a select runs the select's function a second time and never its own.\<close>

lemma last_statement_is_run:
  assumes "keep_statement fs" and "stmt_name k = Some n"
  shows "accept fs (Node k cs) (p, h) =
    (let s = fold (accept fs) cs (enter k p, h) in
     case fs (last (n # concat (map entered cs))) of None \<Rightarrow> s | Some f \<Rightarrow> f (fst s) (snd s))"
proof -
  let ?s = "fold (accept fs) cs (enter k p, h)"
  obtain p1 h1 where s: "?s = (p1, h1)" by (metis prod.collapse)
  have "q_Statement (fst ?s) = last (n # concat (map entered cs))"
    using fold_accept_statement [OF assms(1)] assms(2) by (simp add: enter_statement)
  then have q: "q_Statement p1 = last (n # concat (map entered cs))" by (simp only: s fst_conv)
  have "accept fs (Node k cs) (p, h) = leave_func fs (p1, h1)"
    by (simp only: accept.simps leave_statement [OF assms(2)] s)
  then show ?thesis
    unfolding Let_def s leave_func_def by (simp only: prod.case q fst_conv snd_conv)
qed

definition log_statement :: "string list handlers" where
  "log_statement n = Some (\<lambda>p h. (p, h @ [n]))"

end
