(* ===== verification/Secret.thy ===== *)
theory Secret
  imports Prelude
begin

text \<open>
  Passwords at rest, encrypt, decrypt and generateKey of pkg/serverconfig/serverconfig.go: a
  nonce and an AES-GCM ciphertext in unpadded base64.  The cipher is a parameter \<open>c\<close> with the law
  that opening what was sealed under the same key and nonce gives the plain text back; random
  bytes are read from a tape.
\<close>

section \<open>base64.RawStdEncoding\<close>

definition b64_alphabet :: string where
  "b64_alphabet = ''ABCDEFGHIJKLMNOPQRSTUVWXYZabcdefghijklmnopqrstuvwxyz0123456789+/''"

definition b64_char :: "nat \<Rightarrow> char" where
  "b64_char n = b64_alphabet ! n"

fun position :: "char \<Rightarrow> string \<Rightarrow> nat option" where
  "position c [] = None"
| "position c (d # ds) = (if c = d then Some 0 else map_option Suc (position c ds))"

definition b64_value :: "char \<Rightarrow> nat option" where
  "b64_value c = position c b64_alphabet"

fun b64_encode :: "bytes \<Rightarrow> string" where
  "b64_encode [] = []"
| "b64_encode [a] = [b64_char (unat a div 4), b64_char (unat a mod 4 * 16)]"
| "b64_encode [a, b] = [b64_char (unat a div 4), b64_char (unat a mod 4 * 16 + unat b div 16),
     b64_char (unat b mod 16 * 4)]"
| "b64_encode (a # b # c # r) = b64_char (unat a div 4) # b64_char (unat a mod 4 * 16 + unat b div 16)
     # b64_char (unat b mod 16 * 4 + unat c div 64) # b64_char (unat c mod 64) # b64_encode r"

fun b64_groups :: "nat list \<Rightarrow> bytes option" where
  "b64_groups [] = Some []"
| "b64_groups [w] = None"
| "b64_groups [w, x] = Some [word_of_nat (w * 4 + x div 16)]"
| "b64_groups [w, x, y] = Some [word_of_nat (w * 4 + x div 16), word_of_nat (x mod 16 * 16 + y div 4)]"
| "b64_groups (w # x # y # z # r) = map_option (\<lambda>bs. word_of_nat (w * 4 + x div 16)
     # word_of_nat (x mod 16 * 16 + y div 4) # word_of_nat (y mod 4 * 64 + z) # bs) (b64_groups r)"

text \<open>The decoder skips line breaks and accepts any bits left over in the last character.\<close>

definition b64_decode :: "string \<Rightarrow> bytes option" where
  "b64_decode s = (case those (map b64_value (filter (\<lambda>c. c \<noteq> CHR 0x0A \<and> c \<noteq> CHR 0x0D) s)) of
       None \<Rightarrow> None | Some vs \<Rightarrow> b64_groups vs)"

section \<open>Encryption\<close>

record aead =
  c_seal :: "bytes \<Rightarrow> bytes \<Rightarrow> bytes \<Rightarrow> bytes"
  c_open :: "bytes \<Rightarrow> bytes \<Rightarrow> bytes \<Rightarrow> bytes option"

definition opens_sealed :: "aead \<Rightarrow> bool" where
  "opens_sealed c \<longleftrightarrow> (\<forall>k n p. c_open c k n (c_seal c k n p) = Some p)"

type_synonym random = "nat \<Rightarrow> byte"

definition draw :: "random \<Rightarrow> nat \<Rightarrow> nat \<Rightarrow> bytes" where
  "draw tape pos n = map tape [pos..<pos + n]"

definition generate_key :: "random \<Rightarrow> nat \<Rightarrow> bytes \<times> nat" where
  "generate_key tape pos = (draw tape pos 32, pos + 32)"

text \<open>\<open>aes.NewCipher\<close> takes keys of three lengths.\<close>

definition new_cipher :: "bytes \<Rightarrow> go_error option" where
  "new_cipher key = (if length key \<in> {16, 24, 32} then None else Some (Errorf ''crypto/aes: invalid key size'' []))"

definition nonce_size :: nat where
  "nonce_size = 12"

definition encrypt :: "aead \<Rightarrow> random \<Rightarrow> bytes \<Rightarrow> string \<Rightarrow> nat \<Rightarrow> (go_error + string) \<times> nat" where
  "encrypt c tape key data pos = (case new_cipher key of
       Some e \<Rightarrow> (Inl e, pos)
     | None \<Rightarrow>
         let nonce = draw tape pos nonce_size in
         (Inr (b64_encode (nonce @ c_seal c key nonce (bytes_of_string data))), pos + nonce_size))"

definition decrypt :: "aead \<Rightarrow> bytes \<Rightarrow> string \<Rightarrow> (go_error + string) outcome" where
  "decrypt c key data = (case new_cipher key of
       Some e \<Rightarrow> Returns (Inl e)
     | None \<Rightarrow> (case b64_decode data of
         None \<Rightarrow> Returns (Inl (Errorf ''illegal base64 data'' []))
       | Some b \<Rightarrow>
           (if length b < nonce_size then Panics ''slice bounds out of range''
            else case c_open c key (take nonce_size b) (drop nonce_size b) of
              None \<Rightarrow> Returns (Inl (Errorf ''cipher: message authentication failed'' []))
            | Some p \<Rightarrow> Returns (Inr (string_of_bytes p)))))"

section \<open>Round trips\<close>

lemma b64_char_value: "n < 64 \<Longrightarrow> b64_value (b64_char n) = Some n"
  and b64_char_no_break: "n < 64 \<Longrightarrow> b64_char n \<noteq> CHR 0x0A \<and> b64_char n \<noteq> CHR 0x0D"
proof -
  have all: "list_all (\<lambda>n. b64_value (b64_char n) = Some n \<and> b64_char n \<noteq> CHR 0x0A \<and> b64_char n \<noteq> CHR 0x0D) [0..<64]"
    by code_simp
  show "n < 64 \<Longrightarrow> b64_value (b64_char n) = Some n"
    and "n < 64 \<Longrightarrow> b64_char n \<noteq> CHR 0x0A \<and> b64_char n \<noteq> CHR 0x0D"
    using all by (auto simp: list_all_iff)
qed

text \<open>The six-bit values that the encoder writes.\<close>

fun sextets :: "bytes \<Rightarrow> nat list" where
  "sextets [] = []"
| "sextets [a] = [unat a div 4, unat a mod 4 * 16]"
| "sextets [a, b] = [unat a div 4, unat a mod 4 * 16 + unat b div 16, unat b mod 16 * 4]"
| "sextets (a # b # c # r) = (unat a div 4) # (unat a mod 4 * 16 + unat b div 16)
     # (unat b mod 16 * 4 + unat c div 64) # (unat c mod 64) # sextets r"

lemma b64_encode_sextets: "b64_encode b = map b64_char (sextets b)"
  by (induction b rule: sextets.induct) auto

lemma byte_lt: "unat (a :: byte) < 256"
  using unsigned_less [of a, where ?'a = nat] by simp

lemma sextets_bound: "list_all (\<lambda>n. n < 64) (sextets b)"
proof (induction b rule: sextets.induct)
  case (2 a)
  then show ?case using byte_lt [of a] by auto
next
  case (3 a b)
  then show ?case using byte_lt [of a] byte_lt [of b] by auto
next
  case (4 a b c r)
  then show ?case using byte_lt [of a] byte_lt [of b] byte_lt [of c] by auto
qed simp

lemma word_of_split: "m = unat a \<Longrightarrow> word_of_nat m = (a :: byte)"
  by simp

lemma b64_groups_sextets: "b64_groups (sextets b) = Some b"
proof (induction b rule: sextets.induct)
  case (2 a)
  show ?case by (simp add: word_of_split)
next
  case (3 a b)
  have "unat b div 16 < 16" using byte_lt [of b] by auto
  then show ?case by (simp add: word_of_split)
next
  case (4 a b c r)
  have "unat b div 16 < 16" "unat c div 64 < 4" using byte_lt [of b] byte_lt [of c] by auto
  then show ?case using 4 by (simp add: word_of_split)
qed simp

lemma those_map_Some: "those (map Some xs) = Some xs"
  by (induction xs) auto

lemma b64_round_trip: "b64_decode (b64_encode b) = Some b"
proof -
  have b: "\<forall>n \<in> set (sextets b). n < 64" using sextets_bound [of b] by (simp add: list_all_iff)
  then have "filter (\<lambda>c. c \<noteq> CHR 0x0A \<and> c \<noteq> CHR 0x0D) (b64_encode b) = b64_encode b"
    by (auto simp: b64_encode_sextets filter_id_conv dest: b64_char_no_break)
  moreover have "map b64_value (b64_encode b) = map Some (sextets b)"
    using b by (simp add: b64_encode_sextets b64_char_value)
  ultimately show ?thesis by (simp add: b64_decode_def those_map_Some b64_groups_sextets)
qed

lemma length_draw [simp]: "length (draw tape pos n) = n"
  by (simp add: draw_def)

lemma decrypt_encrypt:
  assumes "opens_sealed c" and "encrypt c tape key data pos = (Inr s, pos')"
  shows "decrypt c key s = Returns (Inr data)"
proof -
  let ?nonce = "draw tape pos nonce_size"
  let ?b = "?nonce @ c_seal c key ?nonce (bytes_of_string data)"
  have k: "new_cipher key = None" and s: "s = b64_encode ?b"
    using assms(2) by (auto simp: encrypt_def Let_def split: option.splits)
  have "take nonce_size ?b = ?nonce" "drop nonce_size ?b = c_seal c key ?nonce (bytes_of_string data)" by simp_all
  moreover have "\<not> length ?b < nonce_size" by simp
  ultimately show ?thesis
    using assms(1) unfolding decrypt_def k s b64_round_trip
    by (simp add: opens_sealed_def)
qed

section \<open>Properties\<close>

text \<open>C23: a stored password can be read back.  For every key that the cipher takes, and for no other,
  \<open>encrypt\<close> gives a text, and \<open>decrypt\<close> under the same key gives the password from it, whatever
  bytes the password is made of and whatever the random source returned.\<close>

theorem stored_password_round_trip:
  assumes "opens_sealed c"
  shows "(length key \<in> {16, 24, 32} \<longrightarrow> (\<exists>s. encrypt c tape key data pos = (Inr s, pos + 12) \<and>
      decrypt c key s = Returns (Inr data))) \<and>
    (length key \<notin> {16, 24, 32} \<longrightarrow> (\<exists>e. encrypt c tape key data pos = (Inl e, pos)))"
proof -
  have "\<exists>s. encrypt c tape key data pos = (Inr s, pos + 12)" if "length key \<in> {16, 24, 32}"
    using that by (simp add: encrypt_def new_cipher_def nonce_size_def Let_def)
  moreover have "\<exists>e. encrypt c tape key data pos = (Inl e, pos)" if "length key \<notin> {16, 24, 32}"
    using that by (simp add: encrypt_def new_cipher_def)
  ultimately show ?thesis using decrypt_encrypt [OF assms] by metis
qed

text \<open>A cipher for examples: it adds the nonce's first byte and appends the key's.\<close>

definition toy_aead :: aead where
  "toy_aead = \<lparr>c_seal = (\<lambda>k n p. hd k # map ((+) (hd n)) p),
     c_open = (\<lambda>k n b. if b \<noteq> [] \<and> hd b = hd k then Some (map (\<lambda>x. x - hd n) (tl b)) else None)\<rparr>"

lemma opens_sealed_toy: "opens_sealed toy_aead"
  by (auto simp: opens_sealed_def toy_aead_def comp_def)

definition toy_tape :: random where
  "toy_tape i = word_of_nat i"

theorem stored_password_round_trip_witness:
  "\<exists>s. encrypt toy_aead toy_tape (replicate 32 7) ''secret'' 5 = (Inr s, 17) \<and>
     decrypt toy_aead (replicate 32 7) s = Returns (Inr ''secret'')"
  using stored_password_round_trip [OF opens_sealed_toy, of "replicate 32 7" toy_tape "''secret''" 5] by simp

text \<open>A password that was not stored by the program can crash it.  A text in the configuration
  file that is base64 but for fewer than twelve bytes, as most plain words are, makes \<open>decrypt\<close>
  slice beyond its bytes, in the session that looks the password up.\<close>

lemma short_secret_panics:
  assumes "b64_decode s = Some b" and "length b < 12" and "length key \<in> {16, 24, 32}"
  shows "decrypt c key s = Panics ''slice bounds out of range''"
  using assms by (simp add: decrypt_def new_cipher_def nonce_size_def)

end
