(* ===== verification/ServerConfig.thy ===== *)
theory ServerConfig
  imports SqlParse Secret
begin

text \<open>
  The table of servers, pkg/serverconfig/serverconfig.go: a JSON file with the key and the
  servers, read in full before and written in full after every statement, and the index from
  users to positions that the manager keeps.  A manager's world \<open>mgr\<close> is its index, the file and
  the position on the random tape; the cipher, the tape and the regular expressions are
  parameters.
\<close>

section \<open>The configuration and its file\<close>

record config =
  cf_Servers :: "server list"
  cf_Key :: bytes

text \<open>
  What the JSON text of the file holds: the fields present, and the decoder's error, if any, after
  which they are what it had stored.
\<close>

datatype json_file = Json (j_Servers: "server list option") (j_Key: "bytes option") (j_err: "go_error option")

definition json_decode :: "json_file \<Rightarrow> config \<Rightarrow> go_error option \<times> config" where
  "json_decode j conf = (j_err j,
     \<lparr>cf_Servers = (case j_Servers j of None \<Rightarrow> cf_Servers conf | Some s \<Rightarrow> s),
      cf_Key = (case j_Key j of None \<Rightarrow> cf_Key conf | Some k \<Rightarrow> k)\<rparr>)"

definition json_encode :: "config \<Rightarrow> json_file" where
  "json_encode conf = Json (Some (cf_Servers conf)) (Some (cf_Key conf)) None"

text \<open>\<open>mg_file\<close> is \<open>None\<close> when the file cannot be opened; \<open>mg_write_err\<close> is the
  error that writing gives, with what is left in the file when it had been truncated before.\<close>

record mgr =
  mg_serverIndex :: "string \<rightharpoonup> nat"
  mg_file :: "json_file option"
  mg_write_err :: "(go_error \<times> json_file option) option"
  mg_pos :: nat

record env =
  e_cipher :: aead
  e_tape :: random
  e_regexp :: "string \<Rightarrow> (string \<Rightarrow> bool) option"

definition default_config :: "env \<Rightarrow> bytes \<Rightarrow> nat \<Rightarrow> config \<times> nat" where
  "default_config v key pos = (case encrypt (e_cipher v) (e_tape v) key ''pass'' pos of
       (Inr pw, pos1) \<Rightarrow> (\<lparr>cf_Servers = [\<lparr>sv_User = ''admin'', sv_Password = pw\<rparr>], cf_Key = key\<rparr>, pos1)
     | (Inl e, pos1) \<Rightarrow> (\<lparr>cf_Servers = [], cf_Key = key\<rparr>, pos1))"

definition new_config :: "env \<Rightarrow> nat \<Rightarrow> config \<times> nat" where
  "new_config v pos = (case generate_key (e_tape v) pos of (key, pos1) \<Rightarrow> default_config v key pos1)"

fun index_from :: "nat \<Rightarrow> server list \<Rightarrow> (string \<rightharpoonup> nat) \<Rightarrow> string \<rightharpoonup> nat" where
  "index_from i [] m = m"
| "index_from i (s # ss) m = index_from (Suc i) ss (m(sv_User s \<mapsto> i))"

definition make_index :: "config \<Rightarrow> mgr \<Rightarrow> mgr" where
  "make_index conf m = m\<lparr>mg_serverIndex := index_from 0 (cf_Servers conf) Map.empty\<rparr>"

definition get_config :: "env \<Rightarrow> mgr \<Rightarrow> config \<times> mgr" where
  "get_config v m = (case new_config v (mg_pos m) of (conf, pos) \<Rightarrow>
     let m1 = make_index conf (m\<lparr>mg_pos := pos\<rparr>) in
     (case mg_file m of
       None \<Rightarrow> (conf, m1)
     | Some j \<Rightarrow> (case json_decode j conf of (err, conf1) \<Rightarrow>
         (case (if cf_Key conf1 = [] then generate_key (e_tape v) pos else (cf_Key conf1, pos)) of (key, pos1) \<Rightarrow>
           let conf2 = conf1\<lparr>cf_Key := key\<rparr> in (conf2, make_index conf2 (m1\<lparr>mg_pos := pos1\<rparr>))))))"

definition put_config :: "config \<Rightarrow> mgr \<Rightarrow> go_error option \<times> mgr" where
  "put_config conf m = (case mg_write_err m of
       Some (e, None) \<Rightarrow> (Some e, m)
     | Some (e, Some torn) \<Rightarrow> (Some e, m\<lparr>mg_file := Some torn\<rparr>)
     | None \<Rightarrow> (None, m\<lparr>mg_file := Some (json_encode conf)\<rparr>))"

section \<open>The statements\<close>

fun insert_loop ::
  "env \<Rightarrow> server list \<Rightarrow> nat \<Rightarrow> config \<Rightarrow> mgr \<Rightarrow> (nat \<times> go_error option) \<times> config \<times> mgr" where
  "insert_loop v [] n conf m = ((n, None), conf, m)"
| "insert_loop v (s # ss) n conf m =
     (if mg_serverIndex m (sv_User s) \<noteq> None
      then ((n, Some (Errorf ''allready exists proxyUser:%s'' (sv_User s))), conf, m)
      else case encrypt (e_cipher v) (e_tape v) (cf_Key conf) (sv_Password s) (mg_pos m) of
        (Inl e, pos) \<Rightarrow> ((n, Some e), conf, m\<lparr>mg_pos := pos\<rparr>)
      | (Inr pw, pos) \<Rightarrow>
          let conf1 = conf\<lparr>cf_Servers := cf_Servers conf @ [s\<lparr>sv_Password := pw\<rparr>]\<rparr> in
          insert_loop v ss (n + 1) conf1
            (m\<lparr>mg_pos := pos, mg_serverIndex := (mg_serverIndex m)(sv_User s \<mapsto> length (cf_Servers conf1) - 1)\<rparr>))"

definition insert_servers :: "env \<Rightarrow> query \<Rightarrow> config \<Rightarrow> mgr \<Rightarrow> (nat \<times> go_error option) \<times> config \<times> mgr" where
  "insert_servers v p conf m = (case columns_to_config p of
       Inl e \<Rightarrow> ((0, Some e), conf, m)
     | Inr servers \<Rightarrow> insert_loop v servers 0 conf m)"

text \<open>An update stores through the index; a position outside the slice is a panic.\<close>

fun update_loop ::
  "env \<Rightarrow> query \<Rightarrow> server list \<Rightarrow> nat \<Rightarrow> config \<Rightarrow> mgr \<Rightarrow> ((nat \<times> go_error option) \<times> config \<times> mgr) outcome" where
  "update_loop v p [] n conf m = Returns ((n, None), conf, m)"
| "update_loop v p (u # us) n conf m = (case mg_serverIndex m (sv_User u) of
       None \<Rightarrow> Returns ((n, Some (Errorf ''proxyUser:%s not found'' (sv_User u))), conf, m)
     | Some i \<Rightarrow> (case update_columns p u of
         Inl (e, s) \<Rightarrow> Returns ((n, Some e), conf, m)
       | Inr s \<Rightarrow> (case encrypt (e_cipher v) (e_tape v) (cf_Key conf) (sv_Password s) (mg_pos m) of
           (Inl e, pos) \<Rightarrow> Returns ((n, Some e), conf, m\<lparr>mg_pos := pos\<rparr>)
         | (Inr pw, pos) \<Rightarrow>
             (if length (cf_Servers conf) \<le> i then Panics ''index out of range''
              else update_loop v p us (n + 1)
                (conf\<lparr>cf_Servers := (cf_Servers conf)[i := s\<lparr>sv_Password := pw\<rparr>]\<rparr>) (m\<lparr>mg_pos := pos\<rparr>)))))"

definition update_servers ::
  "env \<Rightarrow> query \<Rightarrow> config \<Rightarrow> mgr \<Rightarrow> ((nat \<times> go_error option) \<times> config \<times> mgr) outcome" where
  "update_servers v p conf m = (case where_columns_to_config p (cf_Servers conf) of
       Inl e \<Rightarrow> Returns ((0, Some e), conf, m)
     | Inr [] \<Rightarrow> Returns ((0, Some (Errorf ''no update data'' [])), conf, m)
     | Inr rows \<Rightarrow> update_loop v p rows 0 conf m)"

fun delete_loop :: "server list \<Rightarrow> server list \<Rightarrow> server list \<Rightarrow> nat \<Rightarrow> server list \<times> nat" where
  "delete_loop rows [] res n = (res, n)"
| "delete_loop rows (s # ss) res n =
     (if list_ex (\<lambda>u. sv_User s = sv_User u) rows then delete_loop rows ss res (n + 1)
      else delete_loop rows ss (res @ [s]) n)"

definition delete_servers :: "query \<Rightarrow> config \<Rightarrow> (nat \<times> go_error option) \<times> config" where
  "delete_servers p conf = (case where_columns_to_config p (cf_Servers conf) of
       Inl e \<Rightarrow> ((0, Some e), conf)
     | Inr [] \<Rightarrow> ((0, Some (Errorf ''not found data'' [])), conf)
     | Inr rows \<Rightarrow> (case delete_loop rows (cf_Servers conf) [] 0 of (res, n) \<Rightarrow>
         ((n, None), conf\<lparr>cf_Servers := res\<rparr>)))"

definition store :: "nat \<times> go_error option \<Rightarrow> config \<Rightarrow> mgr \<Rightarrow> (nat \<times> go_error option) \<times> mgr" where
  "store r conf m = (case r of
       (n, Some e) \<Rightarrow> ((n, Some e), m)
     | (n, None) \<Rightarrow> (case put_config conf m of (e, m1) \<Rightarrow> ((n, e), m1)))"

definition Insert :: "env \<Rightarrow> query \<Rightarrow> mgr \<Rightarrow> (nat \<times> go_error option) \<times> mgr" where
  "Insert v p m = (case get_config v m of (conf, m1) \<Rightarrow>
     (case insert_servers v p conf m1 of (r, conf1, m2) \<Rightarrow> store r conf1 m2))"

definition Update :: "env \<Rightarrow> query \<Rightarrow> mgr \<Rightarrow> ((nat \<times> go_error option) \<times> mgr) outcome" where
  "Update v p m = (case get_config v m of (conf, m1) \<Rightarrow>
     bind_outcome (update_servers v p conf m1) (\<lambda>(r, conf1, m2). Returns (store r conf1 m2)))"

definition Delete :: "env \<Rightarrow> query \<Rightarrow> mgr \<Rightarrow> (nat \<times> go_error option) \<times> mgr" where
  "Delete v p m = (case get_config v m of (conf, m1) \<Rightarrow>
     (case delete_servers p conf of (r, conf1) \<Rightarrow> store r conf1 m1))"

definition Select :: "env \<Rightarrow> query \<Rightarrow> mgr \<Rightarrow> (go_error + string list \<times> string list list) \<times> mgr" where
  "Select v p m = (case get_config v m of (conf, m1) \<Rightarrow>
     (case where_columns_to_config p (cf_Servers conf) of
       Inl e \<Rightarrow> (Inl e, m1)
     | Inr rows \<Rightarrow> (Inr (select_resultset p rows), m1)))"

section \<open>Looking a password up\<close>

fun get_server :: "env \<Rightarrow> server list \<Rightarrow> string \<Rightarrow> server option" where
  "get_server v [] username = None"
| "get_server v (s # ss) username = (case e_regexp v (''^'' @ sv_User s @ ''$'') of
       None \<Rightarrow> (if sv_User s = username then Some s else get_server v ss username)
     | Some matches \<Rightarrow> (if matches username then Some s else get_server v ss username))"

definition GetPassword :: "env \<Rightarrow> string \<Rightarrow> mgr \<Rightarrow> (go_error + string) outcome \<times> mgr" where
  "GetPassword v username m = (case get_config v m of (conf, m1) \<Rightarrow>
     (case get_server v (cf_Servers conf) username of
       None \<Rightarrow> (Returns (Inl (Errorf ''not found'' [])), m1)
     | Some s \<Rightarrow> (decrypt (e_cipher v) (cf_Key conf) (sv_Password s), m1)))"

section \<open>What the operations do\<close>

text \<open>A file that the program has written.\<close>

definition stored :: "config \<Rightarrow> mgr \<Rightarrow> bool" where
  "stored conf m \<longleftrightarrow> mg_file m = Some (json_encode conf) \<and> length (cf_Key conf) \<in> {16, 24, 32}"

definition users_unique :: "config \<Rightarrow> bool" where
  "users_unique conf \<longleftrightarrow> distinct (map sv_User (cf_Servers conf))"

definition users_of :: "server list \<Rightarrow> string set" where
  "users_of ss = sv_User ` set ss"

lemma get_config_stored:
  assumes "stored conf m"
  shows "\<exists>pos. get_config v m = (conf, m\<lparr>mg_pos := pos, mg_serverIndex := index_from 0 (cf_Servers conf) Map.empty\<rparr>)"
proof -
  have "cf_Key conf \<noteq> []" using assms by (auto simp: stored_def)
  then show ?thesis
    using assms by (auto simp: stored_def get_config_def json_encode_def json_decode_def make_index_def
        Let_def split: prod.split)
qed

lemma get_config_file [simp]: "mg_file (snd (get_config v m)) = mg_file m"
  by (auto simp: get_config_def make_index_def Let_def split: prod.split option.split)

lemma get_config_write_err [simp]: "mg_write_err (snd (get_config v m)) = mg_write_err m"
  by (auto simp: get_config_def make_index_def Let_def split: prod.split option.split)

lemma index_from_dom: "dom (index_from i ss m) = dom m \<union> users_of ss"
  by (induction i ss m rule: index_from.induct) (auto simp: users_of_def simp del: fun_upd_apply)

lemma index_from_other: "u \<notin> users_of ss \<Longrightarrow> index_from i ss m u = m u"
  by (induction i ss m rule: index_from.induct) (auto simp: users_of_def)

lemma index_from_nth:
  "distinct (map sv_User ss) \<Longrightarrow> k < length ss \<Longrightarrow> index_from i ss m (sv_User (ss ! k)) = Some (i + k)"
proof (induction i ss m arbitrary: k rule: index_from.induct)
  case (2 i s ss m)
  show ?case
  proof (cases k)
    case 0
    have "sv_User s \<notin> users_of ss" using "2.prems"(1) by (auto simp: users_of_def)
    with 0 show ?thesis by (simp add: index_from_other)
  next
    case (Suc j)
    with 2 show ?thesis by (simp del: fun_upd_apply)
  qed
qed simp

subsection \<open>Insert\<close>

definition stored_as :: "env \<Rightarrow> bytes \<Rightarrow> server \<Rightarrow> server \<Rightarrow> bool" where
  "stored_as v key s t \<longleftrightarrow> sv_User t = sv_User s \<and> decrypt (e_cipher v) key (sv_Password t) = Returns (Inr (sv_Password s))"

lemma encrypt_ok:
  assumes "opens_sealed c" and "length key \<in> {16, 24, 32}"
  shows "\<exists>s. encrypt c tape key data pos = (Inr s, pos + nonce_size) \<and> decrypt c key s = Returns (Inr data)"
proof -
  obtain s where "encrypt c tape key data pos = (Inr s, pos + nonce_size)"
    using assms(2) by (simp add: encrypt_def new_cipher_def Let_def)
  with decrypt_encrypt [OF assms(1) this] show ?thesis by blast
qed

lemma insert_loop_ok:
  assumes "opens_sealed (e_cipher v)" and "length (cf_Key conf) \<in> {16, 24, 32}"
    and "distinct (map sv_User ss)" and "users_of ss \<inter> dom (mg_serverIndex m) = {}"
  shows "\<exists>new m'. insert_loop v ss n conf m =
      ((n + length ss, None), conf\<lparr>cf_Servers := cf_Servers conf @ new\<rparr>, m') \<and>
    list_all2 (stored_as v (cf_Key conf)) ss new \<and> mg_file m' = mg_file m \<and> mg_write_err m' = mg_write_err m"
  using assms(2-4)
proof (induction ss arbitrary: n conf m)
  case Nil
  then show ?case by simp
next
  case (Cons s ss)
  have fresh: "mg_serverIndex m (sv_User s) = None" using Cons.prems(3) by (auto simp: users_of_def)
  from encrypt_ok [OF assms(1) Cons.prems(1)] obtain pw where
    pw: "encrypt (e_cipher v) (e_tape v) (cf_Key conf) (sv_Password s) (mg_pos m) = (Inr pw, mg_pos m + nonce_size)"
      "decrypt (e_cipher v) (cf_Key conf) pw = Returns (Inr (sv_Password s))" by blast
  let ?c = "conf\<lparr>cf_Servers := cf_Servers conf @ [s\<lparr>sv_Password := pw\<rparr>]\<rparr>"
  let ?m = "m\<lparr>mg_pos := mg_pos m + nonce_size,
    mg_serverIndex := (mg_serverIndex m)(sv_User s \<mapsto> length (cf_Servers ?c) - 1)\<rparr>"
  have "users_of ss \<inter> dom (mg_serverIndex ?m) = {}"
    using Cons.prems(2,3) by (auto simp: users_of_def)
  moreover have "length (cf_Key ?c) \<in> {16, 24, 32}" "distinct (map sv_User ss)" using Cons.prems by simp_all
  ultimately obtain new m' where
    r: "insert_loop v ss (n + 1) ?c ?m = ((n + 1 + length ss, None), ?c\<lparr>cf_Servers := cf_Servers ?c @ new\<rparr>, m')"
      "list_all2 (stored_as v (cf_Key ?c)) ss new" "mg_file m' = mg_file ?m" "mg_write_err m' = mg_write_err ?m"
    using Cons.IH [of ?c ?m "n + 1"] by blast
  have "insert_loop v (s # ss) n conf m =
      ((n + length (s # ss), None), conf\<lparr>cf_Servers := cf_Servers conf @ s\<lparr>sv_Password := pw\<rparr> # new\<rparr>, m')"
    using fresh pw(1) r(1) by (simp add: Let_def del: fun_upd_apply)
  moreover have "list_all2 (stored_as v (cf_Key conf)) (s # ss) (s\<lparr>sv_Password := pw\<rparr> # new)"
    using pw(2) r(2) by (simp add: stored_as_def)
  moreover have "mg_file m' = mg_file m" "mg_write_err m' = mg_write_err m" using r(3,4) by simp_all
  ultimately show ?case by blast
qed

lemma insert_loop_frame:
  "insert_loop v ss n conf m = (r, conf', m') \<Longrightarrow>
   mg_file m' = mg_file m \<and> mg_write_err m' = mg_write_err m \<and> cf_Key conf' = cf_Key conf \<and>
   (\<exists>new. cf_Servers conf' = cf_Servers conf @ new \<and> distinct (map sv_User new) \<and>
      users_of new \<inter> dom (mg_serverIndex m) = {})"
proof (induction v ss n conf m rule: insert_loop.induct)
  case (1 v n conf m)
  then show ?case by (auto simp: users_of_def)
next
  case (2 v s ss n conf m)
  show ?case
  proof (cases "mg_serverIndex m (sv_User s) \<noteq> None")
    case True
    with "2.prems" show ?thesis by (auto simp: users_of_def)
  next
    case False
    obtain x pos where e: "encrypt (e_cipher v) (e_tape v) (cf_Key conf) (sv_Password s) (mg_pos m) = (x, pos)"
      by (metis prod.collapse)
    show ?thesis
    proof (cases x)
      case (Inl y)
      with "2.prems" False e show ?thesis by (auto simp: users_of_def)
    next
      case (Inr pw)
      let ?c = "conf\<lparr>cf_Servers := cf_Servers conf @ [s\<lparr>sv_Password := pw\<rparr>]\<rparr>"
      let ?m = "m\<lparr>mg_pos := pos, mg_serverIndex := (mg_serverIndex m)(sv_User s \<mapsto> length (cf_Servers ?c) - 1)\<rparr>"
      have run: "insert_loop v ss (n + 1) ?c ?m = (r, conf', m')"
        using "2.prems" False e Inr by (simp add: Let_def)
      from "2.IH" [OF False e [symmetric] Inr refl run] obtain new where
        new: "mg_file m' = mg_file m" "mg_write_err m' = mg_write_err m" "cf_Key conf' = cf_Key conf"
          "cf_Servers conf' = cf_Servers ?c @ new" "distinct (map sv_User new)"
          "users_of new \<inter> dom (mg_serverIndex ?m) = {}" by (auto simp del: fun_upd_apply)
      then show ?thesis
        using False by (intro conjI exI [of _ "s\<lparr>sv_Password := pw\<rparr> # new"]) (auto simp: users_of_def simp del: fun_upd_apply)
    qed
  qed
qed

subsection \<open>Delete and update\<close>

lemma delete_loop_filter:
  "delete_loop rows ss res n = (res @ filter (\<lambda>s. sv_User s \<notin> users_of rows) ss,
     n + length (filter (\<lambda>s. sv_User s \<in> users_of rows) ss))"
  by (induction rows ss res n rule: delete_loop.induct) (auto simp: list_ex_iff users_of_def)

lemma update_loop_frame:
  "update_loop v p us n conf m = Returns (r, conf', m') \<Longrightarrow>
   mg_file m' = mg_file m \<and> mg_write_err m' = mg_write_err m \<and> cf_Key conf' = cf_Key conf \<and>
   length (cf_Servers conf') = length (cf_Servers conf)"
proof (induction v p us n conf m rule: update_loop.induct)
  case (2 v p u us n conf m)
  show ?case
  proof (cases "mg_serverIndex m (sv_User u)")
    case None
    with "2.prems" show ?thesis by auto
  next
    case (Some i)
    show ?thesis
    proof (cases "update_columns p u")
      case (Inl y)
      with "2.prems" Some show ?thesis by (cases y) auto
    next
      case (Inr s)
      obtain x pos where e: "encrypt (e_cipher v) (e_tape v) (cf_Key conf) (sv_Password s) (mg_pos m) = (x, pos)"
        by (metis prod.collapse)
      show ?thesis
      proof (cases x)
        case (Inl y)
        with "2.prems" Some Inr e show ?thesis by auto
      next
        case pw: (Inr pw)
        from "2.prems" Some Inr e pw have len: "\<not> length (cf_Servers conf) \<le> i" by (auto split: if_splits)
        with "2.prems" Some Inr e pw have run: "update_loop v p us (n + 1)
            (conf\<lparr>cf_Servers := (cf_Servers conf)[i := s\<lparr>sv_Password := pw\<rparr>]\<rparr>) (m\<lparr>mg_pos := pos\<rparr>) = Returns (r, conf', m')"
          by simp
        from "2.IH" [OF Some Inr e [symmetric] pw len run] show ?thesis by simp
      qed
    qed
  qed
qed auto

text \<open>A write that fails before the file is truncated leaves it as it was.\<close>

definition clean_writes :: "mgr \<Rightarrow> bool" where
  "clean_writes m \<longleftrightarrow> (\<forall>e torn. mg_write_err m \<noteq> Some (e, Some torn))"

lemma clean_writes_same: "mg_write_err m' = mg_write_err m \<Longrightarrow> clean_writes m \<Longrightarrow> clean_writes m'"
  by (simp add: clean_writes_def)

lemma failed_write_tears_the_file:
  "mg_write_err m = Some (e, Some torn) \<Longrightarrow> store (n, None) conf m = ((n, Some e), m\<lparr>mg_file := Some torn\<rparr>)"
  by (simp add: store_def put_config_def)

lemma store_error:
  "store r conf m = (r', m') \<Longrightarrow> snd r' \<noteq> None \<Longrightarrow> clean_writes m \<Longrightarrow> mg_file m' = mg_file m"
  by (auto simp: store_def put_config_def clean_writes_def split: prod.splits option.splits)

lemma store_ok:
  "store r conf m = ((n, None), m') \<Longrightarrow> r = (n, None) \<and> m' = m\<lparr>mg_file := Some (json_encode conf)\<rparr>"
  by (auto simp: store_def put_config_def split: prod.splits option.splits)

lemma store_written:
  "mg_write_err m = None \<Longrightarrow> store (n, None) conf m = ((n, None), m\<lparr>mg_file := Some (json_encode conf)\<rparr>)"
  by (simp add: store_def put_config_def)

lemma insert_servers_frame:
  assumes "insert_servers v p conf m = (r, conf', m')"
  shows "mg_file m' = mg_file m \<and> mg_write_err m' = mg_write_err m \<and> cf_Key conf' = cf_Key conf \<and>
   (\<exists>new. cf_Servers conf' = cf_Servers conf @ new \<and> distinct (map sv_User new) \<and>
      users_of new \<inter> dom (mg_serverIndex m) = {})"
proof (cases "columns_to_config p")
  case (Inl e)
  with assms show ?thesis by (auto simp: insert_servers_def users_of_def)
next
  case (Inr ss)
  with assms insert_loop_frame show ?thesis by (simp add: insert_servers_def)
qed

lemma update_servers_frame:
  assumes "update_servers v p conf m = Returns (r, conf', m')"
  shows "mg_file m' = mg_file m \<and> mg_write_err m' = mg_write_err m \<and> cf_Key conf' = cf_Key conf \<and>
   length (cf_Servers conf') = length (cf_Servers conf)"
proof (cases "where_columns_to_config p (cf_Servers conf)")
  case (Inl e)
  with assms show ?thesis by (auto simp: update_servers_def)
next
  case (Inr rows)
  show ?thesis
  proof (cases rows)
    case Nil
    with Inr assms show ?thesis by (auto simp: update_servers_def)
  next
    case (Cons u us)
    with Inr assms have "update_loop v p (u # us) 0 conf m = Returns (r, conf', m')"
      by (simp only: update_servers_def sum.case list.case)
    then show ?thesis by (rule update_loop_frame)
  qed
qed

lemma where_rows_subset:
  assumes "where_columns_to_config p servers = Inr rows"
  shows "set rows \<subseteq> set servers"
proof -
  have "set (where_loop i cs vals servers res) \<subseteq> set servers" if "set res \<subseteq> set servers" for i cs vals res
    using that by (induction i cs vals servers res rule: where_loop.induct) (auto simp: selection_def)
  then have "set (where_loop 0 (q_WhereColumns p) (q_WhereValues p) servers []) \<subseteq> set servers" by simp
  then show ?thesis using assms by (auto simp: where_columns_to_config_def split: if_splits)
qed

section \<open>Properties\<close>

definition patterns_match :: "env \<Rightarrow> server list \<Rightarrow> bool" where
  "patterns_match v ss \<longleftrightarrow> (\<forall>s \<in> set ss. \<exists>f. e_regexp v (''^'' @ sv_User s @ ''$'') = Some f \<and>
     (\<forall>u. f u \<longleftrightarrow> u = sv_User s))"

lemma get_server_literal:
  "patterns_match v ss \<Longrightarrow> distinct (map sv_User ss) \<Longrightarrow> s \<in> set ss \<Longrightarrow> get_server v ss (sv_User s) = Some s"
proof (induction ss)
  case (Cons t ss)
  then obtain f where f: "e_regexp v (''^'' @ sv_User t @ ''$'') = Some f" "\<forall>u. f u \<longleftrightarrow> u = sv_User t"
    by (auto simp: patterns_match_def)
  show ?case
  proof (cases "s = t")
    case True
    with f show ?thesis by simp
  next
    case False
    then have "s \<in> set ss" using Cons.prems(3) by simp
    moreover from this have "sv_User s \<noteq> sv_User t" using Cons.prems(2) by (metis distinct.simps(2) image_eqI list.set_map list.simps(9))
    ultimately show ?thesis using f Cons by (simp add: patterns_match_def)
  qed
qed simp

lemma GetPassword_stored:
  assumes "stored conf m" and "patterns_match v (cf_Servers conf)" and "users_unique conf"
    and "s \<in> set (cf_Servers conf)"
  shows "fst (GetPassword v (sv_User s) m) = decrypt (e_cipher v) (cf_Key conf) (sv_Password s)"
proof -
  from get_config_stored [OF assms(1), of v] obtain m1 where "get_config v m = (conf, m1)" by blast
  with get_server_literal [OF assms(2) _ assms(4)] assms(3) show ?thesis
    by (simp add: GetPassword_def users_unique_def)
qed

text \<open>After an insert the proxy knows the new users.  A statement for users that are not there
  yet, on a file that the program has written, appends them in order after the users it had,
  which it leaves alone, reports their number, and every new user can then log in with exactly
  the password of the statement, if no earlier pattern matches the name.\<close>

lemma insert_ok:
  assumes "opens_sealed (e_cipher v)" and "stored conf m" and "mg_write_err m = None"
    and "columns_to_config p = Inr ss" and "distinct (map sv_User (cf_Servers conf @ ss))"
  shows "\<exists>new m'. Insert v p m = ((length ss, None), m') \<and>
    stored (conf\<lparr>cf_Servers := cf_Servers conf @ new\<rparr>) m' \<and> map sv_User new = map sv_User ss \<and>
    (patterns_match v (cf_Servers conf @ new) \<longrightarrow>
      (\<forall>s \<in> set ss. fst (GetPassword v (sv_User s) m') = Returns (Inr (sv_Password s))))"
proof -
  from get_config_stored [OF assms(2), of v] obtain pos where
    g: "get_config v m = (conf, m\<lparr>mg_pos := pos, mg_serverIndex := index_from 0 (cf_Servers conf) Map.empty\<rparr>)"
      (is "_ = (conf, ?m1)") by blast
  have key: "length (cf_Key conf) \<in> {16, 24, 32}" using assms(2) by (simp add: stored_def)
  have d: "distinct (map sv_User ss)" "users_of ss \<inter> dom (mg_serverIndex ?m1) = {}"
    using assms(5) by (auto simp: index_from_dom users_of_def)
  from insert_loop_ok [OF assms(1) key d, of 0] obtain new m2 where
    i: "insert_loop v ss 0 conf ?m1 = ((length ss, None), conf\<lparr>cf_Servers := cf_Servers conf @ new\<rparr>, m2)"
      "list_all2 (stored_as v (cf_Key conf)) ss new" "mg_file m2 = mg_file ?m1" "mg_write_err m2 = mg_write_err ?m1"
    by auto
  let ?c = "conf\<lparr>cf_Servers := cf_Servers conf @ new\<rparr>"
  let ?m' = "m2\<lparr>mg_file := Some (json_encode ?c)\<rparr>"
  have run: "Insert v p m = ((length ss, None), ?m')"
    using g assms(3,4) i(1,4) by (simp add: Insert_def insert_servers_def store_written)
  have st: "stored ?c ?m'" using key by (simp add: stored_def)
  have names: "map sv_User new = map sv_User ss"
    using i(2) by (auto simp: list_all2_conv_all_nth stored_as_def intro: nth_equalityI)
  have "fst (GetPassword v (sv_User s) ?m') = Returns (Inr (sv_Password s))"
    if pm: "patterns_match v (cf_Servers conf @ new)" and s: "s \<in> set ss" for s
  proof -
    from s i(2) obtain t where t: "t \<in> set new" "stored_as v (cf_Key conf) s t"
      by (metis in_set_conv_nth list_all2_conv_all_nth)
    have "users_unique ?c" using assms(5) names by (simp add: users_unique_def)
    with GetPassword_stored [OF st, of v t] pm t show ?thesis by (simp add: stored_as_def)
  qed
  with run st names show ?thesis by blast
qed

definition toy_env :: env where
  "toy_env = \<lparr>e_cipher = toy_aead, e_tape = toy_tape, e_regexp = (\<lambda>p. Some (\<lambda>u. p = ''^'' @ u @ ''$''))\<rparr>"

definition toy_config :: config where
  "toy_config = \<lparr>cf_Servers = [\<lparr>sv_User = ''admin'', sv_Password = ''x''\<rparr>], cf_Key = replicate 32 7\<rparr>"

definition toy_mgr :: mgr where
  "toy_mgr = \<lparr>mg_serverIndex = Map.empty, mg_file = Some (json_encode toy_config), mg_write_err = None, mg_pos = 0\<rparr>"

lemma stored_toy: "stored toy_config toy_mgr"
  by (simp add: stored_def toy_mgr_def toy_config_def)

lemma patterns_match_toy: "patterns_match toy_env ss"
  by (auto simp: patterns_match_def toy_env_def)



lemma index_from_sound:
  "index_from i ss m u = Some k \<Longrightarrow> m u = Some k \<or> i \<le> k \<and> k < i + length ss \<and> sv_User (ss ! (k - i)) = u"
proof (induction i ss m rule: index_from.induct)
  case (2 i s ss m)
  from "2.IH" "2.prems" have "(m(sv_User s \<mapsto> i)) u = Some k \<or>
      Suc i \<le> k \<and> k < Suc i + length ss \<and> sv_User (ss ! (k - Suc i)) = u"
    by (simp del: fun_upd_apply)
  then show ?case
  proof
    assume "(m(sv_User s \<mapsto> i)) u = Some k"
    then show ?thesis by (auto split: if_splits)
  next
    assume a: "Suc i \<le> k \<and> k < Suc i + length ss \<and> sv_User (ss ! (k - Suc i)) = u"
    then have "k - i = Suc (k - Suc i)" by (metis Suc_diff_le diff_Suc_Suc)
    with a show ?thesis by simp
  qed
qed simp

text \<open>The index gives, for every user, a position at which that user is.\<close>

definition index_ok :: "config \<Rightarrow> mgr \<Rightarrow> bool" where
  "index_ok conf m \<longleftrightarrow> (\<forall>u k. mg_serverIndex m u = Some k \<longrightarrow>
     k < length (cf_Servers conf) \<and> sv_User (cf_Servers conf ! k) = u)"

lemma index_ok_made:
  "index_ok conf (m\<lparr>mg_pos := pos, mg_serverIndex := index_from 0 (cf_Servers conf) Map.empty\<rparr>)"
  using index_from_sound [of 0 "cf_Servers conf" Map.empty] by (auto simp: index_ok_def)

text \<open>An update that names no user leaves the users, in their order.\<close>

lemma fill_server_user:
  "\<forall>c \<in> set cols. to_lower c \<noteq> ''user'' \<Longrightarrow> fill_server cols vals s = Inr s' \<Longrightarrow> sv_User s' = sv_User s"
  by (induction cols vals s rule: fill_server.induct) (auto split: if_splits)

lemma update_loop_users:
  assumes "index_ok conf m" and "\<forall>c \<in> set (q_Columns (default_columns p)). to_lower c \<noteq> ''user''"
    and "update_loop v p us n conf m = Returns (r, conf', m')"
  shows "map sv_User (cf_Servers conf') = map sv_User (cf_Servers conf)"
  using assms
proof (induction v p us n conf m rule: update_loop.induct)
  case (2 v p u us n conf m)
  show ?case
  proof (cases "mg_serverIndex m (sv_User u)")
    case None
    with "2.prems" show ?thesis by auto
  next
    case (Some i)
    show ?thesis
    proof (cases "update_columns p u")
      case (Inl y)
      with "2.prems" Some show ?thesis by (cases y) auto
    next
      case (Inr s)
      obtain x pos where e: "encrypt (e_cipher v) (e_tape v) (cf_Key conf) (sv_Password s) (mg_pos m) = (x, pos)"
        by (metis prod.collapse)
      show ?thesis
      proof (cases x)
        case (Inl y)
        with "2.prems" Some Inr e show ?thesis by auto
      next
        case pw: (Inr pw)
        let ?c = "conf\<lparr>cf_Servers := (cf_Servers conf)[i := s\<lparr>sv_Password := pw\<rparr>]\<rparr>"
        have i: "i < length (cf_Servers conf)" "sv_User (cf_Servers conf ! i) = sv_User u"
          using "2.prems"(1) Some by (auto simp: index_ok_def)
        have s: "sv_User s = sv_User u"
          using fill_server_user "2.prems"(2) Inr by (simp add: update_columns_def)
        have same: "map sv_User (cf_Servers ?c) = map sv_User (cf_Servers conf)"
          using i s by (simp add: map_update list_update_same_conv)
        have iok: "index_ok ?c (m\<lparr>mg_pos := pos\<rparr>)"
          using "2.prems"(1) i s by (auto simp: index_ok_def nth_list_update)
        have len: "\<not> length (cf_Servers conf) \<le> i" using i by simp
        have run: "update_loop v p us (n + 1) ?c (m\<lparr>mg_pos := pos\<rparr>) = Returns (r, conf', m')"
          using "2.prems"(3) Some Inr e pw len by simp
        from "2.IH" [OF Some Inr e [symmetric] pw len iok "2.prems"(2) run] same show ?thesis by simp
      qed
    qed
  qed
qed auto

lemma update_servers_users:
  assumes "update_servers v p conf m = Returns (q, conf1, m2)" and "index_ok conf m"
    and "\<forall>c \<in> set (q_Columns (default_columns p)). to_lower c \<noteq> ''user''"
  shows "map sv_User (cf_Servers conf1) = map sv_User (cf_Servers conf)"
proof (cases "where_columns_to_config p (cf_Servers conf)")
  case (Inl e)
  with assms(1) show ?thesis by (auto simp: update_servers_def)
next
  case (Inr rows)
  show ?thesis
  proof (cases rows)
    case Nil
    with Inr assms(1) show ?thesis by (auto simp: update_servers_def)
  next
    case (Cons s ss)
    with Inr assms(1) have "update_loop v p (s # ss) 0 conf m = Returns (q, conf1, m2)"
      by (simp only: update_servers_def sum.case list.case)
    from update_loop_users [OF assms(2,3) this] show ?thesis .
  qed
qed

lemma store_unique:
  assumes "store q conf1 m2 = (r, m')" and "mg_file m2 = mg_file m" and "mg_write_err m2 = mg_write_err m"
    and "cf_Key conf1 = cf_Key conf" and "users_unique conf1" and "stored conf m" and "users_unique conf" and "clean_writes m"
  shows "\<exists>conf'. stored conf' m' \<and> users_unique conf'"
  using assms by (auto simp: store_def put_config_def stored_def clean_writes_def split: prod.splits option.splits)



lemma filter_key_unique:
  "distinct (map f xs) \<Longrightarrow> i < length xs \<Longrightarrow> filter (\<lambda>x. f x = f (xs ! i)) xs = [xs ! i]"
proof (induction xs arbitrary: i)
  case (Cons x xs)
  show ?case
  proof (cases i)
    case 0
    have "\<forall>y \<in> set xs. f y \<noteq> f x"
      using Cons.prems(1) by (metis distinct.simps(2) image_eqI list.set_map list.simps(9))
    then have "filter (\<lambda>y. f y = f x) xs = []" by (simp add: filter_empty_conv)
    with 0 show ?thesis by simp
  next
    case (Suc j)
    then have "f x \<noteq> f (xs ! j)"
      using Cons.prems by (metis Suc_less_eq distinct.simps(2) image_eqI length_Cons list.set_map list.simps(9) nth_mem)
    with Suc Cons show ?thesis by simp
  qed
qed simp

text \<open>The query of \<open>where user = u\<close>.\<close>

definition where_user :: "query \<Rightarrow> string \<Rightarrow> bool" where
  "where_user p u \<longleftrightarrow> q_WhereColumns p = [''user''] \<and> q_WhereValues p = [u] \<and> q_WhereOp p = EQ"

lemma to_lower_names: "to_lower ''user'' = ''user''" "to_lower ''password'' = ''password''"
  by code_simp+

lemma where_user_rows:
  assumes "where_user p (sv_User (ss ! i))" and "distinct (map sv_User ss)" and "i < length ss"
  shows "where_columns_to_config p ss = Inr [ss ! i]"
  using assms filter_key_unique [OF assms(2,3)]
  by (simp add: where_columns_to_config_def where_user_def to_lower_names selection_def get_string_def)

lemma update_one:
  assumes "opens_sealed (e_cipher v)" and "stored conf m" and "users_unique conf" and "mg_write_err m = None"
    and "i < length (cf_Servers conf)" and "where_user p (sv_User (cf_Servers conf ! i))"
    and "update_columns p (cf_Servers conf ! i) = Inr s'"
  shows "\<exists>t m'. Update v p m = Returns ((1, None), m') \<and>
    stored (conf\<lparr>cf_Servers := (cf_Servers conf)[i := t]\<rparr>) m' \<and> stored_as v (cf_Key conf) s' t"
proof -
  from get_config_stored [OF assms(2), of v] obtain pos where
    g: "get_config v m = (conf, m\<lparr>mg_pos := pos, mg_serverIndex := index_from 0 (cf_Servers conf) Map.empty\<rparr>)"
      (is "_ = (conf, ?m1)") by blast
  have key: "length (cf_Key conf) \<in> {16, 24, 32}" using assms(2) by (simp add: stored_def)
  from encrypt_ok [OF assms(1) key] obtain pw where
    pw: "encrypt (e_cipher v) (e_tape v) (cf_Key conf) (sv_Password s') pos = (Inr pw, pos + nonce_size)"
      "decrypt (e_cipher v) (cf_Key conf) pw = Returns (Inr (sv_Password s'))" by blast
  let ?t = "s'\<lparr>sv_Password := pw\<rparr>"
  let ?c = "conf\<lparr>cf_Servers := (cf_Servers conf)[i := ?t]\<rparr>"
  have ix: "mg_serverIndex ?m1 (sv_User (cf_Servers conf ! i)) = Some i"
    using index_from_nth [of "cf_Servers conf" i 0] assms(3,5) by (simp add: users_unique_def)
  have "where_columns_to_config p (cf_Servers conf) = Inr [cf_Servers conf ! i]"
    using where_user_rows assms(3,5,6) by (simp add: users_unique_def)
  then have "update_servers v p conf ?m1 = Returns ((1, None), ?c, ?m1\<lparr>mg_pos := pos + nonce_size\<rparr>)"
    using ix pw(1) assms(5,7) by (simp add: update_servers_def)
  then have "Update v p m = Returns ((1, None), ?m1\<lparr>mg_pos := pos + nonce_size, mg_file := Some (json_encode ?c)\<rparr>)"
    using g assms(4) by (simp add: Update_def store_written)
  moreover have "stored_as v (cf_Key conf) s' ?t" using pw(2) by (simp add: stored_as_def)
  ultimately show ?thesis using key by (intro exI [of _ ?t] exI conjI) (assumption | simp add: stored_def)+
qed

text \<open>C24: changing a password works.  \<open>UPDATE ... SET Password = pw WHERE User = u\<close> on a file with
  distinct users changes the password of that user to one that logs in with \<open>pw\<close>, and nothing
  else: the other users, their passwords and their order stay as they were.\<close>

theorem update_sets_password:
  assumes "opens_sealed (e_cipher v)" and "stored conf m" and "users_unique conf" and "mg_write_err m = None"
    and "i < length (cf_Servers conf)" and "where_user p (sv_User (cf_Servers conf ! i))"
    and "q_Columns p = [''password'']" and "q_Values p = [pw]"
  shows "\<exists>t m'. Update v p m = Returns ((1, None), m') \<and>
    stored (conf\<lparr>cf_Servers := (cf_Servers conf)[i := t]\<rparr>) m' \<and> sv_User t = sv_User (cf_Servers conf ! i) \<and>
    decrypt (e_cipher v) (cf_Key conf) (sv_Password t) = Returns (Inr pw)"
proof -
  have "update_columns p (cf_Servers conf ! i) = Inr ((cf_Servers conf ! i)\<lparr>sv_Password := pw\<rparr>)"
    using assms(7,8) by (simp add: update_columns_def default_columns_def to_lower_names)
  from update_one [OF assms(1-6) this] show ?thesis by (auto simp: stored_as_def)
qed

lemma where_user_admin: "where_user (new_query\<lparr>q_Columns := cs, q_Values := vs, q_WhereColumns := [''user''],
    q_WhereValues := [''admin''], q_WhereOp := EQ\<rparr>) (sv_User (cf_Servers toy_config ! 0))"
  by (simp add: where_user_def toy_config_def)

lemma toy_facts: "opens_sealed (e_cipher toy_env)" "users_unique toy_config" "mg_write_err toy_mgr = None"
  "0 < length (cf_Servers toy_config)"
  by (simp_all add: toy_env_def opens_sealed_toy users_unique_def toy_config_def toy_mgr_def)

theorem update_sets_password_witness:
  "\<exists>m'. Update toy_env (new_query\<lparr>q_Columns := [''password''], q_Values := [''new''], q_WhereColumns := [''user''],
     q_WhereValues := [''admin''], q_WhereOp := EQ\<rparr>) toy_mgr = Returns ((1, None), m')"
proof -
  let ?p = "new_query\<lparr>q_Columns := [''password''], q_Values := [''new''], q_WhereColumns := [''user''],
     q_WhereValues := [''admin''], q_WhereOp := EQ\<rparr>"
  have q: "q_Columns ?p = [''password'']" "q_Values ?p = [''new'']" by simp_all
  from update_sets_password [OF toy_facts(1) stored_toy toy_facts(2-4) where_user_admin q] show ?thesis by blast
qed

text \<open>C33: renaming a user destroys its password.  An update that does not assign the password column
  encrypts the stored ciphertext again; from then on the password of the renamed user is the old
  ciphertext, and the password itself no longer logs in.\<close>

theorem update_encrypts_the_ciphertext:
  assumes "opens_sealed (e_cipher v)" and "stored conf m" and "users_unique conf" and "mg_write_err m = None"
    and "i < length (cf_Servers conf)" and "where_user p (sv_User (cf_Servers conf ! i))"
    and "q_Columns p = [''user'']" and "q_Values p = [u]"
  shows "\<exists>t m'. Update v p m = Returns ((1, None), m') \<and>
    stored (conf\<lparr>cf_Servers := (cf_Servers conf)[i := t]\<rparr>) m' \<and> sv_User t = u \<and>
    decrypt (e_cipher v) (cf_Key conf) (sv_Password t) = Returns (Inr (sv_Password (cf_Servers conf ! i)))"
proof -
  have "update_columns p (cf_Servers conf ! i) = Inr ((cf_Servers conf ! i)\<lparr>sv_User := u\<rparr>)"
    using assms(7,8) by (simp add: update_columns_def default_columns_def to_lower_names)
  from update_one [OF assms(1-6) this] show ?thesis by (auto simp: stored_as_def)
qed

theorem update_encrypts_the_ciphertext_witness:
  "\<exists>(t :: server) m'. Update toy_env (new_query\<lparr>q_Columns := [''user''], q_Values := [''root''], q_WhereColumns := [''user''],
     q_WhereValues := [''admin''], q_WhereOp := EQ\<rparr>) toy_mgr = Returns ((1, None), m') \<and>
     decrypt toy_aead (replicate 32 7) (sv_Password t) = Returns (Inr ''x'')"
proof -
  have c: "e_cipher toy_env = toy_aead" "cf_Key toy_config = replicate 32 7" "sv_Password (cf_Servers toy_config ! 0) = ''x''"
    by (simp_all add: toy_env_def toy_config_def)
  have q: "q_Columns (new_query\<lparr>q_Columns := [''user''], q_Values := [''root''], q_WhereColumns := [''user''],
     q_WhereValues := [''admin''], q_WhereOp := EQ\<rparr>) = [''user'']"
    "q_Values (new_query\<lparr>q_Columns := [''user''], q_Values := [''root''], q_WhereColumns := [''user''],
     q_WhereValues := [''admin''], q_WhereOp := EQ\<rparr>) = [''root'']" by simp_all
  from update_encrypts_the_ciphertext [OF toy_facts(1) stored_toy toy_facts(2-4) where_user_admin q]
  show ?thesis unfolding c by blast
qed

text \<open>C25: a delete removes the selected users and no others.  It reports how many rows went; the rows
  that stay are the old ones in their order; and no user of a selected row is left, also where a
  user was there twice.\<close>

theorem delete_removes_selected:
  assumes "stored conf m" and "mg_write_err m = None"
    and "where_columns_to_config p (cf_Servers conf) = Inr rows" and "rows \<noteq> []"
  shows "\<exists>m'. Delete v p m = ((length (filter (\<lambda>s. sv_User s \<in> users_of rows) (cf_Servers conf)), None), m') \<and>
    stored (conf\<lparr>cf_Servers := filter (\<lambda>s. sv_User s \<notin> users_of rows) (cf_Servers conf)\<rparr>) m'"
proof -
  from get_config_stored [OF assms(1), of v] obtain m1 where g: "get_config v m = (conf, m1)" by blast
  have "mg_write_err m1 = None" using get_config_write_err [of v m] assms(2) by (simp add: g)
  moreover obtain r rs where "rows = r # rs" using assms(4) by (cases rows) auto
  ultimately show ?thesis
    using g assms(1,3) by (simp add: Delete_def delete_servers_def delete_loop_filter store_written stored_def)
qed

theorem delete_removes_selected_witness:
  "\<exists>m'. Delete toy_env (new_query\<lparr>q_WhereColumns := [''user''], q_WhereValues := [''admin''], q_WhereOp := EQ\<rparr>) toy_mgr
     = ((1, None), m') \<and> stored (toy_config\<lparr>cf_Servers := []\<rparr>) m'"
proof -
  have w: "where_columns_to_config (new_query\<lparr>q_WhereColumns := [''user''], q_WhereValues := [''admin''], q_WhereOp := EQ\<rparr>)
      (cf_Servers toy_config) = Inr [\<lparr>sv_User = ''admin'', sv_Password = ''x''\<rparr>]" by code_simp
  from delete_removes_selected [OF stored_toy toy_facts(3) w] show ?thesis
    by (simp add: toy_config_def users_of_def)
qed

definition entry_matches :: "env \<Rightarrow> string \<Rightarrow> server \<Rightarrow> bool" where
  "entry_matches v u s \<longleftrightarrow> (case e_regexp v (''^'' @ sv_User s @ ''$'') of
     None \<Rightarrow> sv_User s = u | Some matches \<Rightarrow> matches u)"

text \<open>Which entry a login uses.  The first entry, in the order of the table, whose pattern matches
  the name, or whose pattern is not a regular expression and is the name, decides; an entry that
  is exactly the name is not used when an earlier pattern also matches.\<close>

lemma login_uses_first_match: "get_server v ss u = find (entry_matches v u) ss"
  by (induction ss) (auto simp: entry_matches_def split: option.splits)

lemma default_config_password:
  assumes "opens_sealed (e_cipher v)" and "new_config v pos = (conf, pos')"
  shows "\<exists>pw. conf = \<lparr>cf_Servers = [\<lparr>sv_User = ''admin'', sv_Password = pw\<rparr>], cf_Key = draw (e_tape v) pos 32\<rparr> \<and>
    decrypt (e_cipher v) (draw (e_tape v) pos 32) pw = Returns (Inr ''pass'')"
proof -
  from encrypt_ok [OF assms(1), of "draw (e_tape v) pos 32" "e_tape v" "''pass''" "pos + 32"] obtain pw where
    "encrypt (e_cipher v) (e_tape v) (draw (e_tape v) pos 32) ''pass'' (pos + 32) = (Inr pw, pos + 32 + nonce_size)"
    "decrypt (e_cipher v) (draw (e_tape v) pos 32) pw = Returns (Inr ''pass'')" by auto
  with assms(2) show ?thesis by (auto simp: new_config_def generate_key_def default_config_def)
qed

text \<open>Without a configuration the initial login works.  When the file cannot be opened the
  administrator logs in with the documented initial password, under a fresh key each time.\<close>

lemma initial_login:
  assumes "opens_sealed (e_cipher v)" and "mg_file m = None" and "patterns_match v [\<lparr>sv_User = ''admin'', sv_Password = pw\<rparr>]"
  shows "fst (GetPassword v ''admin'' m) = Returns (Inr ''pass'')"
proof -
  obtain conf pos where n: "new_config v (mg_pos m) = (conf, pos)" by (metis prod.collapse)
  from default_config_password [OF assms(1) n] obtain pw' where
    c: "conf = \<lparr>cf_Servers = [\<lparr>sv_User = ''admin'', sv_Password = pw'\<rparr>], cf_Key = draw (e_tape v) (mg_pos m) 32\<rparr>"
      "decrypt (e_cipher v) (draw (e_tape v) (mg_pos m) 32) pw' = Returns (Inr ''pass'')" by blast
  from assms(3) obtain f where "e_regexp v (''^'' @ ''admin'' @ ''$'') = Some f" "\<forall>u. f u \<longleftrightarrow> u = ''admin''"
    by (auto simp: patterns_match_def)
  then show ?thesis using n c assms(2) by (simp add: GetPassword_def get_config_def Let_def)
qed

text \<open>A damaged file is replaced.  When the file is not JSON, the error is only logged and the
  default configuration is used; the next successful insert writes that configuration, so every
  user of the damaged file is gone, and the administrator's password is the initial one again.\<close>

lemma damaged_file_is_replaced:
  assumes "opens_sealed (e_cipher v)" and "mg_file m = Some (Json None None (Some e))"
    and "Insert v p m = ((n, None), m')"
  shows "\<exists>pw new key. mg_file m' = Some (json_encode \<lparr>cf_Servers = \<lparr>sv_User = ''admin'', sv_Password = pw\<rparr> # new, cf_Key = key\<rparr>) \<and>
    decrypt (e_cipher v) key pw = Returns (Inr ''pass'')"
proof -
  obtain conf pos where n: "new_config v (mg_pos m) = (conf, pos)" by (metis prod.collapse)
  let ?key = "draw (e_tape v) (mg_pos m) 32"
  from default_config_password [OF assms(1) n] obtain pw where
    c: "conf = \<lparr>cf_Servers = [\<lparr>sv_User = ''admin'', sv_Password = pw\<rparr>], cf_Key = ?key\<rparr>"
      "decrypt (e_cipher v) ?key pw = Returns (Inr ''pass'')" by blast
  have "?key \<noteq> []" by (simp add: draw_def)
  then obtain m1 where g: "get_config v m = (conf, m1)"
    using n c(1) assms(2) by (simp add: get_config_def json_decode_def Let_def)
  obtain r conf1 m2 where i: "insert_servers v p conf m1 = (r, conf1, m2)" by (metis prod_cases3)
  with assms(3) g have "store r conf1 m2 = ((n, None), m')" by (simp add: Insert_def)
  then have "mg_file m' = Some (json_encode conf1)" by (auto dest: store_ok)
  moreover from insert_servers_frame [OF i] obtain new where
    "cf_Servers conf1 = cf_Servers conf @ new" "cf_Key conf1 = cf_Key conf" by blast
  ultimately have "mg_file m' = Some (json_encode
      \<lparr>cf_Servers = \<lparr>sv_User = ''admin'', sv_Password = pw\<rparr> # new, cf_Key = ?key\<rparr>)"
    using c(1) by (cases conf1) simp
  with c(2) show ?thesis by blast
qed

end
