(* ===== verification/ConfigHandler.thy ===== *)
theory ConfigHandler
  imports ServerConfig
begin

text \<open>
  The administrator's connection, pkg/serverconfig/confighandler.go: a handler that runs the
  statements of one connection against the manager and keeps the error and the result of the last
  one.  A result is what the handler puts in \<open>mysql.Result\<close>; building the wire format of a
  result set is another package's.
\<close>

section \<open>The handler\<close>

datatype result = AffectedRows nat | EmptyResult | Resultset "string list" "string list list"

record config_handler =
  h_db :: string
  h_mgr :: mgr
  h_err :: "go_error option"
  h_res :: "result option"
  h_panic :: "string option"

definition new_config_handler :: "mgr \<Rightarrow> config_handler" where
  "new_config_handler m = \<lparr>h_db = [], h_mgr = m, h_err = None, h_res = None, h_panic = None\<rparr>"

text \<open>The statement functions; a query's columns get their default where the manager needs them.\<close>

definition select_stmt :: "env \<Rightarrow> query \<Rightarrow> config_handler \<Rightarrow> query \<times> config_handler" where
  "select_stmt v p h = (case Select v p (h_mgr h) of
       (Inl e, m) \<Rightarrow> (p, h\<lparr>h_mgr := m, h_res := Some EmptyResult, h_err := Some e\<rparr>)
     | (Inr (col, rows), m) \<Rightarrow>
         (default_columns p, h\<lparr>h_mgr := m,
            h_res := Some (if col = [] then EmptyResult else Resultset col rows)\<rparr>))"

definition insert_stmt :: "env \<Rightarrow> query \<Rightarrow> config_handler \<Rightarrow> query \<times> config_handler" where
  "insert_stmt v p h = (case Insert v p (h_mgr h) of ((n, e), m) \<Rightarrow>
     (default_columns p, h\<lparr>h_mgr := m, h_err := e, h_res := Some (AffectedRows n)\<rparr>))"

definition update_stmt :: "env \<Rightarrow> query \<Rightarrow> config_handler \<Rightarrow> query \<times> config_handler" where
  "update_stmt v p h = (case Update v p (h_mgr h) of
       Panics msg \<Rightarrow> (p, h\<lparr>h_panic := Some msg\<rparr>)
     | Returns ((n, e), m) \<Rightarrow>
         ((case where_columns_to_config p (cf_Servers (fst (get_config v (h_mgr h)))) of
             Inr (r # rs) \<Rightarrow> default_columns p | _ \<Rightarrow> p),
          h\<lparr>h_mgr := m, h_err := e, h_res := Some (AffectedRows n)\<rparr>))"

definition delete_stmt :: "env \<Rightarrow> query \<Rightarrow> config_handler \<Rightarrow> query \<times> config_handler" where
  "delete_stmt v p h = (case Delete v p (h_mgr h) of ((n, e), m) \<Rightarrow>
     (p, h\<lparr>h_mgr := m, h_err := e, h_res := Some (AffectedRows n)\<rparr>))"

definition stmt_handlers :: "env \<Rightarrow> config_handler handlers" where
  "stmt_handlers v = [SelectStmt \<mapsto> select_stmt v, InsertStmt \<mapsto> insert_stmt v,
     UpdateStmt \<mapsto> update_stmt v, DeleteStmt \<mapsto> delete_stmt v]"

type_synonym parser = "string \<Rightarrow> go_error + node list"

text \<open>\<open>handleQuery\<close>: the result and the error it returns are the handler's, whoever has set them.\<close>

definition handle_query ::
  "env \<Rightarrow> parser \<Rightarrow> string \<Rightarrow> config_handler \<Rightarrow> (result option \<times> go_error option) outcome \<times> config_handler" where
  "handle_query v parser sql h = (case Parse parser sql of
       Panics msg \<Rightarrow> (Panics msg, h)
     | Returns (Inl e) \<Rightarrow> (Returns (None, Some e), h)
     | Returns (Inr n) \<Rightarrow> (case accept (stmt_handlers v) n (new_query, h) of (p, h1) \<Rightarrow>
         (case h_panic h1 of
           Some msg \<Rightarrow> (Panics msg, h1)
         | None \<Rightarrow> (Returns (h_res h1, h_err h1), h1))))"

definition HandleQuery ::
  "env \<Rightarrow> parser \<Rightarrow> string \<Rightarrow> config_handler \<Rightarrow> (result option \<times> go_error option) outcome \<times> config_handler" where
  "HandleQuery v parser sql h = handle_query v parser sql h"

definition HandleOtherCommand :: "byte \<Rightarrow> bytes \<Rightarrow> go_error" where
  "HandleOtherCommand cmd data = Wrapped ''command %d is not supported now'' (Failure ''ER_UNKNOWN_ERROR'') (unat cmd)"

definition UseDB :: "string \<Rightarrow> config_handler \<Rightarrow> config_handler" where
  "UseDB dbName h = h\<lparr>h_db := dbName\<rparr>"

definition GetDB :: "config_handler \<Rightarrow> string" where
  "GetDB h = h_db h"

text \<open>The commands of one administrator's connection, as \<open>admin\<close> handles them one after another.\<close>

fun run_queries ::
  "env \<Rightarrow> parser \<Rightarrow> string list \<Rightarrow> config_handler \<Rightarrow> (result option \<times> go_error option) list outcome \<times> config_handler" where
  "run_queries v parser [] h = (Returns [], h)"
| "run_queries v parser (q # qs) h = (case HandleQuery v parser q h of
       (Panics msg, h1) \<Rightarrow> (Panics msg, h1)
     | (Returns r, h1) \<Rightarrow> (case run_queries v parser qs h1 of (rs, h2) \<Rightarrow>
         (bind_outcome rs (\<lambda>xs. Returns (r # xs)), h2)))"

section \<open>What the handler keeps\<close>

lemma default_columns_statement [simp]: "q_Statement (default_columns p) = q_Statement p"
  by (simp add: default_columns_def)

lemma stmt_handlers_simps [simp]:
  "stmt_handlers v SelectStmt = Some (select_stmt v)"
  "stmt_handlers v InsertStmt = Some (insert_stmt v)"
  "stmt_handlers v UpdateStmt = Some (update_stmt v)"
  "stmt_handlers v DeleteStmt = Some (delete_stmt v)"
  by (simp_all add: stmt_handlers_def stmt_defs)

lemma stmt_handlers_cases:
  assumes "stmt_handlers v n = Some f"
  shows "f = select_stmt v \<or> f = insert_stmt v \<or> f = update_stmt v \<or> f = delete_stmt v"
  using assms by (auto simp: stmt_handlers_def split: if_splits)

lemma keep_statement_handlers: "keep_statement (stmt_handlers v)"
proof -
  have "q_Statement (fst (f p h)) = q_Statement p" if "stmt_handlers v n = Some f" for n f p h
    using stmt_handlers_cases [OF that]
    by (elim disjE) (simp_all add: select_stmt_def insert_stmt_def update_stmt_def delete_stmt_def
        split: prod.split sum.split outcome.split list.split)
  then show ?thesis by (simp add: keep_statement_def)
qed

text \<open>A select leaves the file, whatever it returns.\<close>

lemma Select_file:
  assumes "Select v p m = (r, m')"
  shows "mg_file m' = mg_file m"
proof -
  obtain conf m1 where g: "get_config v m = (conf, m1)" by (metis prod.collapse)
  have "mg_file m1 = mg_file m" using get_config_file [of v m] by (simp add: g)
  then show ?thesis using assms g by (auto simp: Select_def split: sum.splits)
qed

lemma select_stmt_file: "mg_file (h_mgr (snd (select_stmt v p h))) = mg_file (h_mgr h)"
proof -
  obtain r m' where r: "Select v p (h_mgr h) = (r, m')" by (metis prod.collapse)
  with Select_file [OF this] show ?thesis by (cases r) (auto simp: select_stmt_def)
qed

text \<open>A property of the handler's state that all its functions keep is kept by every visit.\<close>

lemma accept_invariant:
  assumes "\<And>n f p h. fs n = Some f \<Longrightarrow> I h \<Longrightarrow> I (snd (f p h))" and "I (snd s)"
  shows "I (snd (accept fs n s))"
  using assms
proof (induction fs n s rule: accept.induct)
  case (1 fs k cs p h)
  have "I (snd (fold (accept fs) ds s))" if "set ds \<subseteq> set cs" "I (snd s)" for ds s
    using that
  proof (induction ds arbitrary: s)
    case (Cons d ds)
    then have "I (snd (accept fs d s))" using "1.IH" [of d s] "1.prems"(1) by auto
    with Cons show ?case by simp
  qed simp
  then have "I (snd (fold (accept fs) cs (enter k p, h)))" using "1.prems"(2) by simp
  moreover have "I (snd (leave fs k t))" if "I (snd t)" for t
    using that "1.prems"(1) by (cases k; cases t) (auto simp: leave_func_def split: option.split)
  ultimately show ?case by simp
qed

text \<open>A visit that meets no statement does not touch the handler.\<close>

lemma accept_no_statement:
  "entered n = [] \<Longrightarrow> snd (accept fs n s) = snd s"
proof (induction fs n s rule: accept.induct)
  case (1 fs k cs p h)
  have no: "stmt_name k = None" "\<forall>c \<in> set cs. entered c = []"
    using "1.prems" by (auto split: option.splits)
  have "snd (fold (accept fs) ds s) = snd s" if "set ds \<subseteq> set cs" for ds s
    using that
  proof (induction ds arbitrary: s)
    case (Cons d ds)
    then have "snd (accept fs d s) = snd s" using "1.IH" [of d s] no(2) by auto
    with Cons show ?case by simp
  qed simp
  moreover have "snd (leave fs k t) = snd t" for t using no(1) by (cases k; cases t) auto
  ultimately show ?case by simp
qed

lemma fold_no_statement:
  "\<forall>c \<in> set cs. entered c = [] \<Longrightarrow> snd (fold (accept fs) cs s) = snd s"
  by (induction cs arbitrary: s) (auto simp: accept_no_statement)

lemma accept_plain_statement:
  assumes "keep_statement fs" and "stmt_name k = Some n" and "\<forall>c \<in> set cs. entered c = []" and "fs n = Some f"
  shows "accept fs (Node k cs) (p, h) = f (fst (fold (accept fs) cs (enter k p, h))) h"
proof -
  let ?s = "fold (accept fs) cs (enter k p, h)"
  obtain p1 h1 where s: "?s = (p1, h1)" by (metis prod.collapse)
  have "h1 = h" using fold_no_statement [OF assms(3), of fs "(enter k p, h)"] by (simp add: s)
  have "q_Statement p1 = n"
    using fold_accept_statement [OF assms(1), of cs "(enter k p, h)"] assms(2,3) by (simp add: s enter_statement)
  then show ?thesis
    using \<open>h1 = h\<close> assms(4) by (simp add: s leave_statement [OF assms(2)] leave_func_def)
qed

text \<open>One connection alone never finds the index out of step, so no update panics.\<close>

lemma index_from_start:
  "index_from 0 ss Map.empty u = Some k \<Longrightarrow> k < length ss \<and> sv_User (ss ! k) = u"
  using index_from_sound [of 0 ss Map.empty u k] by simp

lemma get_config_index_ok: "get_config v m = (conf, m1) \<Longrightarrow> index_ok conf m1"
  by (auto simp: get_config_def make_index_def Let_def index_ok_def
      dest: index_from_start split: prod.splits option.splits)

lemma update_loop_total:
  assumes "\<And>u k. mg_serverIndex m u = Some k \<Longrightarrow> k < length (cf_Servers conf)"
  shows "\<exists>r. update_loop v p us n conf m = Returns r"
  using assms
proof (induction us arbitrary: n conf m)
  case (Cons u us)
  show ?case
  proof (cases "mg_serverIndex m (sv_User u)")
    case (Some i)
    then have i: "i < length (cf_Servers conf)" by (rule Cons.prems)
    show ?thesis
    proof (cases "update_columns p u")
      case (Inl y)
      with Some show ?thesis by (cases y) simp
    next
      case (Inr s)
      obtain x pos where e: "encrypt (e_cipher v) (e_tape v) (cf_Key conf) (sv_Password s) (mg_pos m) = (x, pos)"
        by (metis prod.collapse)
      show ?thesis
      proof (cases x)
        case (Inl y)
        with Some Inr e show ?thesis by simp
      next
        case pw: (Inr pw)
        let ?c = "conf\<lparr>cf_Servers := (cf_Servers conf)[i := s\<lparr>sv_Password := pw\<rparr>]\<rparr>" and ?m = "m\<lparr>mg_pos := pos\<rparr>"
        have "k < length (cf_Servers ?c)" if "mg_serverIndex ?m u = Some k" for u k
          using that Cons.prems by simp
        from Cons.IH [OF this] have "\<exists>r. update_loop v p us (n + 1) ?c ?m = Returns r" .
        with Some Inr e pw i show ?thesis by simp
      qed
    qed
  qed simp
qed simp

lemma Update_returns: "\<exists>r m'. Update v p m = Returns (r, m')"
proof -
  obtain conf m1 where g: "get_config v m = (conf, m1)" by (metis prod.collapse)
  have "\<exists>r. update_loop v p us n conf m1 = Returns r" for us n
    by (rule update_loop_total) (use get_config_index_ok [OF g] in \<open>auto simp: index_ok_def\<close>)
  then have "\<exists>r. update_servers v p conf m1 = Returns r"
    by (auto simp: update_servers_def simp del: update_loop.simps split: sum.split list.split)
  then obtain r conf1 m2 where "update_servers v p conf m1 = Returns (r, conf1, m2)" by auto
  with g show ?thesis by (cases "store r conf1 m2") (simp add: Update_def)
qed

lemma handlers_never_panic:
  assumes "stmt_handlers v n = Some f" and "h_panic h = None"
  shows "h_panic (snd (f p h)) = None"
proof -
  obtain r m' where "Update v p (h_mgr h) = Returns (r, m')" using Update_returns by blast
  with stmt_handlers_cases [OF assms(1)] assms(2) show ?thesis
    by (elim disjE) (simp_all add: select_stmt_def insert_stmt_def update_stmt_def delete_stmt_def
        split: prod.split sum.split)
qed

section \<open>Properties\<close>

lemma parse_first: "parser sql = Inr (n # ns) \<Longrightarrow> Parse parser sql = Returns (Inr n)"
  by (simp add: Parse_def)

lemma accept_handlers_panic: "h_panic h = None \<Longrightarrow> h_panic (snd (accept (stmt_handlers v) n (p, h))) = None"
  by (rule accept_invariant) (auto intro: handlers_never_panic)

lemma handle_query_returns:
  assumes "h_panic h = None" and "parser sql \<noteq> Inr []"
  shows "\<exists>r h1. HandleQuery v parser sql h = (Returns r, h1) \<and> h_panic h1 = None"
proof (cases "parser sql")
  case (Inl e)
  with assms(1) show ?thesis by (simp add: HandleQuery_def handle_query_def Parse_def)
next
  case (Inr ns)
  with assms(2) obtain n ms where ns: "ns = n # ms" by (cases ns) auto
  obtain p h1 where a: "accept (stmt_handlers v) n (new_query, h) = (p, h1)" by (metis prod.collapse)
  have "h_panic h1 = None" using accept_handlers_panic [OF assms(1), of v n new_query] by (simp add: a)
  with Inr ns a show ?thesis by (simp add: HandleQuery_def handle_query_def Parse_def)
qed

text \<open>What crashes a query.  \<open>HandleQuery\<close> panics exactly on a text in which the parser finds no
  statement, which \<open>Parse\<close> indexes all the same; every other text, whatever its statements do and
  whatever the file holds, gets a result or an error.\<close>

lemma query_panics_iff:
  assumes "h_panic h = None"
  shows "(\<exists>msg. fst (HandleQuery v parser sql h) = Panics msg) \<longleftrightarrow> parser sql = Inr []"
proof (cases "parser sql = Inr []")
  case True
  then show ?thesis by (simp add: HandleQuery_def handle_query_def Parse_def)
next
  case False
  then show ?thesis using handle_query_returns [of h parser sql v] assms by auto
qed

text \<open>A select statement without a statement inside it.\<close>

definition plain_select :: "parser \<Rightarrow> string \<Rightarrow> bool" where
  "plain_select parser sql \<longleftrightarrow> (\<exists>t cs ns. parser sql = Inr (Node (SelectNode t) cs # ns) \<and> (\<forall>c \<in> set cs. entered c = []))"

lemma select_query:
  assumes "plain_select parser sql" and "h_panic h = None"
  shows "\<exists>p. HandleQuery v parser sql h =
    (Returns (h_res (snd (select_stmt v p h)), h_err (snd (select_stmt v p h))), snd (select_stmt v p h))"
proof -
  from assms(1) obtain t cs ns where n: "parser sql = Inr (Node (SelectNode t) cs # ns)" "\<forall>c \<in> set cs. entered c = []"
    by (auto simp: plain_select_def)
  let ?p = "fst (fold (accept (stmt_handlers v)) cs (enter (SelectNode t) new_query, h))"
  obtain q h1 where s: "select_stmt v ?p h = (q, h1)" by (metis prod.collapse)
  have "accept (stmt_handlers v) (Node (SelectNode t) cs) (new_query, h) = (q, h1)"
    using accept_plain_statement [OF keep_statement_handlers _ n(2), of "SelectNode t" SelectStmt v "select_stmt v"] s
    by simp
  moreover from this have "h_panic h1 = None"
    using accept_handlers_panic [OF assms(2), of v "Node (SelectNode t) cs" new_query] by simp
  ultimately show ?thesis
    using s parse_first [of parser sql, OF n(1)]
    by (intro exI [of _ ?p]) (simp add: HandleQuery_def handle_query_def del: accept.simps)
qed

lemma select_keeps_error: "h_err h \<noteq> None \<Longrightarrow> h_err (snd (select_stmt v p h)) \<noteq> None"
  by (auto simp: select_stmt_def split: prod.split sum.split)

lemma select_keeps_panic: "h_panic (snd (select_stmt v p h)) = h_panic h"
  by (auto simp: select_stmt_def split: prod.split sum.split)

text \<open>An error sticks to the connection.  The handler clears its error only by the next insert,
  update or delete; after one that has failed, every select of the connection returns an error,
  however often it is tried and although the table can be read.\<close>

lemma error_sticks_to_selects:
  assumes "\<forall>q \<in> set qs. plain_select parser q" and "h_err h \<noteq> None" and "h_panic h = None"
    and "run_queries v parser qs h = (res, h')"
  shows "\<exists>rs. res = Returns rs \<and> length rs = length qs \<and> (\<forall>r \<in> set rs. snd r \<noteq> None)"
  using assms
proof (induction qs arbitrary: h res h')
  case Nil
  then show ?case by simp
next
  case (Cons q qs)
  from select_query [of parser q h v] Cons.prems obtain p where
    q: "HandleQuery v parser q h = (Returns (h_res (snd (select_stmt v p h)), h_err (snd (select_stmt v p h))), snd (select_stmt v p h))"
      (is "_ = (Returns (?r, ?e), ?h)") by auto
  obtain res' h2 where r: "run_queries v parser qs ?h = (res', h2)" by (metis prod.collapse)
  have e: "?e \<noteq> None" "h_panic ?h = None"
    using select_keeps_error [OF Cons.prems(2)] select_keeps_panic Cons.prems(3) by auto
  from Cons.IH [OF _ e r] Cons.prems(1) obtain rs where
    "res' = Returns rs" "length rs = length qs" "\<forall>r \<in> set rs. snd r \<noteq> None" by auto
  with q r e Cons.prems(4) show ?case by auto
qed

definition toy_parser :: parser where
  "toy_parser sql = (if sql = ''select'' then Inr [Node (SelectNode sql) []] else Inl (Failure ''syntax''))"

text \<open>A statement the table does not know is answered with the last result.  \<open>SET\<close>, \<open>SHOW\<close> and any
  other statement that contains none of the four known ones returns what the previous
  statement of the connection returned, its rows and its error, and changes nothing.\<close>

lemma unknown_statement_repeats_result:
  assumes "parser sql = Inr (n # ns)" and "entered n = []" and "h_panic h = None"
  shows "HandleQuery v parser sql h = (Returns (h_res h, h_err h), h)"
proof -
  obtain p h1 where a: "accept (stmt_handlers v) n (new_query, h) = (p, h1)" by (metis prod.collapse)
  have "h1 = h" using accept_no_statement [OF assms(2), of "stmt_handlers v" "(new_query, h)"] by (simp add: a)
  with a assms(1,3) show ?thesis by (simp add: HandleQuery_def handle_query_def Parse_def)
qed

text \<open>The tree of an insert statement.\<close>

definition insert_node :: "string \<Rightarrow> string \<Rightarrow> string list \<Rightarrow> string list \<Rightarrow> node" where
  "insert_node t tab cols vals = Node (InsertNode t)
     (Node (TableName tab) [] # map (\<lambda>c. Node (ColumnName c) []) cols @ map (\<lambda>v. Node (ValueExpr v) []) vals)"

lemma fold_columns:
  "q_CurrentType p \<noteq> Where \<Longrightarrow> fold (accept fs) (map (\<lambda>c. Node (ColumnName c) []) cols) (p, h) =
     (p\<lparr>q_Columns := q_Columns p @ cols\<rparr>, h)"
  by (induction cols arbitrary: p) auto

lemma fold_values:
  "q_CurrentType p \<noteq> Where \<Longrightarrow> fold (accept fs) (map (\<lambda>v. Node (ValueExpr v) []) vals) (p, h) =
     (p\<lparr>q_Values := q_Values p @ vals\<rparr>, h)"
  by (induction vals arbitrary: p) auto

lemma fold_insert:
  "fold (accept fs) (n_children (insert_node t tab cols vals)) (enter (InsertNode t) new_query, h) =
    (new_query\<lparr>q_Statement := InsertStmt, q_Text := t, q_TableName := tab, q_Columns := cols, q_Values := vals\<rparr>, h)"
  by (simp add: insert_node_def fold_columns fold_values new_query_def Where_def)



text \<open>What an insert adds is in the index.\<close>

lemma insert_loop_indexes:
  "insert_loop v ss n conf m = ((k, None), conf', m') \<Longrightarrow>
   \<exists>new. cf_Servers conf' = cf_Servers conf @ new \<and> users_of new \<inter> dom (mg_serverIndex m) = {} \<and>
     users_of new \<subseteq> dom (mg_serverIndex m') \<and> dom (mg_serverIndex m) \<subseteq> dom (mg_serverIndex m')"
proof (induction v ss n conf m rule: insert_loop.induct)
  case (1 v n conf m)
  then show ?case by (auto simp: users_of_def)
next
  case (2 v s ss n conf m)
  have fresh: "mg_serverIndex m (sv_User s) = None" using "2.prems" by (simp split: if_splits)
  obtain x pos where e: "encrypt (e_cipher v) (e_tape v) (cf_Key conf) (sv_Password s) (mg_pos m) = (x, pos)"
    by (metis prod.collapse)
  then obtain pw where pw: "x = Inr pw" using "2.prems" fresh by (cases x) auto
  let ?t = "s\<lparr>sv_Password := pw\<rparr>"
  let ?c = "conf\<lparr>cf_Servers := cf_Servers conf @ [?t]\<rparr>"
  let ?m = "m\<lparr>mg_pos := pos, mg_serverIndex := (mg_serverIndex m)(sv_User s \<mapsto> length (cf_Servers ?c) - 1)\<rparr>"
  have "insert_loop v ss (n + 1) ?c ?m = ((k, None), conf', m')"
    using "2.prems" fresh e pw by (simp add: Let_def)
  moreover have "\<not> mg_serverIndex m (sv_User s) \<noteq> None" using fresh by simp
  ultimately obtain new where new: "cf_Servers conf' = cf_Servers ?c @ new" "users_of new \<inter> dom (mg_serverIndex ?m) = {}"
    "users_of new \<subseteq> dom (mg_serverIndex m')" "dom (mg_serverIndex ?m) \<subseteq> dom (mg_serverIndex m')"
    using "2.IH" [OF _ e [symmetric] pw refl] by blast
  then show ?case using fresh
    by (intro exI [of _ "?t # new"]) (auto simp: users_of_def)
qed

lemma insert_servers_indexes:
  assumes "insert_servers v p conf m = ((k, None), conf', m')"
  shows "\<exists>new. cf_Servers conf' = cf_Servers conf @ new \<and> users_of new \<inter> dom (mg_serverIndex m) = {} \<and>
     users_of new \<subseteq> dom (mg_serverIndex m')"
  using assms insert_loop_indexes by (fastforce simp: insert_servers_def split: sum.splits)

text \<open>Two inserts of different connections, the second reading the file before the first has written it.\<close>

definition interleaved_inserts ::
  "env \<Rightarrow> query \<Rightarrow> query \<Rightarrow> mgr \<Rightarrow> (nat \<times> go_error option) \<times> (nat \<times> go_error option) \<times> config \<times> config \<times> mgr" where
  "interleaved_inserts v pA pB m =
     (case get_config v m of (confA, m1) \<Rightarrow>
      case get_config v m1 of (confB, m2) \<Rightarrow>
      case insert_servers v pA confA m2 of (qA, confA1, m3) \<Rightarrow>
      case store qA confA1 m3 of (rA, m4) \<Rightarrow>
      case insert_servers v pB confB m4 of (qB, confB1, m5) \<Rightarrow>
      case store qB confB1 m5 of (rB, m6) \<Rightarrow> (rA, rB, confA1, confB1, m6))"

text \<open>C32: two administrators can lose a user.  The file is read before and written after a statement,
  with no lock over both: when two inserts of different connections have both read it before
  one has written it and both report success, the file has the users of the
  later one only, and nobody the earlier one has registered is in it.\<close>

theorem interleaved_inserts_lose_users:
  assumes "stored conf m" and "mg_write_err m = None"
    and "interleaved_inserts v pA pB m = ((na, None), (nb, None), confA, confB, m')"
  shows "\<exists>newA newB. cf_Servers confA = cf_Servers conf @ newA \<and> cf_Servers confB = cf_Servers conf @ newB \<and>
     mg_file m' = Some (json_encode confB) \<and> users_of newA \<inter> users_of (cf_Servers confB) = {}"
proof -
  obtain c1 m1 where g1: "get_config v m = (c1, m1)" by (metis prod.collapse)
  obtain c2 m2 where g2: "get_config v m1 = (c2, m2)" by (metis prod.collapse)
  obtain qA cA m3 where iA: "insert_servers v pA c1 m2 = (qA, cA, m3)" by (metis prod.collapse)
  obtain rA m4 where sA: "store qA cA m3 = (rA, m4)" by (metis prod.collapse)
  obtain qB cB m5 where iB: "insert_servers v pB c2 m4 = (qB, cB, m5)" by (metis prod.collapse)
  obtain rB m6 where sB: "store qB cB m5 = (rB, m6)" by (metis prod.collapse)
  have r: "rA = (na, None)" "rB = (nb, None)" "cA = confA" "cB = confB" "m6 = m'"
    using assms(3) g1 g2 iA sA iB sB by (simp_all add: interleaved_inserts_def)
  then have q: "qA = (na, None)" "qB = (nb, None)"
    using store_ok [of qA cA m3 na m4] store_ok [of qB cB m5 nb m6] sA sB by simp_all
  from get_config_stored [OF assms(1), of v] g1 have 1: "c1 = conf" "mg_file m1 = mg_file m" "mg_write_err m1 = None"
    using assms(2) by auto
  then have "stored conf m1" using assms(1) by (simp add: stored_def)
  from get_config_stored [OF this, of v] g2 1 have 2: "c2 = conf" "mg_write_err m2 = None"
    "mg_serverIndex m2 = index_from 0 (cf_Servers conf) Map.empty" by auto
  then have d: "dom (mg_serverIndex m2) = users_of (cf_Servers conf)" by (simp add: index_from_dom)
  have "mg_write_err m3 = None" using insert_servers_frame [OF iA] 2 by simp
  then have 4: "mg_write_err m4 = None" "mg_serverIndex m4 = mg_serverIndex m3" using sA q by (auto simp: store_written)
  have 5: "mg_write_err m5 = None" using insert_servers_frame [OF iB] 4 by simp
  obtain newA where A: "cf_Servers confA = cf_Servers conf @ newA" "users_of newA \<inter> users_of (cf_Servers conf) = {}"
    "users_of newA \<subseteq> dom (mg_serverIndex m4)"
    using insert_servers_indexes [OF iA [unfolded q]] 1 d 4 r by auto
  obtain newB where B: "cf_Servers confB = cf_Servers conf @ newB" "users_of newB \<inter> dom (mg_serverIndex m4) = {}"
    using insert_servers_frame [OF iB] 2 r by auto
  have "users_of (cf_Servers confB) = users_of (cf_Servers conf) \<union> users_of newB"
    by (simp add: users_of_def B image_Un)
  then have "users_of newA \<inter> users_of (cf_Servers confB) = {}"
    using A(2,3) B(2) by blast
  moreover have "mg_file m' = Some (json_encode confB)" using sB q r 5 by (auto simp: store_written)
  ultimately show ?thesis using A B by blast
qed

theorem interleaved_inserts_lose_users_witness:
  "\<exists>confA confB m'. interleaved_inserts toy_env (new_query\<lparr>q_Values := [''bob'', ''secret'']\<rparr>)
      (new_query\<lparr>q_Values := [''eve'', ''s'']\<rparr>) toy_mgr = ((1, None), (1, None), confA, confB, m') \<and>
    map sv_User (cf_Servers confA) = [''admin'', ''bob''] \<and> map sv_User (cf_Servers confB) = [''admin'', ''eve''] \<and>
    mg_file m' = Some (json_encode confB)"
proof -
  let ?a = "new_query\<lparr>q_Values := [''bob'', ''secret'']\<rparr>" and ?b = "new_query\<lparr>q_Values := [''eve'', ''s'']\<rparr>"
  have e: "(case interleaved_inserts toy_env ?a ?b toy_mgr of (ra, rb, ca, cb, m) \<Rightarrow>
      ra = (1, None) \<and> rb = (1, None) \<and> map sv_User (cf_Servers ca) = [''admin'', ''bob''] \<and>
      map sv_User (cf_Servers cb) = [''admin'', ''eve''])" by code_simp
  obtain ra rb confA confB m' where run: "interleaved_inserts toy_env ?a ?b toy_mgr = (ra, rb, confA, confB, m')"
    by (metis prod.collapse)
  from e have x: "ra = (1, None)" "rb = (1, None)" "map sv_User (cf_Servers confA) = [''admin'', ''bob'']"
    "map sv_User (cf_Servers confB) = [''admin'', ''eve'']" unfolding run by simp_all
  have "mg_file m' = Some (json_encode confB)"
    using interleaved_inserts_lose_users [OF stored_toy toy_facts(3) run [unfolded x]] by blast
  with run [unfolded x(1,2)] x(3,4) show ?thesis
    by (intro exI [of _ confA] exI [of _ confB] exI [of _ m'] conjI)
qed

end
