(* ===== verification/GeneratePem.thy ===== *)
theory GeneratePem
  imports GoText
begin

text \<open>
  The certificates of the proxy's TLS listener, pkg/generatepem/generatepem.go: the choice of the
  key, the template with its usage, validity and host names, and the two certificates, the
  authority's and the server's, made from it.  Key generation, signing and the encodings of the
  standard library's crypto packages are parameters; a time is a number of nanoseconds.
\<close>

section \<open>Keys and templates\<close>

record pem_config =
  pg_Host :: string
  pg_ValidFor :: "64 word"
  pg_RsaBits :: "64 word"
  pg_EcdsaCurve :: string
  pg_Ed25519Key :: bool

record pems =
  pm_Cert :: string
  pm_Key :: string
  pm_Public :: string

definition no_pems :: pems where
  "no_pems = \<lparr>pm_Cert = [], pm_Key = [], pm_Public = []\<rparr>"

datatype 'k private_key = RsaKey 'k | EcdsaKey 'k | Ed25519PrivateKey 'k

datatype 'k public_key = RsaPublic 'k | EcdsaPublic 'k | Ed25519Public 'k

record certificate =
  ct_SerialNumber :: nat
  ct_Organization :: "string list"
  ct_NotBefore :: int
  ct_NotAfter :: int
  ct_KeyUsage :: "64 word"
  ct_ExtKeyUsage :: "string list"
  ct_BasicConstraintsValid :: bool
  ct_IPAddresses :: "string list"
  ct_DNSNames :: "string list"
  ct_IsCA :: bool

record 'k crypto =
  cr_text :: "go_error \<Rightarrow> string"
  cr_ed25519 :: "go_error + 'k"
  cr_rsa :: "64 word \<Rightarrow> go_error + 'k"
  cr_ecdsa :: "string \<Rightarrow> go_error + 'k"
  cr_public :: "'k \<Rightarrow> 'k"
  cr_now :: int
  cr_serial :: "nat \<Rightarrow> go_error + nat"
  cr_parse_ip :: "string \<Rightarrow> string option"
  cr_create :: "certificate \<Rightarrow> certificate \<Rightarrow> 'k public_key \<Rightarrow> 'k private_key \<Rightarrow> go_error + bytes"
  cr_pem :: "string \<Rightarrow> bytes \<Rightarrow> go_error + string"
  cr_pkcs8 :: "'k private_key \<Rightarrow> go_error + bytes"
  cr_pkix :: "'k public_key \<Rightarrow> go_error + bytes"

text \<open>The bits of \<open>x509.KeyUsage\<close>.\<close>

definition DigitalSignature :: "64 word" where "DigitalSignature = 1"
definition KeyEncipherment :: "64 word" where "KeyEncipherment = 4"
definition CertSign :: "64 word" where "CertSign = 32"

fun publicKey :: "'k crypto \<Rightarrow> 'k private_key \<Rightarrow> 'k public_key" where
  "publicKey cr (RsaKey k) = RsaPublic (cr_public cr k)"
| "publicKey cr (EcdsaKey k) = EcdsaPublic (cr_public cr k)"
| "publicKey cr (Ed25519PrivateKey k) = Ed25519Public (cr_public cr k)"

definition generate_priv :: "'k crypto \<Rightarrow> pem_config \<Rightarrow> go_error + 'k private_key" where
  "generate_priv cr c =
     (let wrap = (\<lambda>r f. case r of Inl e \<Rightarrow> Inl (Wrapped ''failed to generate private key: err: %w'' e 0) | Inr k \<Rightarrow> Inr (f k)) in
      if pg_EcdsaCurve c = [] then
        (if pg_Ed25519Key c then wrap (cr_ed25519 cr) Ed25519PrivateKey else wrap (cr_rsa cr (pg_RsaBits c)) RsaKey)
      else if pg_EcdsaCurve c \<in> {''P224'', ''P256'', ''P384'', ''P521''} then wrap (cr_ecdsa cr (pg_EcdsaCurve c)) EcdsaKey
      else Inl (Errorf ''unrecognized elliptic curve: %q'' (pg_EcdsaCurve c)))"

definition key_usage :: "'k private_key \<Rightarrow> 64 word" where
  "key_usage priv = (case priv of RsaKey k \<Rightarrow> DigitalSignature OR KeyEncipherment | _ \<Rightarrow> DigitalSignature)"

text \<open>\<open>time.Duration(c.ValidFor) * 24 * time.Hour\<close>, an \<open>int64\<close> of nanoseconds.\<close>

definition validity :: "64 word \<Rightarrow> int" where
  "validity days = sint (days * 24 * 3600000000000)"

fun add_hosts :: "(string \<Rightarrow> string option) \<Rightarrow> string list \<Rightarrow> certificate \<Rightarrow> certificate" where
  "add_hosts ip [] t = t"
| "add_hosts ip (h # hs) t = (case ip h of
       Some a \<Rightarrow> add_hosts ip hs (t\<lparr>ct_IPAddresses := ct_IPAddresses t @ [a]\<rparr>)
     | None \<Rightarrow> add_hosts ip hs (t\<lparr>ct_DNSNames := ct_DNSNames t @ [h]\<rparr>))"

definition cert_template :: "'k crypto \<Rightarrow> pem_config \<Rightarrow> 'k private_key \<Rightarrow> nat \<Rightarrow> certificate" where
  "cert_template cr c priv serialNumber =
     add_hosts (cr_parse_ip cr) (split (CHR '','') (pg_Host c))
       \<lparr>ct_SerialNumber = serialNumber, ct_Organization = [''Acme Co''], ct_NotBefore = cr_now cr,
        ct_NotAfter = cr_now cr + validity (pg_ValidFor c), ct_KeyUsage = key_usage priv,
        ct_ExtKeyUsage = [''ServerAuth''], ct_BasicConstraintsValid = True,
        ct_IPAddresses = [], ct_DNSNames = [], ct_IsCA = False\<rparr>"

definition ca_template :: "'k private_key \<Rightarrow> certificate \<Rightarrow> certificate" where
  "ca_template priv t = t\<lparr>ct_IsCA := True, ct_KeyUsage := key_usage priv OR CertSign\<rparr>"

fun wrapping :: "string \<Rightarrow> go_error + 'a \<Rightarrow> ('a \<Rightarrow> go_error + 'b) \<Rightarrow> go_error + 'b" where
  "wrapping fmt (Inl e) f = Inl (Wrapped fmt e 0)"
| "wrapping fmt (Inr x) f = f x"

definition generatePems ::
  "'k crypto \<Rightarrow> certificate \<Rightarrow> certificate \<Rightarrow> 'k private_key \<Rightarrow> go_error + pems" where
  "generatePems cr template caTemplate priv =
     wrapping ''failed to create certificate: %w'' (cr_create cr template caTemplate (publicKey cr priv) priv) (\<lambda>derBytes.
     wrapping ''failed to write data to cert.pem: %w'' (cr_pem cr ''CERTIFICATE'' derBytes) (\<lambda>certOut.
     wrapping ''unable to marshal private key: %w'' (cr_pkcs8 cr priv) (\<lambda>privBytes.
     wrapping ''failed to write data to key.pem: %w'' (cr_pem cr ''PRIVATE KEY'' privBytes) (\<lambda>keyOut.
     wrapping ''error when dumping publickey: %w'' (cr_pkix cr (publicKey cr priv)) (\<lambda>publicKeyBytes.
     wrapping ''error when encode public pem: %w'' (cr_pem cr ''PUBLIC KEY'' publicKeyBytes) (\<lambda>publicPem.
     Inr \<lparr>pm_Cert = certOut, pm_Key = keyOut, pm_Public = publicPem\<rparr>))))))"

definition Generate :: "'k crypto \<Rightarrow> pem_config \<Rightarrow> pems \<times> pems \<times> go_error option" where
  "Generate cr c = (case generate_priv cr c of
       Inl e \<Rightarrow> (no_pems, no_pems, Some e)
     | Inr priv \<Rightarrow> (case cr_serial cr (2 ^ 128) of
         Inl e \<Rightarrow> (no_pems, no_pems, Some (Errorf ''failed to generate serial number: %v'' (cr_text cr e)))
       | Inr serialNumber \<Rightarrow>
           let template = cert_template cr c priv serialNumber; caTemplate = ca_template priv template in
           (case generatePems cr caTemplate caTemplate priv of
             Inl e \<Rightarrow> (no_pems, no_pems, Some e)
           | Inr caPems \<Rightarrow> (case generatePems cr template caTemplate priv of
               Inl e \<Rightarrow> (caPems, no_pems, Some e)
             | Inr serverPems \<Rightarrow> (caPems, serverPems, None)))))"

section \<open>Templates\<close>

lemma add_hosts_lists:
  "ct_IPAddresses (add_hosts ip hs t) = ct_IPAddresses t @ List.map_filter ip hs"
  "ct_DNSNames (add_hosts ip hs t) = ct_DNSNames t @ filter (\<lambda>h. ip h = None) hs"
  by (induction ip hs t rule: add_hosts.induct) (auto simp: map_filter_simps split: option.splits)

lemma add_hosts_other:
  "ct_SerialNumber (add_hosts ip hs t) = ct_SerialNumber t"
  "ct_Organization (add_hosts ip hs t) = ct_Organization t"
  "ct_NotBefore (add_hosts ip hs t) = ct_NotBefore t"
  "ct_NotAfter (add_hosts ip hs t) = ct_NotAfter t"
  "ct_KeyUsage (add_hosts ip hs t) = ct_KeyUsage t"
  "ct_ExtKeyUsage (add_hosts ip hs t) = ct_ExtKeyUsage t"
  "ct_BasicConstraintsValid (add_hosts ip hs t) = ct_BasicConstraintsValid t"
  "ct_IsCA (add_hosts ip hs t) = ct_IsCA t"
  by (induction ip hs t rule: add_hosts.induct) (auto split: option.splits)

lemmas template_simps = cert_template_def ca_template_def add_hosts_lists add_hosts_other

lemma wrapping_Inr: "wrapping fmt r f = Inr y \<longleftrightarrow> (\<exists>x. r = Inr x \<and> f x = Inr y)"
  by (cases r) auto

lemma generatePems_Inr:
  assumes "generatePems cr template caTemplate priv = Inr p"
  shows "\<exists>der pkcs8 pkix. cr_create cr template caTemplate (publicKey cr priv) priv = Inr der \<and>
    cr_pem cr ''CERTIFICATE'' der = Inr (pm_Cert p) \<and> cr_pkcs8 cr priv = Inr pkcs8 \<and>
    cr_pem cr ''PRIVATE KEY'' pkcs8 = Inr (pm_Key p) \<and> cr_pkix cr (publicKey cr priv) = Inr pkix \<and>
    cr_pem cr ''PUBLIC KEY'' pkix = Inr (pm_Public p)"
  using assms by (auto simp: generatePems_def wrapping_Inr)

section \<open>Properties\<close>

lemma key_usage_bits:
  "key_usage priv AND CertSign = 0" "key_usage priv AND DigitalSignature = DigitalSignature"
  "(key_usage priv OR CertSign) AND CertSign = CertSign"
  "key_usage priv AND KeyEncipherment \<noteq> 0 \<longleftrightarrow> (\<exists>k. priv = RsaKey k)"
  by (cases priv; simp add: key_usage_def CertSign_def DigitalSignature_def KeyEncipherment_def)+

text \<open>C28: the two certificates form a chain.  When \<open>Generate\<close> succeeds, one key has been made, of the kind
  the configuration asks for; the first certificate is the authority's, signed with it for
  itself, the second is the server's, signed for the authority's name, and cannot sign others.
  Both files hold the same key.  Every host of the list is in the certificate, as an address or as
  a name; only an RSA key may encipher.  Both certificates also have the same serial number.\<close>

theorem generate_issues_a_chain:
  assumes "Generate cr c = (ca, sv, None)"
  shows "\<exists>priv t der_ca der_sv. generate_priv cr c = Inr priv \<and>
    cr_create cr (ca_template priv t) (ca_template priv t) (publicKey cr priv) priv = Inr der_ca \<and>
    cr_create cr t (ca_template priv t) (publicKey cr priv) priv = Inr der_sv \<and>
    cr_pem cr ''CERTIFICATE'' der_ca = Inr (pm_Cert ca) \<and> cr_pem cr ''CERTIFICATE'' der_sv = Inr (pm_Cert sv) \<and>
    pm_Key ca = pm_Key sv \<and> pm_Public ca = pm_Public sv \<and>
    \<not> ct_IsCA t \<and> ct_KeyUsage t AND CertSign = 0 \<and> (ct_KeyUsage t AND KeyEncipherment \<noteq> 0 \<longleftrightarrow> (\<exists>k. priv = RsaKey k)) \<and>
    ct_IPAddresses t = List.map_filter (cr_parse_ip cr) (split (CHR '','') (pg_Host c)) \<and>
    ct_DNSNames t = filter (\<lambda>h. cr_parse_ip cr h = None) (split (CHR '','') (pg_Host c)) \<and>
    ct_SerialNumber (ca_template priv t) = ct_SerialNumber t"
proof -
  from assms obtain priv where p: "generate_priv cr c = Inr priv"
    by (cases "generate_priv cr c") (auto simp: Generate_def)
  with assms obtain n where n: "cr_serial cr (2 ^ 128) = Inr n"
    by (cases "cr_serial cr (2 ^ 128)") (auto simp: Generate_def)
  define t where "t = cert_template cr c priv n"
  have g: "generatePems cr (ca_template priv t) (ca_template priv t) priv = Inr ca"
    "generatePems cr t (ca_template priv t) priv = Inr sv"
    using assms p n by (auto simp: Generate_def t_def Let_def split: sum.splits)
  from generatePems_Inr [OF g(1)] generatePems_Inr [OF g(2)] obtain der_ca der_sv where
    d: "cr_create cr (ca_template priv t) (ca_template priv t) (publicKey cr priv) priv = Inr der_ca"
      "cr_create cr t (ca_template priv t) (publicKey cr priv) priv = Inr der_sv"
      "cr_pem cr ''CERTIFICATE'' der_ca = Inr (pm_Cert ca)" "cr_pem cr ''CERTIFICATE'' der_sv = Inr (pm_Cert sv)"
      "pm_Key ca = pm_Key sv" "pm_Public ca = pm_Public sv" by (elim exE conjE) simp
  have k: "ct_KeyUsage t = key_usage priv" by (simp add: t_def template_simps)
  show ?thesis
    by (rule exI [of _ priv], rule exI [of _ t], rule exI [of _ der_ca], rule exI [of _ der_sv])
      (simp add: p d k key_usage_bits, simp add: t_def template_simps)
qed

definition toy_crypto :: "nat crypto" where
  "toy_crypto = \<lparr>cr_text = (\<lambda>e. []), cr_ed25519 = Inr 1, cr_rsa = (\<lambda>n. if n < 512 then Inl (Failure ''key size too small'') else Inr 2),
     cr_ecdsa = (\<lambda>curve. Inr 3), cr_public = (\<lambda>k. k + 100), cr_now = 0, cr_serial = (\<lambda>n. Inr 77),
     cr_parse_ip = (\<lambda>h. if h = ''10.0.0.1'' then Some h else None),
     cr_create = (\<lambda>t p pub priv. Inr [if ct_IsCA t then 1 else 0]), cr_pem = (\<lambda>kind b. Inr (kind @ string_of_bytes b)),
     cr_pkcs8 = (\<lambda>k. Inr [5]), cr_pkix = (\<lambda>k. Inr [6])\<rparr>"

definition toy_pem_config :: pem_config where
  "toy_pem_config = \<lparr>pg_Host = ''localhost,10.0.0.1'', pg_ValidFor = 10000, pg_RsaBits = 2048, pg_EcdsaCurve = [],
     pg_Ed25519Key = False\<rparr>"

theorem generate_issues_a_chain_witness:
  "\<exists>ca sv (t :: certificate). Generate toy_crypto toy_pem_config = (ca, sv, None) \<and> pm_Key ca = pm_Key sv \<and>
    ct_IPAddresses t = [''10.0.0.1''] \<and> ct_DNSNames t = [''localhost'']"
proof -
  have "snd (snd (Generate toy_crypto toy_pem_config)) = None"
    by (simp add: Generate_def generate_priv_def generatePems_def toy_crypto_def toy_pem_config_def Let_def)
  then obtain ca sv where g: "Generate toy_crypto toy_pem_config = (ca, sv, None)" by (metis prod.collapse)
  have h: "List.map_filter (cr_parse_ip toy_crypto) (split (CHR '','') (pg_Host toy_pem_config)) = [''10.0.0.1'']"
    "filter (\<lambda>h. cr_parse_ip toy_crypto h = None) (split (CHR '','') (pg_Host toy_pem_config)) = [''localhost'']"
    by (simp_all add: toy_crypto_def toy_pem_config_def map_filter_simps)
  from generate_issues_a_chain [OF g] obtain t :: certificate where "pm_Key ca = pm_Key sv"
    "ct_IPAddresses t = [''10.0.0.1'']" "ct_DNSNames t = [''localhost'']" unfolding h by (elim exE conjE) blast
  with g show ?thesis by (intro exI [of _ ca] exI [of _ sv] exI [of _ t] conjI)
qed

text \<open>C38: how long a certificate is valid.  The validity is the configured number of days exactly
  when that is at most 106751 days, some 292 years, in either direction; beyond, the product of
  nanoseconds wraps in 64 bits, and a certificate for one day more has ended before it begins.\<close>

theorem validity_is_in_days:
  "(ct_NotAfter (cert_template cr c priv n) - ct_NotBefore (cert_template cr c priv n) = sint (pg_ValidFor c) * 86400000000000
     \<longleftrightarrow> \<bar>sint (pg_ValidFor c)\<bar> \<le> 106751) \<and>
   ct_NotAfter (cert_template cr (c\<lparr>pg_ValidFor := 106752\<rparr>) priv n) <
     ct_NotBefore (cert_template cr (c\<lparr>pg_ValidFor := 106752\<rparr>) priv n)"
proof -
  let ?d = "pg_ValidFor c"
  have v: "ct_NotAfter (cert_template cr c priv n) - ct_NotBefore (cert_template cr c priv n) = validity ?d"
    by (simp add: template_simps)
  have "?d * 24 * 3600000000000 = ?d * 86400000000000" by (simp add: mult.assoc)
  moreover have "sint (?d * 86400000000000) = signed_take_bit 63 (sint ?d * 86400000000000)"
    by (simp add: sint_word_ariths)
  ultimately have "validity ?d = signed_take_bit 63 (sint ?d * 86400000000000)" unfolding validity_def by (metis (no_types))
  then have "validity ?d = sint ?d * 86400000000000 \<longleftrightarrow>
      - (2 ^ 63) \<le> sint ?d * 86400000000000 \<and> sint ?d * 86400000000000 < 2 ^ 63"
    by (simp add: signed_take_bit_int_eq_self_iff)
  also have "\<dots> \<longleftrightarrow> \<bar>sint ?d\<bar> \<le> 106751" by auto
  finally have "validity ?d = sint ?d * 86400000000000 \<longleftrightarrow> \<bar>sint ?d\<bar> \<le> 106751" .
  moreover have "validity 106752 < 0" by code_simp
  then have "ct_NotAfter (cert_template cr (c\<lparr>pg_ValidFor := 106752\<rparr>) priv n) <
     ct_NotBefore (cert_template cr (c\<lparr>pg_ValidFor := 106752\<rparr>) priv n)" by (simp add: template_simps)
  ultimately show ?thesis using v by auto
qed

end
