(* ===== verification/ProxySrv.thy ===== *)
theory ProxySrv
  imports ClientSess ConfigHandler GeneratePem
begin

text \<open>
  The proxy server, pkg/mysqlproxy/proxysrv.go and userprovider.go: what a login name says of the
  target, the credential provider over the server table, the worker of one connection, which
  serves the administrator or connects a client with its target, and the accept loop.  The MySQL
  server library (handshake and command reading) is a parameter.
\<close>

section \<open>Login names and addresses\<close>

record proxy_cfg =
  pc_ProxyListenAddr :: string
  pc_ProxyListentNet :: string
  pc_ConTimeout :: "64 word"
  pc_LogFileName :: string
  pc_RotateTime :: "64 word"
  pc_AdminUser :: string
  pc_Debug :: bool

definition addPort :: "string \<Rightarrow> string" where
  "addPort s = (let s = (if length s = 0 then ''localhost:3306'' else s); ss = split (CHR '':'') s in
     if length ss = 1 then s @ '':3306'' else s)"

definition getUserPass :: "string \<Rightarrow> string \<times> string" where
  "getUserPass s = (let substrings = split (CHR '':'') s in
     if length substrings \<noteq> 2 then (s, []) else (substrings ! 0, substrings ! 1))"

text \<open>User, server and password; without exactly one \<open>@\<close> the server is empty.\<close>

definition getTargetInfo :: "string \<Rightarrow> string \<times> string \<times> string" where
  "getTargetInfo s = (let substrings = split (CHR ''@'') s in
     if length substrings \<noteq> 2 then (case getUserPass s of (user, pass) \<Rightarrow> (user, [], pass))
     else (case getUserPass (substrings ! 0) of (user, pass) \<Rightarrow> (user, substrings ! 1, pass)))"

lemma addPort_port: "CHR '':'' \<in> set (addPort s)"
  using split_single [of "CHR '':''" s] by (auto simp: addPort_def Let_def)

lemma addPort_idem [simp]: "addPort (addPort s) = addPort s"
proof -
  have "addPort t = t" if "CHR '':'' \<in> set t" for t
    using that split_single [of "CHR '':''" t] by (auto simp: addPort_def Let_def)
  then show ?thesis using addPort_port by blast
qed

lemma addPort_cases:
  "addPort s = (if s = [] then ''localhost:3306'' else if CHR '':'' \<in> set s then s else s @ '':3306'')"
  using split_single [of "CHR '':''" s] by (simp add: addPort_def Let_def)

lemma getUserPass_parts:
  assumes "CHR '':'' \<notin> set u" and "CHR '':'' \<notin> set p"
  shows "getUserPass u = (u, [])" and "getUserPass (u @ '':'' @ p) = (u, p)"
  using assms by (simp_all add: getUserPass_def split_none split_append Let_def)

lemma getUserPass_plain: "CHR ''@'' \<notin> set s \<Longrightarrow> getTargetInfo s = (case getUserPass s of (u, p) \<Rightarrow> (u, [], p))"
  by (simp add: getTargetInfo_def split_none)

lemma getTargetInfo_at:
  assumes "CHR ''@'' \<notin> set s" and "CHR ''@'' \<notin> set h"
  shows "getTargetInfo (s @ ''@'' @ h) = (case getUserPass s of (u, p) \<Rightarrow> (u, h, p))"
  using assms by (simp add: getTargetInfo_def split_none split_append Let_def)

section \<open>The credential provider\<close>

type_synonym 'm user_manager = "string \<Rightarrow> 'm \<Rightarrow> (go_error + string) outcome \<times> 'm"

definition CheckUsername :: "'m user_manager \<Rightarrow> string \<Rightarrow> 'm \<Rightarrow> (bool \<times> go_error option) outcome \<times> 'm" where
  "CheckUsername gp username m = (case gp username m of
       (Panics msg, m1) \<Rightarrow> (Panics msg, m1)
     | (Returns (Inl e), m1) \<Rightarrow> (Returns (False, Some e), m1)
     | (Returns (Inr pw), m1) \<Rightarrow> (Returns (True, None), m1))"

definition GetCredential ::
  "'m user_manager \<Rightarrow> string \<Rightarrow> 'm \<Rightarrow> (string \<times> bool \<times> go_error option) outcome \<times> 'm" where
  "GetCredential gp username m = (case gp username m of
       (Panics msg, m1) \<Rightarrow> (Panics msg, m1)
     | (Returns (Inl e), m1) \<Rightarrow> (Returns ([], False, None), m1)
     | (Returns (Inr pw), m1) \<Rightarrow> (Returns (pw, True, None), m1))"

text \<open>
  What the provider relies on: a manager whose lookups answer from a table of passwords
  and leave the table as it is.
\<close>

locale user_table =
  fixes gp :: "'m user_manager"
    and ok :: "'m \<Rightarrow> bool"
    and table :: "'m \<Rightarrow> string \<Rightarrow> (go_error + string) outcome"
  assumes lookup: "ok m \<Longrightarrow> gp u m = (r, m') \<Longrightarrow> r = table m u \<and> ok m' \<and> table m' = table m"
begin

lemma check_spec:
  assumes "ok m"
  shows "\<exists>m'. CheckUsername gp u m = (case table m u of
       Panics msg \<Rightarrow> Panics msg
     | Returns (Inl e) \<Rightarrow> Returns (False, Some e) | Returns (Inr pw) \<Rightarrow> Returns (True, None), m') \<and>
     ok m' \<and> table m' = table m"
proof -
  obtain r m' where "gp u m = (r, m')" by (metis prod.collapse)
  with lookup [OF assms this] show ?thesis
    by (auto simp: CheckUsername_def split: outcome.split sum.split)
qed

lemma credential_spec:
  assumes "ok m"
  shows "\<exists>m'. GetCredential gp u m = (case table m u of
       Panics msg \<Rightarrow> Panics msg
     | Returns (Inl e) \<Rightarrow> Returns ([], False, None) | Returns (Inr pw) \<Rightarrow> Returns (pw, True, None), m') \<and>
     ok m' \<and> table m' = table m"
proof -
  obtain r m' where "gp u m = (r, m')" by (metis prod.collapse)
  with lookup [OF assms this] show ?thesis
    by (auto simp: GetCredential_def split: outcome.split sum.split)
qed

text \<open>The two answers agree: a known name is one with a credential.\<close>

lemma check_agrees_credential:
  assumes "ok m"
  shows "(fst (CheckUsername gp u m) = Returns (True, None)) \<longleftrightarrow> (\<exists>pw. fst (GetCredential gp u m) = Returns (pw, True, None))"
  using check_spec [OF assms, of u] credential_spec [OF assms, of u]
  by (auto split: outcome.splits sum.splits)

end

text \<open>The manager's lookup answers from the file that is stored.\<close>

definition stored_file :: "mgr \<Rightarrow> bool" where
  "stored_file m \<longleftrightarrow> (\<exists>conf. stored conf m)"

definition password_table :: "env \<Rightarrow> mgr \<Rightarrow> string \<Rightarrow> (go_error + string) outcome" where
  "password_table v m u = fst (GetPassword v u m)"

lemma GetPassword_file: "mg_file (snd (GetPassword v u m)) = mg_file m"
  using get_config_file [of v m] by (cases "get_config v m") (auto simp: GetPassword_def split: option.split)

lemma GetPassword_same_file:
  assumes "stored conf m" and "mg_file m' = mg_file m"
  shows "fst (GetPassword v u m') = fst (GetPassword v u m)"
proof -
  have "stored conf m'" using assms by (simp add: stored_def)
  with get_config_stored [of conf m v] get_config_stored [of conf m' v] assms(1) show ?thesis
    by (auto simp: GetPassword_def split: option.split)
qed

interpretation mgr_table: user_table "GetPassword v" stored_file "password_table v" for v
proof
  fix m u r m'
  assume "stored_file m" and g: "GetPassword v u m = (r, m')"
  then obtain conf where c: "stored conf m" by (auto simp: stored_file_def)
  have f: "mg_file m' = mg_file m" using GetPassword_file [of v u m] by (simp add: g)
  have "stored_file m'" using c f by (auto simp: stored_file_def stored_def)
  moreover have "password_table v m' = password_table v m"
    using GetPassword_same_file [OF c f] by (auto simp: password_table_def)
  ultimately show "r = password_table v m u \<and> stored_file m' \<and> password_table v m' = password_table v m"
    by (simp add: password_table_def g)
qed

section \<open>The worker of a connection\<close>

text \<open>
  The server library: the handshake, which asks the provider for credentials and tells the handler
  the database, what the connection knows after it, and \<open>HandleCommand\<close>, which reads one command and
  calls the handler's methods.
\<close>

record handler_methods =
  hm_query :: "string \<Rightarrow> config_handler \<Rightarrow> (result option \<times> go_error option) outcome \<times> config_handler"
  hm_other :: "byte \<Rightarrow> bytes \<Rightarrow> go_error"
  hm_use_db :: "string \<Rightarrow> config_handler \<Rightarrow> config_handler"

definition config_methods :: "env \<Rightarrow> parser \<Rightarrow> handler_methods" where
  "config_methods v parser = \<lparr>hm_query = HandleQuery v parser, hm_other = HandleOtherCommand, hm_use_db = UseDB\<rparr>"

record provider =
  pr_check :: "string \<Rightarrow> mgr \<Rightarrow> (bool \<times> go_error option) outcome \<times> mgr"
  pr_credential :: "string \<Rightarrow> mgr \<Rightarrow> (string \<times> bool \<times> go_error option) outcome \<times> mgr"

definition NewConfigProvider :: "mgr user_manager \<Rightarrow> provider" where
  "NewConfigProvider gp = \<lparr>pr_check = CheckUsername gp, pr_credential = GetCredential gp\<rparr>"

record 'c mysql_server =
  ms_new_conn :: "provider \<Rightarrow> handler_methods \<Rightarrow> config_handler \<Rightarrow> (go_error + 'c) outcome \<times> config_handler"
  ms_user :: "'c \<Rightarrow> string"
  ms_capability :: "'c \<Rightarrow> 32 word"
  ms_conn_id :: "'c \<Rightarrow> 32 word"
  ms_closed :: "'c \<Rightarrow> bool"
  ms_close :: "'c \<Rightarrow> 'c"
  ms_handle_command :: "handler_methods \<Rightarrow> 'c \<Rightarrow> config_handler \<Rightarrow> go_error option outcome \<times> 'c \<times> config_handler"

partial_function (option) admin ::
  "'c mysql_server \<Rightarrow> handler_methods \<Rightarrow> 'c \<Rightarrow> config_handler \<Rightarrow> (go_error outcome \<times> 'c \<times> config_handler) option" where
  "admin ms hm c h = (case ms_handle_command ms hm c h of (r, c1, h1) \<Rightarrow>
     (case r of
       Panics msg \<Rightarrow> Some (Panics msg, c1, h1)
     | Returns (Some e) \<Rightarrow> Some (Returns e, c1, h1)
     | Returns None \<Rightarrow> admin ms hm c1 h1))"

text \<open>The target of a session: its password is the one of the name or, without one, the user's own.\<close>

definition session_target :: "env \<Rightarrow> string \<Rightarrow> config_handler \<Rightarrow> 't client_sess outcome \<times> config_handler" where
  "session_target v user h = (case getTargetInfo user of (targetUser, targetAddr, pass) \<Rightarrow>
     (case (if length pass = 0
            then (case pr_credential (NewConfigProvider (GetPassword v)) user (h_mgr h) of (r, m1) \<Rightarrow>
              (bind_outcome r (\<lambda>(pw, _, _). Returns pw), h\<lparr>h_mgr := m1\<rparr>))
            else (Returns pass, h)) of (targetPasswrd, h1) \<Rightarrow>
       (bind_outcome targetPasswrd (\<lambda>pw. Returns
          \<lparr>cs_TargetMysql = None, cs_TargetNet = ''tcp'', cs_TargetAddr = addPort targetAddr,
           cs_TargetUser = targetUser, cs_TargetPassword = pw, cs_TargetDB = GetDB h1\<rparr>), h1)))"

datatype 't session_end =
    NoLogin go_error
  | AdminEnd go_error
  | NoTarget "'t client_sess" go_error
  | Relayed "'t client_sess" "proxy_message list"

definition close_conn :: "'c mysql_server \<Rightarrow> 'c \<Rightarrow> 'c" where
  "close_conn ms c = (if ms_closed ms c then c else ms_close ms c)"

text \<open>
  The result is how the session ended, the MySQL connection after the deferred calls, the handler
  with the shared manager, and the log.  \<open>nets\<close> gives the two byte streams of the client and the
  target.  The network connection is closed in every case.
\<close>

definition session_worker ::
  "proxy_cfg \<Rightarrow> env \<Rightarrow> parser \<Rightarrow> 'c mysql_server \<Rightarrow> 't mysql_client \<Rightarrow> (string \<Rightarrow> 32 word) \<Rightarrow>
   (nat \<Rightarrow> nat \<Rightarrow> nat) \<Rightarrow> ('c \<Rightarrow> 't option \<Rightarrow> net \<times> net \<times> net) \<Rightarrow> 'l log_writer \<Rightarrow> string \<Rightarrow> mgr \<Rightarrow> 'l \<Rightarrow>
   ('t session_end outcome \<times> 'c option \<times> config_handler \<times> 'l) option" where
  "session_worker cfg v parser ms mc fl slack nets lw remote m l =
     (let hm = config_methods v parser in
      case ms_new_conn ms (NewConfigProvider (GetPassword v)) hm (new_config_handler m) of
       (Panics msg, h1) \<Rightarrow> Some (Panics msg, None, h1, l)
     | (Returns (Inl e), h1) \<Rightarrow> Some (Returns (NoLogin e), None, h1, l)
     | (Returns (Inr c), h1) \<Rightarrow>
         (if ms_user ms c = pc_AdminUser cfg then
            (case admin ms hm c h1 of
               None \<Rightarrow> None
             | Some (r, c1, h2) \<Rightarrow> Some (bind_outcome r (\<lambda>e. Returns (AdminEnd e)), Some (close_conn ms c1), h2, l))
          else (case session_target v (ms_user ms c) h1 of
             (Panics msg, h2) \<Rightarrow> Some (Panics msg, Some (close_conn ms c), h2, l)
           | (Returns sess, h2) \<Rightarrow>
               (case connect_to_mysql mc fl (ms_capability ms c) sess of
                 (Some e, sess1) \<Rightarrow> Some (Returns (NoTarget sess1 e), Some (close_conn ms c), h2, l)
               | (None, sess1) \<Rightarrow> (case nets c (cs_TargetMysql sess1) of (up, down, client) \<Rightarrow>
                   (case proxy mc slack lw remote (ms_conn_id ms c) sess1 up down client l of
                     Panics msg \<Rightarrow> Some (Panics msg, Some (close_conn ms c), h2, l)
                   | Returns (msgs, _, _, _, l1) \<Rightarrow>
                       Some (Returns (Relayed sess1 msgs), Some (close_conn ms c), h2, l1)))))))"

text \<open>
  The accept loop: each step is the result of \<open>Accept\<close> and whether the context is done when it
  returns.  Every accepted connection gets a goroutine of its own; the result lists them and says
  whether the loop has returned or waits in \<open>Accept\<close>.
\<close>

fun acceptClntConn :: "((go_error + 'n) \<times> bool) list \<Rightarrow> 'n list \<times> bool" where
  "acceptClntConn [] = ([], False)"
| "acceptClntConn ((r, ctx_done) # es) =
     (if ctx_done then ([], True)
      else case r of
        Inl e \<Rightarrow> acceptClntConn es
      | Inr conn \<Rightarrow> (case acceptClntConn es of (cs, fin) \<Rightarrow> (conn # cs, fin)))"

text \<open>
  \<open>createListener\<close>: \<open>net.Listen\<close>, \<open>envconfig.Process\<close> with the variable \<open>HOST\<close> set, and the
  crypto packages are parameters; \<open>log.Fatal\<close> ends the program.
\<close>

datatype 's listening = ListenFailed go_error | Fatal go_error | Listening 's pems pems

definition createListener ::
  "(string \<Rightarrow> string \<Rightarrow> go_error + 's) \<Rightarrow> (string \<Rightarrow> go_error + pem_config) \<Rightarrow> 'k crypto \<Rightarrow> proxy_cfg \<Rightarrow> 's listening" where
  "createListener listen process cr cfg =
     (case listen (pc_ProxyListentNet cfg) (pc_ProxyListenAddr cfg) of
       Inl e \<Rightarrow> ListenFailed (Errorf ''failed to create listening socket: %v'' (cr_text cr e))
     | Inr sock \<Rightarrow> (case process ''localhost'' of
         Inl e \<Rightarrow> Fatal e
       | Inr pem_conf \<Rightarrow> (case Generate cr pem_conf of
           (ca, sv, Some e) \<Rightarrow> Fatal e
         | (ca, sv, None) \<Rightarrow> Listening sock ca sv)))"

text \<open>\<open>Start\<close>: the error it returns and the sessions it has started, unless the program has ended.\<close>

definition Start ::
  "(string \<Rightarrow> string \<Rightarrow> go_error + 's) \<Rightarrow> (string \<Rightarrow> go_error + pem_config) \<Rightarrow> 'k crypto \<Rightarrow> proxy_cfg \<Rightarrow>
   ('s \<Rightarrow> ((go_error + 'n) \<times> bool) list) \<Rightarrow> (go_error option \<times> 'n list) option" where
  "Start listen process cr cfg arrivals = (case createListener listen process cr cfg of
       ListenFailed e \<Rightarrow> Some (Some e, [])
     | Fatal e \<Rightarrow> None
     | Listening sock ca sv \<Rightarrow> Some (None, fst (acceptClntConn (arrivals sock))))"

lemma acceptClntConn_sessions:
  "acceptClntConn es = (let pre = takeWhile (\<lambda>(r, d). \<not> d) es in
     ([c. (Inr c, d) \<leftarrow> pre], pre \<noteq> es))"
  by (induction es rule: acceptClntConn.induct) (auto simp: Let_def split: sum.split)

section \<open>Properties\<close>

text \<open>What the session of a login name is about.\<close>

definition login_name :: "string \<Rightarrow> string \<Rightarrow> string \<Rightarrow> string" where
  "login_name u p h = u @ (if p = [] then [] else '':'' @ p) @ ''@'' @ h"

lemma login_name_target:
  assumes "CHR '':'' \<notin> set (u @ p)" and "CHR ''@'' \<notin> set (u @ p @ h)"
  shows "getTargetInfo (login_name u p h) = (u, h, p)"
proof (cases "p = []")
  case True
  then show ?thesis
    using assms getTargetInfo_at [of u h] getUserPass_parts(1) [of u "[]"] by (simp add: login_name_def)
next
  case False
  then show ?thesis
    using assms getTargetInfo_at [of "u @ '':'' @ p" h] getUserPass_parts(2) [of u p] by (simp add: login_name_def)
qed

lemma session_target_spec:
  assumes "CHR '':'' \<notin> set (u @ p)" and "CHR ''@'' \<notin> set (u @ p @ host)" and "stored_file (h_mgr h)"
    and "password_table v (h_mgr h) (login_name u p host) = Returns (Inr pw)"
  shows "\<exists>h'. session_target v (login_name u p host) h = (Returns
      \<lparr>cs_TargetMysql = None, cs_TargetNet = ''tcp'', cs_TargetAddr = addPort host, cs_TargetUser = u,
       cs_TargetPassword = (if p = [] then pw else p), cs_TargetDB = h_db h\<rparr>, h')"
proof (cases "p = []")
  case True
  from mgr_table.credential_spec [OF assms(3), of v "login_name u p host"] obtain m' where
    "GetCredential (GetPassword v) (login_name u p host) (h_mgr h) = (Returns (pw, True, None), m')"
    using assms(4) by auto
  with True login_name_target [OF assms(1,2)] show ?thesis
    by (simp add: session_target_def NewConfigProvider_def GetDB_def)
next
  case False
  then show ?thesis by (simp add: session_target_def login_name_target [OF assms(1,2)] GetDB_def)
qed


definition toy_cfg :: proxy_cfg where
  "toy_cfg = \<lparr>pc_ProxyListenAddr = '':3307'', pc_ProxyListentNet = ''tcp'', pc_ConTimeout = 300,
     pc_LogFileName = ''a'', pc_RotateTime = 3600, pc_AdminUser = ''admin'', pc_Debug = False\<rparr>"

definition toy_secret :: string where
  "toy_secret = (case fst (encrypt toy_aead toy_tape (replicate 32 7) ''pw'' 0) of Inr s \<Rightarrow> s | Inl e \<Rightarrow> [])"

definition toy_users :: config where
  "toy_users = \<lparr>cf_Servers = [\<lparr>sv_User = ''u1@h'', sv_Password = toy_secret\<rparr>], cf_Key = replicate 32 7\<rparr>"

definition user_mgr :: mgr where
  "user_mgr = toy_mgr\<lparr>mg_file := Some (json_encode toy_users)\<rparr>"

text \<open>A server whose connections log in as \<open>u1@h\<close> with the database \<open>db\<close> and then send queries.\<close>

definition toy_server :: "string \<Rightarrow> string list mysql_server" where
  "toy_server user = \<lparr>ms_new_conn = (\<lambda>pr hm h. (Returns (Inr [''select'']), hm_use_db hm ''db'' h)),
     ms_user = (\<lambda>c. user), ms_capability = (\<lambda>c. 1), ms_conn_id = (\<lambda>c. 9),
     ms_closed = (\<lambda>c. c = []), ms_close = (\<lambda>c. []),
     ms_handle_command = (\<lambda>hm c h. case c of [] \<Rightarrow> (Returns (Some EOF), c, h)
       | q # qs \<Rightarrow> (case hm_query hm q h of (Panics msg, h1) \<Rightarrow> (Panics msg, qs, h1) | (Returns r, h1) \<Rightarrow> (Returns None, qs, h1)))\<rparr>"

lemma stored_users: "stored toy_users user_mgr"
  by (simp add: stored_def user_mgr_def toy_users_def)

lemma password_users: "password_table toy_env user_mgr ''u1@h'' = Returns (Inr ''pw'')"
proof -
  obtain s where s: "encrypt toy_aead toy_tape (replicate 32 7) ''pw'' 0 = (Inr s, 0 + nonce_size)"
    and d: "decrypt toy_aead (replicate 32 7) s = Returns (Inr ''pw'')"
    using encrypt_ok [OF opens_sealed_toy, of "replicate 32 7" toy_tape "''pw''" 0] by auto
  then have "toy_secret = s" by (simp add: toy_secret_def)
  with d get_config_stored [OF stored_users, of toy_env] show ?thesis
    by (auto simp: password_table_def GetPassword_def toy_users_def toy_env_def)
qed


text \<open>
  A server library that reads the queries of a connection one by one and calls the handler, and
  fails at the end of the connection; \<open>pending\<close> is what the client will still send.
\<close>

definition serves_queries :: "'c mysql_server \<Rightarrow> ('c \<Rightarrow> string list) \<Rightarrow> bool" where
  "serves_queries ms pending \<longleftrightarrow> (\<forall>hm c h. case pending c of
       [] \<Rightarrow> \<exists>c'. ms_handle_command ms hm c h = (Returns (Some EOF), c', h)
     | q # qs \<Rightarrow> (case hm_query hm q h of
         (Panics msg, h1) \<Rightarrow> \<exists>c'. ms_handle_command ms hm c h = (Panics msg, c', h1)
       | (Returns r, h1) \<Rightarrow> \<exists>c'. ms_handle_command ms hm c h = (Returns None, c', h1) \<and> pending c' = qs))"

lemma serves_queries_case:
  "serves_queries ms pending \<Longrightarrow> case pending c of
       [] \<Rightarrow> \<exists>c'. ms_handle_command ms hm c h = (Returns (Some EOF), c', h)
     | q # qs \<Rightarrow> (case hm_query hm q h of
         (Panics msg, h1) \<Rightarrow> \<exists>c'. ms_handle_command ms hm c h = (Panics msg, c', h1)
       | (Returns r, h1) \<Rightarrow> \<exists>c'. ms_handle_command ms hm c h = (Returns None, c', h1) \<and> pending c' = qs)"
  unfolding serves_queries_def by (elim allE)

lemma admin_queries:
  assumes "serves_queries ms pending" and "pending c = qs"
  shows "\<exists>c'. admin ms (config_methods v parser) c h = Some (case run_queries v parser qs h of
    (Panics msg, h') \<Rightarrow> (Panics msg, c', h') | (Returns rs, h') \<Rightarrow> (Returns EOF, c', h'))"
  using assms(2)
proof (induction qs arbitrary: c h)
  case Nil
  with serves_queries_case [OF assms(1), where c = c and hm = "config_methods v parser" and h = h]
  obtain c' where "ms_handle_command ms (config_methods v parser) c h = (Returns (Some EOF), c', h)" by auto
  then show ?case by (simp add: admin.simps [of ms _ c h])
next
  case (Cons q qs)
  obtain r h1 where q: "HandleQuery v parser q h = (r, h1)" by (metis prod.collapse)
  have hm: "hm_query (config_methods v parser) q h = (r, h1)" by (simp add: config_methods_def q)
  have s: "case (r, h1) of (Panics msg, h1) \<Rightarrow> \<exists>c'. ms_handle_command ms (config_methods v parser) c h = (Panics msg, c', h1)
       | (Returns r, h1) \<Rightarrow> \<exists>c'. ms_handle_command ms (config_methods v parser) c h = (Returns None, c', h1) \<and> pending c' = qs"
    using serves_queries_case [OF assms(1), where c = c and hm = "config_methods v parser" and h = h] Cons.prems hm by simp
  show ?case
  proof (cases r)
    case (Panics msg)
    with s obtain c' where "ms_handle_command ms (config_methods v parser) c h = (Panics msg, c', h1)" by auto
    with q Panics show ?thesis by (simp add: admin.simps [of ms _ c h])
  next
    case (Returns x)
    with s obtain c1 where c: "ms_handle_command ms (config_methods v parser) c h = (Returns None, c1, h1)" "pending c1 = qs"
      by auto
    from Cons.IH [OF c(2), of h1] obtain c' where
      "admin ms (config_methods v parser) c1 h1 = Some (case run_queries v parser qs h1 of
        (Panics msg, h') \<Rightarrow> (Panics msg, c', h') | (Returns rs, h') \<Rightarrow> (Returns EOF, c', h'))" by blast
    with q Returns c(1) show ?thesis
      by (cases "run_queries v parser qs h1"; cases "fst (run_queries v parser qs h1)")
        (auto simp: admin.simps [of ms _ c h])
  qed
qed

lemma run_queries_returns:
  "h_panic h = None \<Longrightarrow> \<forall>q \<in> set qs. parser q \<noteq> Inr [] \<Longrightarrow> \<exists>rs h'. run_queries v parser qs h = (Returns rs, h')"
proof (induction qs arbitrary: h)
  case (Cons q qs)
  then obtain r h1 where "HandleQuery v parser q h = (Returns r, h1)" "h_panic h1 = None"
    using handle_query_returns [of h parser q v] by auto
  with Cons.IH [of h1] Cons.prems(2) show ?case by auto
qed simp


lemma serves_queries_toy: "serves_queries (toy_server u) (\<lambda>c. c)"
  by (auto simp: serves_queries_def toy_server_def split: list.split outcome.split prod.split)


end
