(* ===== verification/Pipeline.thy ===== *)
theory Pipeline
  imports ProxySrv
begin

text \<open>
  The running proxy, src/main.go: the goroutines that share the log channel and the record pool.
  A record is a pointer into a heap, so that it can be seen who may still write to it; a session
  takes one from the pool, fills it, and sends it or gives it back, the log worker receives it, encodes it
  and puts it back.  An interrupt cancels the context; when the accept loop has returned, the
  main program closes the channel and ends with the worker, whatever the sessions do.
\<close>

section \<open>The system\<close>

text \<open>\<open>y_pushed\<close> and \<open>y_encoded\<close> are the contents of the records when they were sent and encoded.\<close>

datatype server_phase = Starting | Accepting | Returned

record system =
  y_heap :: "nat \<Rightarrow> bytes send_packet"
  y_fresh :: nat
  y_pool :: "nat list"
  y_live :: "nat set"
  y_held :: "nat \<rightharpoonup> nat"
  y_queue :: "nat list"
  y_writing :: "nat option"
  y_pushed :: "bytes send_packet list"
  y_encoded :: "bytes send_packet list"
  y_ctx_done :: bool
  y_server :: server_phase
  y_closed :: bool
  y_worker :: bool
  y_crashed :: bool
  y_exited :: bool

definition queue_capacity :: nat where
  "queue_capacity = 1000"

definition main_start :: "(nat \<Rightarrow> bytes send_packet) \<Rightarrow> system" where
  "main_start h = \<lparr>y_heap = h, y_fresh = 0, y_pool = [], y_live = {}, y_held = Map.empty, y_queue = [],
     y_writing = None, y_pushed = [], y_encoded = [], y_ctx_done = False, y_server = Starting, y_closed = False,
     y_worker = True, y_crashed = False, y_exited = False\<rparr>"

definition running :: "system \<Rightarrow> bool" where
  "running s \<longleftrightarrow> \<not> y_crashed s \<and> \<not> y_exited s"

text \<open>
  One step of one goroutine.  A send in a \<open>select\<close> with the context may be taken or not when the
  context is done; a worker that finds it done leaves what is queued.
\<close>

inductive sys_step :: "system \<Rightarrow> system \<Rightarrow> bool" where
  Listens: "running s \<Longrightarrow> y_server s = Starting \<Longrightarrow> sys_step s (s\<lparr>y_server := Accepting\<rparr>)"
| StartFails: "running s \<Longrightarrow> y_server s = Starting \<Longrightarrow> sys_step s (s\<lparr>y_server := Returned\<rparr>)"
| Accept: "running s \<Longrightarrow> y_server s = Accepting \<Longrightarrow> i \<notin> y_live s \<Longrightarrow> sys_step s (s\<lparr>y_live := insert i (y_live s)\<rparr>)"
| GetNew: "running s \<Longrightarrow> i \<in> y_live s \<Longrightarrow> y_held s i = None \<Longrightarrow> p = y_fresh s \<Longrightarrow>
    sys_step s (s\<lparr>y_held := (y_held s)(i \<mapsto> p), y_fresh := Suc p\<rparr>)"
| GetPooled: "running s \<Longrightarrow> i \<in> y_live s \<Longrightarrow> y_held s i = None \<Longrightarrow> p \<in> set (y_pool s) \<Longrightarrow>
    sys_step s (s\<lparr>y_held := (y_held s)(i \<mapsto> p), y_pool := remove1 p (y_pool s)\<rparr>)"
| PoolDrops: "running s \<Longrightarrow> p \<in> set (y_pool s) \<Longrightarrow> sys_step s (s\<lparr>y_pool := remove1 p (y_pool s)\<rparr>)"
| Fill: "running s \<Longrightarrow> y_held s i = Some p \<Longrightarrow> sys_step s (s\<lparr>y_heap := (y_heap s)(p := r)\<rparr>)"
| Push: "running s \<Longrightarrow> y_held s i = Some p \<Longrightarrow> \<not> y_closed s \<Longrightarrow> length (y_queue s) < queue_capacity \<Longrightarrow>
    sys_step s (s\<lparr>y_held := (y_held s)(i := None), y_queue := y_queue s @ [p], y_pushed := y_pushed s @ [y_heap s p]\<rparr>)"
| PushOnClosed: "running s \<Longrightarrow> y_held s i = Some p \<Longrightarrow> y_closed s \<Longrightarrow> sys_step s (s\<lparr>y_crashed := True\<rparr>)"
| GiveBack: "running s \<Longrightarrow> y_held s i = Some p \<Longrightarrow>
    sys_step s (s\<lparr>y_held := (y_held s)(i := None), y_pool := p # y_pool s\<rparr>)"
| Abandon: "running s \<Longrightarrow> y_held s i = Some p \<Longrightarrow> y_ctx_done s \<Longrightarrow> sys_step s (s\<lparr>y_held := (y_held s)(i := None)\<rparr>)"
| Leave: "running s \<Longrightarrow> i \<in> y_live s \<Longrightarrow> y_held s i = None \<Longrightarrow> sys_step s (s\<lparr>y_live := y_live s - {i}\<rparr>)"
| Take: "running s \<Longrightarrow> y_worker s \<Longrightarrow> y_writing s = None \<Longrightarrow> y_queue s = p # q \<Longrightarrow>
    sys_step s (s\<lparr>y_queue := q, y_writing := Some p\<rparr>)"
| Encode: "running s \<Longrightarrow> y_writing s = Some p \<Longrightarrow>
    sys_step s (s\<lparr>y_writing := None, y_encoded := y_encoded s @ [y_heap s p], y_pool := p # y_pool s\<rparr>)"
| WorkerStops: "running s \<Longrightarrow> y_worker s \<Longrightarrow> y_writing s = None \<Longrightarrow> y_ctx_done s \<or> y_closed s \<and> y_queue s = [] \<Longrightarrow>
    sys_step s (s\<lparr>y_worker := False\<rparr>)"
| Interrupt: "running s \<Longrightarrow> sys_step s (s\<lparr>y_ctx_done := True\<rparr>)"
| AcceptReturns: "running s \<Longrightarrow> y_server s = Accepting \<Longrightarrow> y_ctx_done s \<Longrightarrow> sys_step s (s\<lparr>y_server := Returned\<rparr>)"
| CloseChannel: "running s \<Longrightarrow> y_server s = Returned \<Longrightarrow> \<not> y_closed s \<Longrightarrow> sys_step s (s\<lparr>y_closed := True\<rparr>)"
| Cancel: "running s \<Longrightarrow> y_closed s \<Longrightarrow> sys_step s (s\<lparr>y_ctx_done := True\<rparr>)"
| Exit: "running s \<Longrightarrow> y_closed s \<Longrightarrow> y_ctx_done s \<Longrightarrow> \<not> y_worker s \<Longrightarrow> sys_step s (s\<lparr>y_exited := True\<rparr>)"

inductive reachable :: "system \<Rightarrow> bool" where
  start: "reachable (main_start h)"
| step: "reachable s \<Longrightarrow> sys_step s s' \<Longrightarrow> reachable s'"

inductive_cases sys_step_elim: "sys_step s s'"

text \<open>After the program has ended, or crashed, nothing happens.\<close>

lemma ended_for_good: "\<not> running s \<Longrightarrow> \<not> sys_step s s'"
  by (auto elim: sys_step_elim)

section \<open>Who owns a record\<close>

definition in_flight :: "system \<Rightarrow> nat list" where
  "in_flight s = (case y_writing s of Some p \<Rightarrow> [p] | None \<Rightarrow> []) @ y_queue s"

definition owned :: "system \<Rightarrow> bool" where
  "owned s \<longleftrightarrow> distinct (y_pool s @ in_flight s) \<and> inj_on (y_held s) (dom (y_held s)) \<and>
     ran (y_held s) \<inter> set (y_pool s @ in_flight s) = {} \<and>
     (\<forall>p \<in> ran (y_held s) \<union> set (y_pool s @ in_flight s). p < y_fresh s)"

definition fifo :: "system \<Rightarrow> bool" where
  "fifo s \<longleftrightarrow> y_pushed s = y_encoded s @ map (y_heap s) (in_flight s) \<and> length (y_queue s) \<le> queue_capacity"

lemma owned_start: "owned (main_start h)" and fifo_start: "fifo (main_start h)"
  by (simp_all add: owned_def fifo_def main_start_def in_flight_def)

lemma ran_upd_None: "ran (m(i := None)) \<subseteq> ran m"
  by (auto simp: ran_def)

lemma inj_on_upd_None: "inj_on m (dom m) \<Longrightarrow> inj_on (m(i := None)) (dom (m(i := None)))"
  by (auto simp: inj_on_def split: if_splits)

lemma inj_on_upd_Some: "inj_on m (dom m) \<Longrightarrow> p \<notin> ran m \<Longrightarrow> inj_on (m(i \<mapsto> p)) (dom (m(i \<mapsto> p)))"
  by (auto simp: inj_on_def ran_def split: if_splits)

lemma ran_removed: "inj_on m (dom m) \<Longrightarrow> m i = Some p \<Longrightarrow> p \<notin> ran (m(i := None))"
  unfolding ran_def inj_on_def by (auto split: if_splits) (metis domI)

text \<open>What a session gives up can go anywhere.\<close>

lemma owned_gives:
  assumes "owned s" and "y_held s i = Some p"
  shows "p \<notin> ran ((y_held s)(i := None))" and "p \<notin> set (y_pool s @ in_flight s)" and "p < y_fresh s"
    and "inj_on ((y_held s)(i := None)) (dom ((y_held s)(i := None)))"
    and "ran ((y_held s)(i := None)) \<subseteq> ran (y_held s)"
proof -
  have r: "p \<in> ran (y_held s)" using assms(2) by (auto intro: ranI)
  have i: "inj_on (y_held s) (dom (y_held s))" using assms(1) by (simp add: owned_def)
  show "p \<notin> ran ((y_held s)(i := None))" by (rule ran_removed [OF i assms(2)])
  show "p \<notin> set (y_pool s @ in_flight s)" "p < y_fresh s" using r assms(1) by (auto simp: owned_def)
  show "inj_on ((y_held s)(i := None)) (dom ((y_held s)(i := None)))" by (rule inj_on_upd_None [OF i])
  show "ran ((y_held s)(i := None)) \<subseteq> ran (y_held s)" by (rule ran_upd_None)
qed

lemma owned_step: "sys_step s s' \<Longrightarrow> owned s \<Longrightarrow> owned s'"
proof (induction rule: sys_step.induct)
  case (GetNew s i p)
  then have "p \<notin> ran (y_held s)" "p \<notin> set (y_pool s @ in_flight s)" by (auto simp: owned_def)
  with GetNew show ?case
    by (auto simp: owned_def in_flight_def inj_on_upd_Some ran_map_upd intro: less_SucI simp del: fun_upd_apply dom_fun_upd)
next
  case (GetPooled s i p)
  then have "p \<notin> ran (y_held s)" "p < y_fresh s" "p \<notin> set (in_flight s)" by (auto simp: owned_def)
  with GetPooled show ?case
    by (auto simp: owned_def in_flight_def inj_on_upd_Some ran_map_upd simp del: fun_upd_apply dom_fun_upd)
next
  case (PoolDrops s p)
  then show ?case by (auto simp: owned_def in_flight_def)
next
  case (Push s i p)
  note g = owned_gives [OF Push(5) Push(2)]
  with Push show ?case by (auto simp: owned_def in_flight_def simp del: fun_upd_apply dom_fun_upd)
next
  case (GiveBack s i p)
  note g = owned_gives [OF GiveBack(3) GiveBack(2)]
  with GiveBack show ?case by (auto simp: owned_def in_flight_def simp del: fun_upd_apply dom_fun_upd)
next
  case (Abandon s i p)
  note g = owned_gives [OF Abandon(4) Abandon(2)]
  with Abandon show ?case by (auto simp: owned_def in_flight_def simp del: fun_upd_apply dom_fun_upd)
qed (auto simp: owned_def in_flight_def)

lemma fifo_step: "sys_step s s' \<Longrightarrow> owned s \<Longrightarrow> fifo s \<Longrightarrow> fifo s'"
proof (induction rule: sys_step.induct)
  case (Fill s i p r)
  then have "p \<notin> set (in_flight s)" using owned_gives(2) by auto
  then have "map ((y_heap s)(p := r)) (in_flight s) = map (y_heap s) (in_flight s)" by auto
  with Fill show ?case by (simp add: fifo_def in_flight_def)
qed (auto simp: fifo_def in_flight_def)

lemma reachable_owned: "reachable s \<Longrightarrow> owned s"
  by (induction rule: reachable.induct) (auto simp: owned_start owned_step)

lemma reachable_fifo: "reachable s \<Longrightarrow> fifo s"
  by (induction rule: reachable.induct) (auto simp: fifo_start intro: fifo_step reachable_owned)

text \<open>The crash: only a session that outlives the channel, after the accept loop has returned.\<close>

definition orderly :: "system \<Rightarrow> bool" where
  "orderly s \<longleftrightarrow> (y_closed s \<longrightarrow> y_server s = Returned) \<and> (y_crashed s \<longrightarrow> y_closed s \<and> ran (y_held s) \<noteq> {}) \<and>
     (y_live s \<noteq> {} \<longrightarrow> y_server s = Accepting \<or> y_server s = Returned \<and> y_ctx_done s) \<and>
     dom (y_held s) \<subseteq> y_live s"

lemma orderly_step: "sys_step s s' \<Longrightarrow> orderly s \<Longrightarrow> orderly s'"
  by (induction rule: sys_step.induct) (auto simp: orderly_def running_def ran_def)

lemma reachable_orderly: "reachable s \<Longrightarrow> orderly s"
proof (induction rule: reachable.induct)
  case (start h)
  show ?case by (simp add: orderly_def main_start_def)
qed (rule orderly_step)

lemma reachable_steps: "sys_step\<^sup>*\<^sup>* s s' \<Longrightarrow> reachable s \<Longrightarrow> reachable s'"
  by (induction rule: rtranclp_induct) (auto intro: reachable.step)

section \<open>Stopping\<close>

text \<open>From everywhere the server can return and the channel be closed, with nothing else changed.\<close>

lemma can_close:
  assumes "running s" and "\<not> y_closed s"
  shows "sys_step\<^sup>*\<^sup>* s (s\<lparr>y_ctx_done := True, y_server := Returned, y_closed := True\<rparr>)"
proof -
  let ?i = "s\<lparr>y_ctx_done := True\<rparr>" and ?r = "s\<lparr>y_ctx_done := True, y_server := Returned\<rparr>"
  have i: "sys_step s ?i" using assms(1) by (rule Interrupt)
  have run: "running ?i" "running ?r" using assms(1) by (simp_all add: running_def)
  have r: "sys_step\<^sup>*\<^sup>* ?i ?r"
  proof (cases "y_server s")
    case Starting
    with StartFails [OF run(1)] show ?thesis by auto
  next
    case Accepting
    with AcceptReturns [OF run(1)] show ?thesis by auto
  next
    case Returned
    then have "?r = ?i" by (cases s) simp
    then show ?thesis by simp
  qed
  have c: "sys_step ?r (?r\<lparr>y_closed := True\<rparr>)" using CloseChannel [OF run(2)] assms(2) by simp
  from converse_rtranclp_into_rtranclp [OF i rtranclp.rtrancl_into_rtrancl [OF r c]] show ?thesis by simp
qed

lemma can_exit:
  assumes "running s" and "y_closed s"
  shows "\<exists>s'. sys_step\<^sup>*\<^sup>* s s' \<and> y_exited s' \<and> y_queue s' = y_queue s"
proof -
  have finish: "\<exists>s'. sys_step\<^sup>*\<^sup>* s s' \<and> y_exited s' \<and> y_queue s' = y_queue s"
    if w: "running s" "y_closed s" "y_writing s = None" for s
  proof -
    let ?i = "s\<lparr>y_ctx_done := True\<rparr>" and ?w = "s\<lparr>y_ctx_done := True, y_worker := False\<rparr>"
    have i: "sys_step s ?i" using w(1) by (rule Interrupt)
    have run: "running ?i" "running ?w" using w(1) by (simp_all add: running_def)
    have "sys_step\<^sup>*\<^sup>* ?i ?w"
    proof (cases "y_worker s")
      case True
      with WorkerStops [OF run(1)] w(3) show ?thesis by auto
    next
      case False
      then have "?w = ?i" by (cases s) simp
      then show ?thesis by simp
    qed
    moreover have "sys_step ?w (?w\<lparr>y_exited := True\<rparr>)" using Exit [OF run(2)] w(2) by simp
    ultimately have "sys_step\<^sup>*\<^sup>* s (?w\<lparr>y_exited := True\<rparr>)"
      using i by (meson converse_rtranclp_into_rtranclp rtranclp.rtrancl_into_rtrancl)
    then show ?thesis by (intro exI [of _ "?w\<lparr>y_exited := True\<rparr>"]) simp
  qed
  show ?thesis
  proof (cases "y_writing s")
    case None
    with finish [of s] assms show ?thesis by blast
  next
    case (Some p)
    let ?e = "s\<lparr>y_writing := None, y_encoded := y_encoded s @ [y_heap s p], y_pool := p # y_pool s\<rparr>"
    have "sys_step s ?e" using assms(1) Some by (rule Encode)
    with finish [of ?e] assms show ?thesis
      by (auto simp: running_def intro: converse_rtranclp_into_rtranclp)
  qed
qed

lemma can_stop:
  assumes "running s"
  shows "\<exists>s'. sys_step\<^sup>*\<^sup>* s s' \<and> y_exited s' \<and> y_queue s' = y_queue s"
proof (cases "y_closed s")
  case True
  with can_exit assms show ?thesis by blast
next
  case False
  let ?c = "s\<lparr>y_ctx_done := True, y_server := Returned, y_closed := True\<rparr>"
  have c: "sys_step\<^sup>*\<^sup>* s ?c" by (rule can_close [OF assms False])
  have "running ?c" "y_closed ?c" using assms by (simp_all add: running_def)
  from can_exit [OF this] obtain s' where "sys_step\<^sup>*\<^sup>* ?c s'" "y_exited s'" "y_queue s' = y_queue s" by auto
  with rtranclp_trans [OF c] show ?thesis by blast
qed

section \<open>Properties\<close>


text \<open>C17: a record has one owner.  In every reachable state each record is at most once in the pool, in the
  queue or with the worker, and a record that a session fills is in none of them and with no other session.\<close>

theorem records_have_one_owner:
  assumes "reachable s"
  shows "distinct (y_pool s @ in_flight s) \<and> ran (y_held s) \<inter> set (y_pool s @ in_flight s) = {} \<and>
    inj_on (y_held s) (dom (y_held s))"
  using reachable_owned [OF assms] by (simp add: owned_def)

text \<open>C21: when a session can crash the proxy.  A send to the closed channel, which ends the
  program, happens only after the server has returned and closed it while a session lives on; and
  from every running state in which a session has a record to send, an interrupt can bring it about.\<close>

theorem sessions_can_crash_the_shutdown:
  assumes "reachable s"
  shows "(y_crashed s \<longrightarrow> y_closed s \<and> y_server s = Returned \<and> y_ctx_done s \<and> y_live s \<noteq> {}) \<and>
    (running s \<and> y_held s i = Some p \<longrightarrow> (\<exists>s'. sys_step\<^sup>*\<^sup>* s s' \<and> y_crashed s'))"
proof
  have o: "orderly s" by (rule reachable_orderly [OF assms])
  then show "y_crashed s \<longrightarrow> y_closed s \<and> y_server s = Returned \<and> y_ctx_done s \<and> y_live s \<noteq> {}"
    by (fastforce simp: orderly_def ran_def)
  show "running s \<and> y_held s i = Some p \<longrightarrow> (\<exists>s'. sys_step\<^sup>*\<^sup>* s s' \<and> y_crashed s')"
  proof
    assume r: "running s \<and> y_held s i = Some p"
    let ?c = "s\<lparr>y_ctx_done := True, y_server := Returned, y_closed := True\<rparr>"
    have "sys_step\<^sup>*\<^sup>* s (if y_closed s then s else ?c)" using can_close [of s] r by auto
    moreover have "\<exists>s'. sys_step (if y_closed s then s else ?c) s' \<and> y_crashed s'"
      using PushOnClosed [of "if y_closed s then s else ?c" i p] r
      by (auto simp: running_def split: if_splits)
    ultimately show "\<exists>s'. sys_step\<^sup>*\<^sup>* s s' \<and> y_crashed s'" by (meson rtranclp.rtrancl_into_rtrancl)
  qed
qed

text \<open>C22: an interrupt stops the proxy, and loses what is queued.  From every reachable state that is still
  running, the program can end without waiting for a client, a target or the queue: the records that
  are queued then are never written, although their sessions have been told that they were sent.\<close>

theorem shutdown_drops_the_queue:
  assumes "reachable s" and "running s"
  shows "\<exists>s'. sys_step\<^sup>*\<^sup>* s s' \<and> y_exited s' \<and> y_queue s' = y_queue s \<and>
    y_pushed s' = y_encoded s' @ map (y_heap s') (in_flight s') \<and> (\<forall>t. \<not> sys_step s' t)"
proof -
  have "\<exists>s'. sys_step\<^sup>*\<^sup>* s s' \<and> y_exited s' \<and> y_queue s' = y_queue s" by (rule can_stop [OF assms(2)])
  then show ?thesis using reachable_steps [OF _ assms(1)] reachable_fifo ended_for_good
    by (metis fifo_def running_def)
qed

section \<open>A run\<close>

definition blank_record :: "bytes send_packet" where
  "blank_record = record_view new_pool_record"

text \<open>One session has sent a record and holds another.\<close>

definition busy_system :: system where
  "busy_system = (main_start (\<lambda>p. blank_record))\<lparr>y_fresh := 2, y_live := {0}, y_held := [0 \<mapsto> 1], y_queue := [0],
     y_pushed := [blank_record], y_server := Accepting\<rparr>"

lemma reachable_busy: "reachable busy_system"
proof -
  let ?h = "\<lambda>p :: nat. blank_record"
  let ?s1 = "(main_start ?h)\<lparr>y_server := Accepting\<rparr>"
  let ?s2 = "?s1\<lparr>y_live := {0}\<rparr>"
  let ?s3 = "?s2\<lparr>y_held := [0 \<mapsto> 0], y_fresh := 1\<rparr>"
  let ?s4 = "?s3\<lparr>y_held := Map.empty, y_queue := [0], y_pushed := [blank_record]\<rparr>"
  have 1: "sys_step (main_start ?h) ?s1" by (rule Listens) (simp_all add: running_def main_start_def)
  have 2: "sys_step ?s1 ?s2" using Accept [of ?s1 0] by (simp add: running_def main_start_def)
  have 3: "sys_step ?s2 ?s3" using GetNew [of ?s2 0 0] by (simp add: running_def main_start_def)
  have 4: "sys_step ?s3 ?s4" using Push [of ?s3 0 0] by (simp add: running_def main_start_def queue_capacity_def)
  have 5: "sys_step ?s4 busy_system" using GetNew [of ?s4 0 1] by (simp add: running_def main_start_def busy_system_def numeral_2_eq_2)
  show ?thesis
    using reachable.step [OF reachable.step [OF reachable.step [OF reachable.step [OF reachable.step
      [OF reachable.start 1] 2] 3] 4] 5] .
qed


theorem records_have_one_owner_witness:
  "ran (y_held busy_system) \<inter> set (y_pool busy_system @ in_flight busy_system) = {} \<and> ran (y_held busy_system) = {1}"
  using records_have_one_owner [OF reachable_busy] by (simp add: busy_system_def)

theorem sessions_can_crash_the_shutdown_witness:
  "\<exists>s'. sys_step\<^sup>*\<^sup>* busy_system s' \<and> y_crashed s'"
proof -
  have "running busy_system \<and> y_held busy_system 0 = Some 1"
    by (simp add: busy_system_def running_def main_start_def)
  with sessions_can_crash_the_shutdown [OF reachable_busy, of 0 1] show ?thesis by blast
qed

theorem shutdown_drops_the_queue_witness:
  "\<exists>s'. sys_step\<^sup>*\<^sup>* busy_system s' \<and> y_exited s' \<and> y_queue s' = [0]"
proof -
  have "running busy_system" "y_queue busy_system = [0]" by (simp_all add: busy_system_def running_def main_start_def)
  with shutdown_drops_the_queue [OF reachable_busy] show ?thesis by metis
qed

section \<open>The channel of the log writer\<close>

text \<open>
  The log writer's state seen from the system: what it has been sent and not yet taken is the
  queue, its channel is open as long as the system's, and it has the capacity \<open>main\<close> gives it.
\<close>

definition log_of :: "audit_log \<Rightarrow> system \<Rightarrow> bool" where
  "log_of a s \<longleftrightarrow> map record_view (al_sent a) = y_pushed s \<and>
     al_recv a \<le> length (al_sent a) \<and> length (queued a) = length (y_queue s) \<and>
     al_closed a = y_closed s \<and> al_cap a = queue_capacity"

text \<open>C26: the log writer's channel is the system's queue.  A session's \<open>PushToLogChannel\<close> that finds room or a
  closed channel is a step of the system: without an error the record's contents have joined the
  queue, with an error nothing was sent and the context is done, and a panic is the system's crash.\<close>

theorem push_refines_step:
  assumes "log_of a s" and "running s" and "y_held s i = Some p" and "record_view sp = y_heap s p"
    and "length (y_queue s) < queue_capacity"
  shows "case push_to_log_channel (y_ctx_done s) sp a of
      Returns (None, a') \<Rightarrow> \<exists>s'. sys_step s s' \<and> log_of a' s' \<and> y_pushed s' = y_pushed s @ [y_heap s p] \<and> y_held s' i = None
    | Returns (Some e, a') \<Rightarrow> e = Canceled \<and> y_ctx_done s \<and> (\<exists>s'. sys_step s s' \<and> log_of a' s' \<and> y_pushed s' = y_pushed s)
    | Panics msg \<Rightarrow> \<exists>s'. sys_step s s' \<and> y_crashed s'"
proof -
  let ?a1 = "a\<lparr>al_picks := tl (al_picks a)\<rparr>" and ?pick = "al_picks a \<noteq> [] \<and> hd (al_picks a)"
  let ?push = "s\<lparr>y_held := (y_held s)(i := None), y_queue := y_queue s @ [p], y_pushed := y_pushed s @ [y_heap s p]\<rparr>"
  have room: "\<not> al_cap a \<le> length (queued a)" using assms(1,5) by (simp add: log_of_def)
  have c: "al_closed a = y_closed s" using assms(1) by (simp add: log_of_def)
  consider (cancel) "y_ctx_done s" "?pick" | (crash) "y_closed s" "\<not> (y_ctx_done s \<and> ?pick)"
    | (send) "\<not> y_closed s" "\<not> (y_ctx_done s \<and> ?pick)" by blast
  then show ?thesis
  proof cases
    case cancel
    then have r: "push_to_log_channel (y_ctx_done s) sp a = Returns (Some Canceled, ?a1)"
      using room by (simp add: push_to_log_channel_def Let_def)
    have "sys_step s (s\<lparr>y_held := (y_held s)(i := None)\<rparr>)" using assms(2,3) cancel(1) by (rule Abandon)
    moreover have "log_of ?a1 (s\<lparr>y_held := (y_held s)(i := None)\<rparr>)" using assms(1) by (simp add: log_of_def queued_def)
    ultimately show ?thesis using r cancel(1) by auto
  next
    case crash
    then have r: "push_to_log_channel (y_ctx_done s) sp a = Panics ''send on closed channel''"
      using c by (simp add: push_to_log_channel_def Let_def)
    have "sys_step s (s\<lparr>y_crashed := True\<rparr>)" using assms(2,3) crash(1) by (rule PushOnClosed)
    moreover have "y_crashed (s\<lparr>y_crashed := True\<rparr>)" by simp
    ultimately show ?thesis unfolding r outcome.case by blast
  next
    case send
    then have r: "push_to_log_channel (y_ctx_done s) sp a = Returns (None, ?a1\<lparr>al_sent := al_sent a @ [sp]\<rparr>)"
      using c room by (simp add: push_to_log_channel_def Let_def)
    have "sys_step s ?push" using assms(2,3) send(1) assms(5) by (rule Push)
    moreover have "log_of (?a1\<lparr>al_sent := al_sent a @ [sp]\<rparr>) ?push"
      using assms(1,4) by (auto simp: log_of_def queued_def)
    ultimately show ?thesis using r by auto
  qed
qed

theorem push_refines_step_witness:
  "\<exists>a' s'. push_to_log_channel False new_pool_record example_log = Returns (None, a') \<and> log_of a' s' \<and>
    y_pushed s' = [blank_record]"
proof -
  let ?s = "(main_start (\<lambda>p. blank_record))\<lparr>y_server := Accepting, y_live := {0}, y_held := [0 \<mapsto> 0], y_fresh := 1\<rparr>"
  have l: "log_of example_log ?s"
    by (simp add: log_of_def example_log_def main_start_def queued_def queue_capacity_def)
  have h: "running ?s" "y_held ?s 0 = Some 0" "record_view new_pool_record = y_heap ?s 0"
    "length (y_queue ?s) < queue_capacity" "y_ctx_done ?s = False" "y_pushed ?s = []" "y_heap ?s 0 = blank_record"
    by (simp_all add: running_def main_start_def blank_record_def queue_capacity_def)
  obtain a' where "push_to_log_channel False new_pool_record example_log = Returns (None, a')"
    by (simp add: push_to_log_channel_def example_log_def queued_def Let_def)
  with push_refines_step [OF l h(1-4)] h(5-7) show ?thesis by auto
qed

end
