(* ===== verification/Startup.thy ===== *)
theory Startup
  imports Pipeline
begin

text \<open>
  What \<open>main\<close> of src/main.go does before the goroutines start: the flag, the configuration
  directory, the environment, the manager of the server table and the log writer.  Each failure
  ends the program; otherwise the goroutines of \<open>Pipeline\<close> run with what was built here.
\<close>

section \<open>Paths\<close>

text \<open>\<open>filepath.Join\<close> and the lexical \<open>filepath.Clean\<close> that it ends with.\<close>

fun clean_parts :: "bool \<Rightarrow> string list \<Rightarrow> string list \<Rightarrow> string list" where
  "clean_parts rooted [] out = out"
| "clean_parts rooted (c # cs) out = clean_parts rooted cs
     (if c = [] \<or> c = ''.'' then out
      else if c \<noteq> ''..'' then out @ [c]
      else if out \<noteq> [] \<and> last out \<noteq> ''..'' then butlast out
      else if rooted then out else out @ [c])"

definition clean_path :: "string \<Rightarrow> string" where
  "clean_path s = (let rooted = (s \<noteq> [] \<and> hd s = CHR ''/''); body = join ''/'' (clean_parts rooted (split (CHR ''/'') s) []) in
     if rooted then CHR ''/'' # body else if body = [] then ''.'' else body)"

definition path_join :: "string list \<Rightarrow> string" where
  "path_join elems = (case dropWhile (\<lambda>e. e = []) elems of [] \<Rightarrow> [] | es \<Rightarrow> clean_path (join ''/'' es))"

section \<open>The manager\<close>

text \<open>
  The manager of the file below \<open>dir\<close>.  The file is what can be opened at this path, where
  \<open>write_err\<close> is what writing to it would give.
\<close>

definition config_path :: "string \<Rightarrow> string" where
  "config_path dir = path_join [dir, ''mysql8-audit-proxy'', ''config.json'']"

definition NewManager :: "string \<Rightarrow> (string \<Rightarrow> json_file option) \<Rightarrow> (go_error \<times> json_file option) option \<Rightarrow> nat \<Rightarrow> mgr" where
  "NewManager dir files write_err pos = \<lparr>mg_serverIndex = Map.empty, mg_file = files (config_path dir),
     mg_write_err = write_err, mg_pos = pos\<rparr>"

text \<open>\<open>os.RemoveAll\<close> of the manager's directory, which only the repository's test calls.\<close>

definition deleteConfig :: "go_error option \<Rightarrow> mgr \<Rightarrow> go_error option \<times> mgr" where
  "deleteConfig remove_err m = (case remove_err of Some e \<Rightarrow> (Some e, m) | None \<Rightarrow> (None, m\<lparr>mg_file := None\<rparr>))"

section \<open>The log writer\<close>

text \<open>\<open>time.NewTicker\<close> panics unless its interval is positive.\<close>

definition NewAuditLogWriter ::
  "nat \<Rightarrow> string \<Rightarrow> 64 word \<Rightarrow> civil \<Rightarrow> bool list \<Rightarrow> disk \<Rightarrow> (go_error + audit_log) outcome" where
  "NewAuditLogWriter queue filePath rotateTime t picks k =
     (if sint rotateTime \<le> 0 then Panics ''non-positive interval for NewTicker''
      else Returns (new_audit_log queue filePath t picks k))"

section \<open>The beginning of main\<close>

text \<open>What the program finds when it is started.\<close>

record surroundings =
  su_showVer :: bool
  su_UserConfigDir :: "go_error + string"
  su_envconfig :: "go_error + proxy_cfg"
  su_now :: civil
  su_files :: "string \<Rightarrow> json_file option"
  su_write_err :: "(go_error \<times> json_file option) option"
  su_picks :: "bool list"
  su_disk :: disk

datatype startup = PrintsVersion | Dies go_error | StartPanics string | Runs proxy_cfg mgr audit_log

definition main_startup :: "surroundings \<Rightarrow> startup" where
  "main_startup u = (if su_showVer u then PrintsVersion
     else case su_UserConfigDir u of
       Inl e \<Rightarrow> Dies e
     | Inr confDir \<Rightarrow> (let svConfMng = NewManager confDir (su_files u) (su_write_err u) 0 in
         case su_envconfig u of
           Inl e \<Rightarrow> Dies e
         | Inr proxyConf \<Rightarrow>
             (case NewAuditLogWriter queue_capacity (pc_LogFileName proxyConf) (pc_RotateTime proxyConf) (su_now u)
                (su_picks u) (su_disk u) of
               Panics m \<Rightarrow> StartPanics m
             | Returns (Inl e) \<Rightarrow> Dies e
             | Returns (Inr logHandler) \<Rightarrow> Runs proxyConf svConfMng logHandler)))"

lemma main_startup_runs:
  assumes "main_startup u = Runs cfg m a"
  shows "new_audit_log queue_capacity (pc_LogFileName cfg) (su_now u) (su_picks u) (su_disk u) = Inr a"
    and "su_envconfig u = Inr cfg"
  using assms by (auto simp: main_startup_def NewAuditLogWriter_def Let_def split: if_splits sum.splits)

lemma new_audit_log_frame:
  assumes "new_audit_log n fp t picks k = Inr a"
  shows "al_pool a = [] \<and> al_cap a = n"
  using assms by (auto simp: new_audit_log_def create_file_def Let_def split: prod.splits option.splits if_splits)

lemma new_audit_log_ready:
  assumes "new_audit_log n fp t picks k = Inr a" and "healthy k" and "stores (k_files k) L" and "0 < n"
  shows "log_inv a \<and> writing a (time2Path fp t) (L(time2Path fp t \<mapsto> records_of L (time2Path fp t))) \<and>
    al_sent a = [] \<and> al_recv a = 0 \<and> al_cap a = n"
proof -
  let ?p = "time2Path fp t" and ?M = "if L (time2Path fp t) = None then L(time2Path fp t \<mapsto> []) else L"
  from new_audit_log_writing [OF assms(2,3), of n fp t picks] assms(1) have w: "writing a ?p ?M"
    and a: "queued a = []" "\<not> al_closed a" "al_sent a = []" "al_recv a = 0" by auto
  have m: "?M = L(?p \<mapsto> records_of L ?p)" by (auto simp: records_of_def split: option.splits)
  have "writing a ?p (L(?p \<mapsto> records_of L ?p))" using w unfolding m .
  moreover have "log_inv a" using w a new_audit_log_frame [OF assms(1)] assms(4) by (auto simp: log_inv_def writing_def)
  ultimately show ?thesis using a new_audit_log_frame [OF assms(1)] by blast
qed

lemma log_of_start:
  assumes "log_inv a" and "al_sent a = []" and "al_recv a = 0" and "al_cap a = queue_capacity"
  shows "log_of a (main_start h)"
  using assms by (simp add: log_of_def log_inv_def main_start_def queued_def)

lemma config_path_below:
  assumes "cs \<noteq> []" and "\<forall>c \<in> set cs. c \<notin> {[], ''.'', ''..''} \<and> CHR ''/'' \<notin> set c"
  shows "config_path (CHR ''/'' # join ''/'' cs) = CHR ''/'' # join ''/'' (cs @ [''mysql8-audit-proxy'', ''config.json''])"
proof -
  have j: "join ''/'' (xs @ ys) = join ''/'' xs @ ''/'' @ join ''/'' ys" if "xs \<noteq> []" "ys \<noteq> []" for xs ys
    using that by (induction "''/''" xs rule: join.induct) (auto simp: neq_Nil_conv)
  have p: "clean_parts True ds out = out @ ds" if "\<forall>d \<in> set ds. d \<notin> {[], ''.'', ''..''}" for ds out
    using that by (induction ds arbitrary: out) auto
  let ?ds = "cs @ [''mysql8-audit-proxy'', ''config.json'']"
  have s: "split (CHR ''/'') (join ''/'' ?ds) = ?ds"
    using assms by (intro split_join) auto
  have "clean_parts True ([] # ?ds) [] = ?ds" using p [of ?ds "[]"] assms(2) by simp
  then have "clean_path (CHR ''/'' # join ''/'' ?ds) = CHR ''/'' # join ''/'' ?ds"
    by (simp add: clean_path_def s Let_def del: clean_parts.simps)
  moreover have "path_join [CHR ''/'' # join ''/'' cs, ''mysql8-audit-proxy'', ''config.json''] = clean_path (CHR ''/'' # join ''/'' ?ds)"
    using assms(1) j [of cs "[''mysql8-audit-proxy'', ''config.json'']"] by (simp add: path_join_def)
  ultimately show ?thesis by (simp add: config_path_def)
qed

text \<open>The test of the table: without its directory the configuration is the default one again.\<close>

lemma deleteConfig_default:
  assumes "deleteConfig None m = (e, m')"
  shows "e = None \<and> fst (get_config v m') = fst (new_config v (mg_pos m))"
  using assms by (auto simp: deleteConfig_def get_config_def make_index_def Let_def split: prod.split)

text \<open>C27: when the proxy runs.  On a disk without errors \<open>main\<close> ends early only for the version
  flag, for want of a configuration directory or for an environment that cannot be read, and panics only
  when the interval of the rotation is not positive; otherwise it runs with a log writer that keeps
  the sessions' contract, has sent nothing, appends to the file of the current time, and is
  the channel of the system's initial state.\<close>

theorem main_starts_ready:
  assumes "healthy (su_disk u)" and "stores (k_files (su_disk u)) L"
  shows "case main_startup u of
      PrintsVersion \<Rightarrow> su_showVer u
    | Dies e \<Rightarrow> su_UserConfigDir u = Inl e \<or> su_envconfig u = Inl e
    | StartPanics msg \<Rightarrow> \<exists>cfg. su_envconfig u = Inr cfg \<and> sint (pc_RotateTime cfg) \<le> 0
    | Runs cfg m a \<Rightarrow> su_envconfig u = Inr cfg \<and> 0 < sint (pc_RotateTime cfg) \<and> log_inv a \<and> sent_records a = [] \<and>
        log_of a (main_start h) \<and>
        writing a (time2Path (pc_LogFileName cfg) (su_now u)) (L(time2Path (pc_LogFileName cfg) (su_now u) \<mapsto>
          records_of L (time2Path (pc_LogFileName cfg) (su_now u))))"
proof -
  have new: "\<exists>a. new_audit_log n fp t picks (su_disk u) = Inr a" for n fp t picks
    using new_audit_log_writing [OF assms] by blast
  have "log_inv a \<and> sent_records a = [] \<and> log_of a (main_start h) \<and> writing a (time2Path fp t) (L(time2Path fp t \<mapsto> records_of L (time2Path fp t)))"
    if "new_audit_log queue_capacity fp t picks (su_disk u) = Inr a" for fp t picks a
    using new_audit_log_ready [OF that assms] by (simp add: log_of_start sent_records_def queue_capacity_def)
  with new show ?thesis
    by (auto simp: main_startup_def NewAuditLogWriter_def Let_def split: sum.split) (metis Inl_Inr_False)
qed

definition example_cfg :: proxy_cfg where
  "example_cfg = \<lparr>pc_ProxyListenAddr = '':3307'', pc_ProxyListentNet = ''tcp'', pc_ConTimeout = 300000000000,
     pc_LogFileName = ''a.%H'', pc_RotateTime = 3600000000000, pc_AdminUser = ''admin'', pc_Debug = False\<rparr>"

definition example_surroundings :: surroundings where
  "example_surroundings = \<lparr>su_showVer = False, su_UserConfigDir = Inr ''/root/.config'', su_envconfig = Inr example_cfg,
     su_now = Civil 2024 3 4 5 59 0, su_files = Map.empty, su_write_err = None, su_picks = [], su_disk = blank_disk\<rparr>"

lemma example_starts: "\<exists>m a. main_startup example_surroundings = Runs example_cfg m a"
proof -
  obtain a where "new_audit_log queue_capacity ''a.%H'' (Civil 2024 3 4 5 59 0) [] blank_disk = Inr a"
    using new_audit_log_writing [OF healthy_blank stores_blank refl] by blast
  then show ?thesis
    by (simp add: main_startup_def NewAuditLogWriter_def example_surroundings_def example_cfg_def Let_def)
qed

theorem main_starts_ready_witness:
  "\<exists>m a. main_startup example_surroundings = Runs example_cfg m a \<and> log_of a (main_start (\<lambda>_. blank_record))"
proof -
  obtain m a where s: "main_startup example_surroundings = Runs example_cfg m a" using example_starts by blast
  have "healthy (su_disk example_surroundings)" "stores (k_files (su_disk example_surroundings)) Map.empty"
    by (simp_all add: example_surroundings_def healthy_blank stores_blank)
  from main_starts_ready [OF this, of "\<lambda>_. blank_record"] s show ?thesis by simp
qed

end
