(* ===== verification/EndToEnd.thy ===== *)
theory EndToEnd
  imports Decoder Startup
begin

text \<open>
  The components together: a session's traffic through the log writer into a file, and out of it
  through the decoder.
\<close>

section \<open>The log writer on a disk without errors\<close>

text \<open>
  What a log writer has received is in its current file, as long as the records sent to it fit
  the file format.
\<close>

definition tracked :: "string \<Rightarrow> logs \<Rightarrow> audit_log \<Rightarrow> bool" where
  "tracked p L a \<longleftrightarrow> (list_all encodable (sent_records a) \<longrightarrow>
     writing a p (L(p \<mapsto> records_of L p @ take (al_recv a) (sent_records a))))"

lemma writing_frame:
  "al_disk b = al_disk a \<Longrightarrow> al_gzip b = al_gzip a \<Longrightarrow> al_file b = al_file a \<Longrightarrow> writing b p L = writing a p L"
  by (simp add: writing_def)

lemma tracked_frame:
  assumes "tracked p L a" and "al_disk b = al_disk a" and "al_gzip b = al_gzip a" and "al_file b = al_file a"
    and "al_recv b = al_recv a" and "al_sent b = al_sent a"
  shows "tracked p L b"
  using assms(1) writing_frame [OF assms(2-4)] assms(5,6) by (simp add: tracked_def sent_records_def)

lemma tracked_receive:
  assumes "tracked p L a" and "queued a = sp # q" and "list_all encodable (sent_records a)"
    and "receive_and_write Receive a = Returns (e, a')"
  shows "tracked p L a' \<and> e = None"
proof -
  let ?L = "L(p \<mapsto> records_of L p @ take (al_recv a) (sent_records a))"
  have le: "al_recv a < length (al_sent a)" using queued_ConsD [OF assms(2)] by simp
  have sp: "sp = al_sent a ! al_recv a" using assms(2) le by (metis Cons_nth_drop_Suc list.inject queued_def)
  then have v: "record_view sp = sent_records a ! al_recv a" using le by (simp add: sent_records_def)
  have "sent_records a ! al_recv a \<in> set (sent_records a)" using le by (simp add: sent_records_def)
  then have enc: "encodable (record_view sp)" using assms(3) v by (simp add: list_all_iff)
  have "writing a p ?L" using assms(1,3) by (simp add: tracked_def)
  from receive_writing [OF this assms(2) enc] obtain z a1 where
    r: "receive_and_write Receive a = Returns (None, a1)"
      "a1 = a\<lparr>al_recv := Suc (al_recv a), al_gzip := z, al_pool := sp # al_pool a\<rparr>"
      "writing a1 p (?L(p \<mapsto> records_of ?L p @ [record_view sp]))" by blast
  have "a' = a1" "e = None" using r(1) assms(4) by simp_all
  moreover have "records_of ?L p @ [record_view sp] = records_of L p @ take (Suc (al_recv a)) (sent_records a)"
    using le v by (simp add: records_of_def take_Suc_conv_app_nth sent_records_def)
  then have "tracked p L a1" using r(3) by (simp add: tracked_def r(2) sent_records_def)
  ultimately show ?thesis by simp
qed

lemma tracked_send:
  assumes "tracked p L a" and "al_recv a \<le> length (al_sent a)" and "b = a\<lparr>al_sent := al_sent a @ [sp]\<rparr>"
  shows "tracked p L b"
proof -
  have "take (al_recv a) (sent_records b) = take (al_recv a) (sent_records a)"
    using assms(2,3) by (simp add: sent_records_def)
  moreover have "writing b p M = writing a p M" for M by (rule writing_frame) (simp_all add: assms(3))
  moreover have "list_all encodable (sent_records b) \<Longrightarrow> list_all encodable (sent_records a)" "al_recv b = al_recv a"
    by (simp_all add: assms(3) sent_records_def)
  ultimately show ?thesis using assms(1) by (simp add: tracked_def)
qed

lemma tracked_push:
  assumes a: "log_inv a \<and> tracked p L a" and r: "push_to_log_channel d sp a = Returns (e, l')"
  shows "tracked p L l'"
proof -
  let ?a1 = "a\<lparr>al_picks := tl (al_picks a)\<rparr>"
  let ?full = "al_cap a \<le> length (queued a)" and ?pick = "al_picks a \<noteq> [] \<and> hd (al_picks a)"
  have inv: "\<not> al_closed a" "0 < al_cap a" "al_recv a \<le> length (al_sent a)" using a by (simp_all add: log_inv_def)
  have t1: "tracked p L ?a1" by (rule tracked_frame [OF conjunct2 [OF a]]) simp_all
  consider (cancel) "l' = ?a1"
    | (wait) e2 a2 where "?full" "receive_and_write Receive ?a1 = Returns (e2, a2)" "l' = a2\<lparr>al_sent := al_sent a2 @ [sp]\<rparr>"
    | (send) "l' = ?a1\<lparr>al_sent := al_sent a @ [sp]\<rparr>"
    using r inv(1) by (auto simp: push_to_log_channel_def Let_def bind_outcome_Returns_iff split: if_splits)
  then show ?thesis
  proof cases
    case cancel
    with t1 show ?thesis by simp
  next
    case wait
    then obtain s0 q where q: "queued ?a1 = s0 # q" using inv(2) by (cases "queued a") auto
    from receive_frame [OF q] a wait(2) have f: "al_sent a2 = al_sent a" "al_recv a2 = Suc (al_recv a)"
      by (auto simp: log_inv_def)
    have le: "al_recv a2 \<le> length (al_sent a2)" using queued_ConsD [OF q] f by simp
    show ?thesis
    proof (cases "list_all encodable (sent_records ?a1)")
      case True
      from tracked_receive [OF t1 q True wait(2)] have "tracked p L a2" by blast
      then show ?thesis by (rule tracked_send [OF _ le wait(3)])
    next
      case False
      then have "\<not> list_all encodable (sent_records l')" by (simp add: wait(3) f sent_records_def)
      then show ?thesis by (simp add: tracked_def)
    qed
  next
    case send
    show ?thesis by (rule tracked_send [OF t1]) (use inv(3) send in simp_all)
  qed
qed

interpretation disk: log_writer_contract audit_log_writer "\<lambda>a. log_inv a \<and> tracked p L a" sent_records for p L
proof
  fix a :: audit_log and sp a'
  assume a: "log_inv a \<and> tracked p L a" and g: "lw_get audit_log_writer a = (sp, a')"
  have "tracked p L a'"
    using g conjunct2 [OF a] by (cases "al_pool a") (auto simp: audit_log_writer_def get_send_packet_def intro: tracked_frame)
  with audit.get_record [OF conjunct1 [OF a] g] show "(log_inv a' \<and> tracked p L a') \<and> sent_records a' = sent_records a \<and> pool_record sp"
    by blast
next
  fix a :: audit_log and sp
  assume a: "log_inv a \<and> tracked p L a" and sp: "pool_record sp"
  have "tracked p L (lw_put audit_log_writer sp a)"
    by (rule tracked_frame [OF conjunct2 [OF a]]) (simp_all add: audit_log_writer_def put_send_packet_def)
  with audit.put_record [OF conjunct1 [OF a] sp] show "(log_inv (lw_put audit_log_writer sp a) \<and> tracked p L (lw_put audit_log_writer sp a)) \<and>
      sent_records (lw_put audit_log_writer sp a) = sent_records a" by blast
next
  fix a :: audit_log and sp d
  assume a: "log_inv a \<and> tracked p L a" and sp: "pool_record sp"
  from audit.push_record [OF conjunct1 [OF a] sp, of d] obtain e l' where
    r: "lw_push audit_log_writer d sp a = Returns (e, l')" "log_inv l'"
      "case e of None \<Rightarrow> sent_records l' = sent_records a @ [record_view sp] | Some x \<Rightarrow> sent_records l' = sent_records a \<and> x = Canceled"
    by blast
  have "tracked p L l'" by (rule tracked_push [OF a]) (use r(1) in \<open>simp add: audit_log_writer_def\<close>)
  with r show "\<exists>e l'. lw_push audit_log_writer d sp a = Returns (e, l') \<and> (log_inv l' \<and> tracked p L l') \<and>
      (case e of None \<Rightarrow> sent_records l' = sent_records a @ [record_view sp]
       | Some x \<Rightarrow> sent_records l' = sent_records a \<and> x = Canceled)" by blast
qed

section \<open>Emptying the channel\<close>

text \<open>What the worker does with the queue after the channel has been closed.\<close>

definition drain :: "audit_log \<Rightarrow> log_event list" where
  "drain a = Closed # replicate (Suc (length (queued a))) (Turn Receive)"

lemma drain_ends:
  assumes "writing a p L" and "al_closed a" and "list_all (encodable \<circ> record_view) (queued a)"
    and "length (queued a) < n"
  shows "\<exists>a'. log_write_worker (replicate n (Turn Receive)) a = Returns (Some None, a')"
  using assms
proof (induction n arbitrary: a L)
  case (Suc n)
  show ?case
  proof (cases "queued a")
    case Nil
    from worker_ends_drained [OF Suc.prems(1) Nil Suc.prems(2), of "replicate n (Turn Receive)"]
    show ?thesis by (simp del: log_write_worker.simps) blast
  next
    case (Cons sp q)
    with Suc.prems(3) have "encodable (record_view sp)" by simp
    from receive_step [OF Suc.prems(1) Cons this] obtain a1 where
      r: "receive_and_write Receive a = Returns (None, a1)" "writing a1 p (L(p \<mapsto> records_of L p @ [record_view sp]))"
        "queued a1 = q" "al_closed a1 = al_closed a" by blast
    with Suc.IH [OF r(2)] Suc.prems Cons show ?thesis by (simp add: turn_ready_def del: fun_upd_apply)
  qed
qed simp

lemma filed_drain:
  "n > length q \<Longrightarrow> filed fp (replicate n (Turn Receive)) q True cur = map (\<lambda>r. (cur, r)) q"
  by (induction q arbitrary: n) (auto simp: gr0_conv_Suc Suc_less_eq2)

lemma filed_in_same: "filed_in cur (map (\<lambda>r. (cur, r)) q) = q"
  by (induction q) auto

lemma drain_files:
  assumes "log_inv a" and "tracked p L a" and "list_all encodable (sent_records a)"
  shows "\<exists>a' M. log_write_worker (drain a) a = Returns (Some None, a') \<and> stores (k_files (al_disk a')) M \<and>
    records_of M p = records_of L p @ sent_records a"
proof -
  let ?L = "L(p \<mapsto> records_of L p @ take (al_recv a) (sent_records a))"
  let ?a = "a\<lparr>al_closed := True\<rparr>" and ?n = "Suc (length (queued a))"
  have w: "writing a p ?L" using assms(2,3) by (simp add: tracked_def)
  have wc: "writing ?a p ?L" using w writing_frame [of ?a a] by simp
  have qs: "map record_view (queued a) = drop (al_recv a) (sent_records a)" by (simp add: queued_def sent_records_def drop_map)
  have enc: "list_all (encodable \<circ> record_view) (queued a)"
    using assms(3) qs by (metis list.pred_map list_all_append append_take_drop_id)
  have inv: "\<not> al_closed a" "al_recv a \<le> length (al_sent a)" using assms(1) by (simp_all add: log_inv_def)
  have q: "queued ?a = queued a" by (simp add: queued_def)
  obtain a' where r: "log_write_worker (replicate ?n (Turn Receive)) ?a = Returns (Some None, a')"
    using drain_ends [OF wc, of ?n] enc q by auto
  have res: "worker_result (log_write_worker (drain a) a) ?L
      (filed (al_filePath a) (drain a) (map record_view (queued a)) (al_closed a) p) (map record_view (queued a) @ pushed (drain a))"
  proof (rule worker_files [OF w _ enc inv(2)])
    have "AuditLog.orderly True (replicate n (Turn Receive))" for n by (induction n) simp_all
    then show "AuditLog.orderly (al_closed a) (drain a)" using inv(1) by (simp add: drain_def del: replicate_Suc)
  qed
  have run: "log_write_worker (drain a) a = Returns (Some None, a')"
    using r inv(1) by (simp add: drain_def close_channel_def del: replicate_Suc)
  have f: "filed (al_filePath a) (drain a) (map record_view (queued a)) (al_closed a) p = map (\<lambda>r. (p, r)) (map record_view (queued a))"
    using filed_drain [of "map record_view (queued a)" ?n "al_filePath a" p] by (simp add: drain_def del: replicate_Suc)
  from res run obtain M where M: "final_logs (Some None) a' M"
    "\<forall>x. records_of M x = records_of ?L x @ filed_in x (map (\<lambda>r. (p, r)) (map record_view (queued a)))"
    unfolding worker_result_def f by auto
  have "records_of M p = records_of L p @ take (al_recv a) (sent_records a) @ drop (al_recv a) (sent_records a)"
    using M(2) qs by (simp add: filed_in_same records_of_def del: map_map)
  then have "records_of M p = records_of L p @ sent_records a" by simp
  moreover have "stores (k_files (al_disk a')) M" using M(1) by (simp add: final_logs_def)
  ultimately show ?thesis using run by blast
qed

lemma new_audit_log_tracked:
  assumes "new_audit_log n fp t picks k = Inr a" and "healthy k" and "stores (k_files k) L" and "0 < n"
  shows "(log_inv a \<and> tracked (time2Path fp t) L a) \<and> sent_records a = []"
  using new_audit_log_ready [OF assms] by (simp add: tracked_def sent_records_def)

section \<open>From the client to the printed log\<close>

lemma session_record_encodable:
  assumes "session_record st state r" and "length (sp_Packets r) \<le> max_packet_size" and "length state < 2 ^ 32"
    and "length (st_User st) < 2 ^ 32" and "length (st_DB st) < 2 ^ 32" and "length (st_RemoteAddr st) < 2 ^ 32"
  shows "encodable r"
  using assms by (auto simp: session_record_def encodable_def packet_strings_def bytes_of_string_def max_packet_size_def)

lemma est_record_encodable:
  assumes "est_record st r"
    and "length (st_User st) < 2 ^ 32" and "length (st_DB st) < 2 ^ 32" and "length (st_RemoteAddr st) < 2 ^ 32"
  shows "encodable r"
proof (rule session_record_encodable [OF _ _ _ assms(2-4)])
  show "session_record st ''est'' r" using assms(1) by (simp add: est_record_def)
  show "length (sp_Packets r) \<le> max_packet_size"
    using assms(1) payload_length_bound [of "sp_Packets r"] by (simp add: est_record_def mysql_packet_def)
qed simp

lemma session_records_encodable:
  assumes "cs \<in> {[]} \<union> {[c] | c. session_record st ''connect'' c \<and> sp_Packets c = []}"
    and "ds \<in> {[]} \<union> {[c] | c. session_record st ''disconnect'' c \<and> sp_Packets c = []}"
    and "list_all (est_record st) rs"
    and "length (st_User st) < 2 ^ 32" and "length (st_DB st) < 2 ^ 32" and "length (st_RemoteAddr st) < 2 ^ 32"
  shows "list_all encodable (cs @ rs @ ds)"
proof -
  have "list_all encodable cs" "list_all encodable ds"
    using assms(1,2) session_record_encodable [OF _ _ _ assms(4-6)] by fastforce+
  moreover have "list_all encodable rs"
    using assms(3) est_record_encodable [OF _ assms(4-6)] by (auto simp: list_all_iff)
  ultimately show ?thesis by simp
qed

text \<open>What a decoder run on a file of the disk prints.\<close>

lemma stored_file_print:
  assumes "stores fs M" and "records_of M p \<noteq> []"
    and "list_all2 (\<lambda>r q. format_packet com r = Returns q) (records_of M p) ps"
  shows "file_print com marshal fs p = (concat (map (fmt_json marshal) ps), Returns None)"
proof -
  from new_file_reader_stores [OF assms(1,2)] obtain d where
    "new_file_reader fs p = Inr d" "decodes d (records_of M p)" by blast
  then show ?thesis using print_loop_decodes [OF _ assms(3)] by (simp add: file_print_def)
qed

text \<open>C6: from the client to the printed log.  The proxy has started on a disk without errors and a session
  runs: the bytes taken from the client and the bytes sent to the server are the packets of the session's
  records, up to one packet at the end.  When the channel is then closed and the worker takes
  what it holds, the worker ends without an error, and the decoder, run on the file, prints what the
  file held before followed by the session's connect record, its packets in order and its disconnect
  record, and reports no error.\<close>

theorem session_to_printed_log:
  assumes "main_startup u = Runs cfg m a" and "healthy (su_disk u)" and "stores (k_files (su_disk u)) L"
    and "p = time2Path (pc_LogFileName cfg) (su_now u)" and "deadline_err s = None"
    and "length (st_User st) < 2 ^ 32" and "length (st_DB st) < 2 ^ 32" and "length (st_RemoteAddr st) < 2 ^ 32"
  shows "\<exists>e s' a' a'' cs rs ds d x. worker slack audit_log_writer st s a = Returns (e, s', a') \<and>
    cs \<in> {[]} \<union> {[c] | c. session_record st ''connect'' c \<and> sp_Packets c = []} \<and>
    ds \<in> {[]} \<union> {[c] | c. session_record st ''disconnect'' c \<and> sp_Packets c = []} \<and>
    list_all (est_record st) rs \<and>
    stream (inbox s) = concat (map sp_Packets rs) @ d @ stream (inbox s') \<and>
    outbox s' = outbox s @ concat (map sp_Packets rs) @ x \<and>
    prefix x d \<and> length x \<le> max_packet_size \<and> (e = EOF \<longrightarrow> d = []) \<and>
    log_write_worker (drain a') a' = Returns (Some None, a'') \<and>
    (\<forall>ps. list_all2 (\<lambda>r q. format_packet com r = Returns q) (records_of L p @ cs @ rs @ ds) ps \<and> ps \<noteq> [] \<longrightarrow>
       file_print com marshal (k_files (al_disk a'')) p = (concat (map (fmt_json marshal) ps), Returns None))"
proof -
  have i: "log_inv a \<and> tracked p L a" "sent_records a = []"
    using new_audit_log_tracked [OF main_startup_runs(1) [OF assms(1)] assms(2,3)] by (simp_all add: queue_capacity_def assms(4))
  from disk.worker_spec [OF i(1), of slack st s] assms(5) obtain e s' a' cs rs ds d x where
    w: "worker slack audit_log_writer st s a = Returns (e, s', a')" "log_inv a' \<and> tracked p L a'"
      "sent_records a' = sent_records a @ cs @ rs @ ds"
    and rec: "cs \<in> {[]} \<union> {[c] | c. session_record st ''connect'' c \<and> sp_Packets c = []}"
      "ds \<in> {[]} \<union> {[c] | c. session_record st ''disconnect'' c \<and> sp_Packets c = []}" "list_all (est_record st) rs"
    and io: "stream (inbox s) = concat (map sp_Packets rs) @ d @ stream (inbox s')"
      "outbox s' = outbox s @ concat (map sp_Packets rs) @ x" "prefix x d" "length x \<le> max_packet_size" "e = EOF \<longrightarrow> d = []"
    by (elim exE conjE) blast
  have sent: "sent_records a' = cs @ rs @ ds" using w(3) i(2) by simp
  then have "list_all encodable (sent_records a')"
    using session_records_encodable [OF rec assms(6-8)] by simp
  from drain_files [OF conjunct1 [OF w(2)] conjunct2 [OF w(2)] this] obtain a'' M where
    f: "log_write_worker (drain a') a' = Returns (Some None, a'')" "stores (k_files (al_disk a'')) M"
      "records_of M p = records_of L p @ cs @ rs @ ds" unfolding sent by blast
  have "file_print com marshal (k_files (al_disk a'')) p = (concat (map (fmt_json marshal) ps), Returns None)"
    if "list_all2 (\<lambda>r q. format_packet com r = Returns q) (records_of L p @ cs @ rs @ ds) ps \<and> ps \<noteq> []" for ps
    by (rule stored_file_print [OF f(2)]) (use that f(3) in auto)
  with w(1) rec io f(1) show ?thesis by (intro exI conjI) (assumption | blast)+
qed

theorem session_to_printed_log_witness:
  "\<exists>m a e s' a' a''. main_startup example_surroundings = Runs example_cfg m a \<and>
     worker (\<lambda>_ _. 0) audit_log_writer example_task query_net a = Returns (e, s', a') \<and>
     log_write_worker (drain a') a' = Returns (Some None, a'')"
proof -
  obtain m a where a: "main_startup example_surroundings = Runs example_cfg m a" using example_starts by blast
  have h: "healthy (su_disk example_surroundings)" "stores (k_files (su_disk example_surroundings)) Map.empty"
    by (simp_all add: example_surroundings_def healthy_blank stores_blank)
  have "deadline_err query_net = None" by (simp add: query_net_def)
  from session_to_printed_log [OF a h refl this, of example_task "\<lambda>_ _. 0" mysql_com "\<lambda>p. Inr []"] a
  show ?thesis by (simp add: example_task_def del: log_write_worker.simps) blast
qed

end
