(* ===== verification/Concurrency.thy ===== *)
theory Concurrency
  imports EndToEnd
begin

text \<open>
  Many sessions at once.  A session sees the log writer only through the answers to its own calls:
  the records it gets from the pool and whether a send was cancelled.  These answers are
  its tape (\<open>worker_plays\<close>: what the log writer of \<open>AuditLog\<close> answers is always on a tape); what the session
  sends is interleaved in the channel with what the others send.
\<close>

section \<open>The log as one session sees it\<close>

record tape =
  tp_gets :: "record_buffer list"
  tp_cancels :: "bool list"
  tp_pushed :: "record_buffer list"

definition tape_push :: "bool \<Rightarrow> record_buffer \<Rightarrow> tape \<Rightarrow> (go_error option \<times> tape) outcome" where
  "tape_push d sp t = (let t1 = t\<lparr>tp_cancels := tl (tp_cancels t)\<rparr> in
     if tp_cancels t \<noteq> [] \<and> hd (tp_cancels t) then Returns (Some Canceled, t1)
     else Returns (None, t1\<lparr>tp_pushed := tp_pushed t @ [sp]\<rparr>))"

definition tape_get :: "tape \<Rightarrow> record_buffer \<times> tape" where
  "tape_get t = (case tp_gets t of [] \<Rightarrow> (new_pool_record, t) | sp # sps \<Rightarrow> (sp, t\<lparr>tp_gets := sps\<rparr>))"

definition tape_writer :: "tape log_writer" where
  "tape_writer = \<lparr>lw_push = tape_push, lw_put = (\<lambda>sp t. t), lw_get = tape_get, lw_close = Returns\<rparr>"

definition tape_ok :: "tape \<Rightarrow> bool" where
  "tape_ok t \<longleftrightarrow> list_all pool_record (tp_gets t)"

definition tape_records :: "tape \<Rightarrow> bytes send_packet list" where
  "tape_records t = map record_view (tp_pushed t)"

interpretation tape: log_writer_contract tape_writer tape_ok tape_records
proof
  show "tape_ok t' \<and> tape_records t' = tape_records t \<and> pool_record sp"
    if "tape_ok t" "lw_get tape_writer t = (sp, t')" for t sp t'
    using that pool_record_new
    by (cases "tp_gets t") (auto simp: tape_writer_def tape_get_def tape_ok_def tape_records_def)
  show "tape_ok (lw_put tape_writer sp t) \<and> tape_records (lw_put tape_writer sp t) = tape_records t"
    if "tape_ok t" "pool_record sp" for t sp
    using that by (simp add: tape_writer_def)
  show "\<exists>e t'. lw_push tape_writer d sp t = Returns (e, t') \<and> tape_ok t' \<and>
      (case e of None \<Rightarrow> tape_records t' = tape_records t @ [record_view sp]
       | Some x \<Rightarrow> tape_records t' = tape_records t \<and> x = Canceled)"
    if "tape_ok t" "pool_record sp" for t sp d
    using that by (auto simp: tape_writer_def tape_push_def tape_ok_def tape_records_def Let_def)
qed

text \<open>
  Whatever the log writer answers to a session is on some tape: the session does the same
  on it and sends the same records.  Of a tape, \<open>g\<close> and \<open>c\<close> are the answers that a part of the session uses
  up and \<open>q\<close> what it sends.
\<close>

definition play :: "record_buffer list \<Rightarrow> bool list \<Rightarrow> record_buffer list \<Rightarrow> tape" where
  "play g c q = \<lparr>tp_gets = g, tp_cancels = c, tp_pushed = q\<rparr>"

lemma play_push:
  assumes "push_to_log audit_log_writer sp s a = Returns (e, s', a')" and "log_inv a" and "pool_record sp"
  shows "(\<forall>g c p. push_to_log tape_writer sp s (play g ((e \<noteq> None) # c) p) =
      Returns (e, s', play g c (p @ (if e = None then [sp] else [])))) \<and> inbox s' = inbox s \<and>
    sent_records a' = sent_records a @ map record_view (if e = None then [sp] else []) \<and> log_inv a'"
proof -
  from audit.push_record [OF assms(2,3), of "parent_done s"] obtain e2 l' where
    r: "lw_push audit_log_writer (parent_done s) sp a = Returns (e2, l')" "log_inv l'"
      "case e2 of None \<Rightarrow> sent_records l' = sent_records a @ [record_view sp] | Some x \<Rightarrow> sent_records l' = sent_records a \<and> x = Canceled"
    by blast
  with assms(1) show ?thesis
    by (cases e2) (auto simp: push_to_log_def tape_writer_def tape_push_def play_def)
qed

lemma play_new:
  assumes "new_send_packet audit_log_writer st s a = (sp, a')" and "log_inv a"
  shows "\<exists>g. (\<forall>g' c p. new_send_packet tape_writer st s (play (g # g') c p) = (sp, play g' c p)) \<and> pool_record g"
proof -
  obtain sp0 a0 where g: "lw_get audit_log_writer a = (sp0, a0)" by (metis prod.collapse)
  from assms(1) g audit.get_record [OF assms(2) g] show ?thesis
    by (intro exI [of _ sp0]) (auto simp: new_send_packet_def tape_writer_def tape_get_def play_def)
qed

lemma play_state:
  assumes "send_state audit_log_writer st state s a = Returns (e, s', a')" and "log_inv a"
  shows "\<exists>g c q. (\<forall>g' c' p. send_state tape_writer st state s (play (g @ g') (c @ c') p) = Returns (e, s', play g' c' (p @ q))) \<and>
    list_all pool_record g \<and> sent_records a' = sent_records a @ map record_view q \<and> log_inv a'"
proof -
  obtain sp a1 where n: "new_send_packet audit_log_writer st s a = (sp, a1)" by (metis prod.collapse)
  let ?sp = "sp\<lparr>sp_State := state, sp_Packets := (sp_Packets sp)\<lparr>gs_len := 0\<rparr>\<rparr>"
  from play_new [OF n assms(2)] obtain g where
    g: "\<And>g' c p. new_send_packet tape_writer st s (play (g # g') c p) = (sp, play g' c p)" "pool_record g" by blast
  from audit.new_send_packet_spec [OF assms(2) n]
  have a1: "log_inv a1" "sent_records a1 = sent_records a" "pool_record ?sp" by (auto simp: audit.filling_def pool_record_def)
  have p: "push_to_log audit_log_writer ?sp s a1 = Returns (e, s', a')" using assms(1) n by (simp add: send_state_def)
  from play_push [OF p a1(1,3)] g a1(2) show ?thesis
    by (intro exI [of _ "[g]"] exI [of _ "[e \<noteq> None]"] exI [of _ "if e = None then [?sp] else []"]) (simp add: send_state_def)
qed

lemma play_current:
  assumes "(case cur of None \<Rightarrow> new_send_packet audit_log_writer st s a | Some sp \<Rightarrow> (sp, a)) = (sp, a')" and "log_inv a"
  shows "\<exists>g. (\<forall>g' c p. (case cur of None \<Rightarrow> new_send_packet tape_writer st s (play (g @ g') c p)
      | Some sp \<Rightarrow> (sp, play (g @ g') c p)) = (sp, play g' c p)) \<and> list_all pool_record g"
proof (cases cur)
  case None
  with assms play_new [of st s a sp a'] obtain g where
    "\<forall>g' c p. new_send_packet tape_writer st s (play (g # g') c p) = (sp, play g' c p)" "pool_record g" by auto
  with None show ?thesis by (intro exI [of _ "[g]"]) simp
next
  case (Some sp)
  with assms show ?thesis by (intro exI [of _ "[]"]) simp
qed

definition plays :: "(nat \<Rightarrow> nat \<Rightarrow> nat) \<Rightarrow> send_task \<Rightarrow> record_buffer option \<Rightarrow> net \<Rightarrow> audit_log \<Rightarrow>
    go_error \<Rightarrow> record_buffer option \<Rightarrow> net \<Rightarrow> audit_log \<Rightarrow> bool" where
  "plays slack st cur s a e cur' s' a' \<longleftrightarrow> (\<exists>g c q. (\<forall>g' c' p. worker_loop slack tape_writer st cur s (play (g @ g') (c @ c') p) =
       Returns (e, cur', s', play g' c' (p @ q))) \<and> list_all pool_record g \<and>
     sent_records a' = sent_records a @ map record_view q \<and> log_inv a' \<and> (\<forall>sp. cur' = Some sp \<longrightarrow> pool_record sp))"

lemma plays_stop:
  assumes "\<And>g' c' p. worker_loop slack tape_writer st cur s (play (g @ g') (c @ c') p) = Returns (e, cur', s', play g' c' p)"
    and "list_all pool_record g" and "sent_records a' = sent_records a" and "log_inv a'" and "\<forall>sp. cur' = Some sp \<longrightarrow> pool_record sp"
  shows "plays slack st cur s a e cur' s' a'"
  unfolding plays_def using assms by (intro exI [of _ g] exI [of _ c] exI [of _ "[]"]) simp

lemma plays_go:
  assumes "\<And>g' c' p. worker_loop slack tape_writer st cur s (play (g @ g') (False # c') p) =
      worker_loop slack tape_writer st None s2 (play g' c' (p @ [sp]))"
    and "list_all pool_record g" and "sent_records a2 = sent_records a @ [record_view sp]"
    and "plays slack st None s2 a2 e cur' s' a'"
  shows "plays slack st cur s a e cur' s' a'"
proof -
  from assms(4) obtain g2 c2 q2 where
    "\<And>g' c' p. worker_loop slack tape_writer st None s2 (play (g2 @ g') (c2 @ c') p) = Returns (e, cur', s', play g' c' (p @ q2))"
    "list_all pool_record g2" "sent_records a' = sent_records a2 @ map record_view q2" "log_inv a'"
    "\<forall>sp. cur' = Some sp \<longrightarrow> pool_record sp" unfolding plays_def by blast
  with assms(1-3) show ?thesis
    unfolding plays_def by (intro exI [of _ "g @ g2"] exI [of _ "False # c2"] exI [of _ "sp # q2"]) simp
qed

lemma play_loop:
  assumes "worker_loop slack audit_log_writer st cur s a = Returns (e, cur', s', a')" and "log_inv a" and "audit.filling st cur"
  shows "plays slack st cur s a e cur' s' a'"
  using assms
proof (induction "inbox_size s" arbitrary: cur s a rule: less_induct)
  case less
  note run = less.prems(1) and inv = less.prems(2) and fl = less.prems(3)
  show ?case
  proof (cases "parent_done s")
    case True
    with run inv fl show ?thesis unfolding plays_def
      by (intro exI [of _ "[]"]) (auto simp: worker_loop.simps [of _ _ _ _ s] audit.filling_def)
  next
    case False
    from audit.current_record [OF inv fl, of "polled s"] obtain sp a0 where
      sp: "(case cur of None \<Rightarrow> new_send_packet audit_log_writer st (polled s) a | Some sp \<Rightarrow> (sp, a)) = (sp, a0)"
      and a0: "log_inv a0" "sent_records a0 = sent_records a" "audit.filling st (Some sp)" and room: "max_packet_size \<le> gs_cap (sp_Packets sp)"
      by blast
    from play_current [OF sp inv] obtain g where
      g: "\<And>g' c p. (case cur of None \<Rightarrow> new_send_packet tape_writer st (polled s) (play (g @ g') c p)
        | Some sp \<Rightarrow> (sp, play (g @ g') c p)) = (sp, play g' c p)" "list_all pool_record g" by blast
    obtain r s1 where wb: "write_buffer_and_send slack (sp_Packets sp) (polled s) = (r, s1)" by (metis prod.collapse)
    from write_buffer_and_send_spec [OF room wb] obtain dst err d x where
      r: "r = Returns (dst, err)" "gs_cap dst = gs_cap (sp_Packets sp)" "forwards (polled s) (dst, err) s1 d x" by blast
    let ?sp1 = "sp\<lparr>sp_Packets := dst\<rparr>"
    have pr: "pool_record ?sp1" using a0(3) r(2) by (simp add: audit.filling_def pool_record_def)
    show ?thesis
    proof (cases err)
      case (Some y)
      have len: "y = EOF \<Longrightarrow> gs_len dst = 0" using r(3) Some by (simp add: forwards_def)
      note stop = worker_loop_error [OF False _ wb [unfolded r(1) Some] len]
      have "e = y \<and> cur' = Some ?sp1 \<and> s' = s1 \<and> a' = a0" using run stop [OF sp] by simp
      with stop [OF g(1)] g(2) a0 pr show ?thesis by (intro plays_stop [of _ _ _ _ g "[]"]) simp_all
    next
      case None
      have ne: "0 < gs_len dst" using audit.forwards_packet(7) r(3) None by blast
      note goes = worker_loop_packet [OF False _ wb [unfolded r(1) None] ne]
      from run goes [OF sp] obtain e2 s2 a2 where p: "push_to_log audit_log_writer ?sp1 s1 a0 = Returns (e2, s2, a2)"
        by (cases "push_to_log audit_log_writer ?sp1 s1 a0") auto
      note pp = play_push [OF p a0(1) pr]
      show ?thesis
      proof (cases e2)
        case (Some y)
        with run goes [OF sp] p have "e = y \<and> cur' = Some ?sp1 \<and> s' = s2 \<and> a' = a2" by simp
        with goes [OF g(1)] g(2) a0 pr pp Some show ?thesis by (intro plays_stop [of _ _ _ _ g "[True]"]) simp_all
      next
        case None2: None
        with run goes [OF sp] p have "worker_loop slack audit_log_writer st None s2 a2 = Returns (e, cur', s', a')" by simp
        moreover have "inbox_size s2 < inbox_size s"
          using write_buffer_and_send_measure [OF wb [unfolded r(1) None]] pp by (simp add: inbox_size_def)
        ultimately have rest: "plays slack st None s2 a2 e cur' s' a'" using less.hyps pp by (simp add: audit.filling_def)
        have turn: "worker_loop slack tape_writer st cur s (play (g @ g') (False # c') p) =
            worker_loop slack tape_writer st None s2 (play g' c' (p @ [?sp1]))" for g' c' p
          using goes [OF g(1)] pp None2 by simp
        have "sent_records a2 = sent_records a @ [record_view ?sp1]" using pp None2 a0(2) by simp
        from plays_go [OF turn g(2) this rest] show ?thesis .
      qed
    qed
  qed
qed

lemma worker_plays:
  assumes "worker slack audit_log_writer st s a = Returns (e, s', a')" and "log_inv a"
  shows "\<exists>g c q. worker slack tape_writer st s (play g c []) = Returns (e, s', play [] [] q) \<and>
    tape_ok (play g c []) \<and> sent_records a' = sent_records a @ tape_records (play [] [] q)"
proof -
  obtain x1 s1 a1 where c: "send_state audit_log_writer st ''connect'' s a = Returns (x1, s1, a1)"
    and rest: "bind_outcome (worker_loop slack audit_log_writer st None s1 a1) (\<lambda>(err, cur, s2, l2).
       let l3 = (case cur of None \<Rightarrow> l2 | Some sp \<Rightarrow> lw_put audit_log_writer sp l2) in
       bind_outcome (send_state audit_log_writer st ''disconnect'' s2 l3) (\<lambda>(_, s3, l4). Returns (err, s3, l4))) = Returns (e, s', a')"
    using assms(1) by (auto simp: worker_def bind_outcome_Returns_iff)
  then obtain cur s2 a2 where l: "worker_loop slack audit_log_writer st None s1 a1 = Returns (e, cur, s2, a2)"
    by (auto simp: bind_outcome_Returns_iff Let_def)
  define a3 where "a3 = (case cur of None \<Rightarrow> a2 | Some sp \<Rightarrow> lw_put audit_log_writer sp a2)"
  from rest l obtain x3 where d: "send_state audit_log_writer st ''disconnect'' s2 a3 = Returns (x3, s', a')"
    by (auto simp: bind_outcome_Returns_iff Let_def a3_def)
  from play_state [OF c assms(2)] obtain g1 c1 q1 where
    1: "\<And>g' c' p. send_state tape_writer st ''connect'' s (play (g1 @ g') (c1 @ c') p) = Returns (x1, s1, play g' c' (p @ q1))"
      "list_all pool_record g1" "sent_records a1 = sent_records a @ map record_view q1" "log_inv a1" by blast
  from play_loop [OF l 1(4)] obtain g2 c2 q2 where
    2: "\<And>g' c' p. worker_loop slack tape_writer st None s1 (play (g2 @ g') (c2 @ c') p) = Returns (e, cur, s2, play g' c' (p @ q2))"
      "list_all pool_record g2" "sent_records a2 = sent_records a1 @ map record_view q2" "log_inv a2"
      "\<forall>sp. cur = Some sp \<longrightarrow> pool_record sp" unfolding plays_def by (auto simp: audit.filling_def)
  have 3: "log_inv a3" "sent_records a3 = sent_records a2"
    using 2(4,5) audit.put_record by (auto simp: a3_def split: option.splits)
  from play_state [OF d 3(1)] obtain g3 c3 q3 where
    4: "\<And>g' c' p. send_state tape_writer st ''disconnect'' s2 (play (g3 @ g') (c3 @ c') p) = Returns (x3, s', play g' c' (p @ q3))"
      "list_all pool_record g3" "sent_records a' = sent_records a3 @ map record_view q3" by blast
  have put: "(case cur of None \<Rightarrow> t | Some sp \<Rightarrow> lw_put tape_writer sp t) = t" for t
    by (simp add: tape_writer_def split: option.split)
  have "worker slack tape_writer st s (play (g1 @ g2 @ g3) (c1 @ c2 @ c3) []) = Returns (e, s', play [] [] (q1 @ q2 @ q3))"
    using 1(1) [of "g2 @ g3" "c2 @ c3" "[]"] 2(1) [of g3 c3 q1] 4(1) [of "[]" "[]" "q1 @ q2"]
    by (simp add: worker_def put)
  with 1(2,3) 2(2,3) 3(2) 4(2,3) show ?thesis
    by (intro exI [of _ "g1 @ g2 @ g3"] exI [of _ "c1 @ c2 @ c3"] exI [of _ "q1 @ q2 @ q3"])
      (simp add: tape_ok_def tape_records_def play_def)
qed

section \<open>Interleavings\<close>

fun interleavings :: "'a list list \<Rightarrow> 'a list set" where
  "interleavings [] = {[]}"
| "interleavings (xs # xss) = (\<Union>ys \<in> interleavings xss. shuffles xs ys)"

lemma set_interleavings: "zs \<in> interleavings xss \<Longrightarrow> set zs = \<Union> (set ` set xss)"
  by (induction xss arbitrary: zs) (auto dest: set_shuffles)

lemma filter_shuffle:
  assumes "zs \<in> shuffles xs ys"
  shows "\<forall>x \<in> set ys. \<not> P x \<Longrightarrow> \<forall>x \<in> set xs. P x \<Longrightarrow> filter P zs = xs"
    and "\<forall>x \<in> set xs. \<not> P x \<Longrightarrow> filter P zs = filter P ys"
proof -
  have f: "filter P zs \<in> shuffles (filter P xs) (filter P ys)" using assms filter_shuffles [of P xs ys] by blast
  show "filter P zs = xs" if "\<forall>x \<in> set ys. \<not> P x" "\<forall>x \<in> set xs. P x"
  proof -
    have "filter P ys = []" "filter P xs = xs" using that by (auto simp: filter_empty_conv)
    with f show ?thesis by simp
  qed
  show "filter P zs = filter P ys" if "\<forall>x \<in> set xs. \<not> P x"
  proof -
    have "filter P xs = []" using that by (auto simp: filter_empty_conv)
    with f show ?thesis by simp
  qed
qed

text \<open>Values that say which list they are from give the list back.\<close>

lemma filter_interleaving:
  assumes "zs \<in> interleavings (map f xs)" and "distinct (map k xs)" and "x \<in> set xs"
    and "\<And>y q. y \<in> set xs \<Longrightarrow> q \<in> set (f y) \<Longrightarrow> key q = k y"
  shows "filter (\<lambda>q. key q = k x) zs = f x"
  using assms
proof (induction xs arbitrary: zs)
  case (Cons y ys)
  from Cons.prems(1) obtain us where us: "us \<in> interleavings (map f ys)" "zs \<in> shuffles (f y) us" by auto
  have k: "\<forall>q \<in> set (f y). key q = k y" using Cons.prems(4) by simp
  show ?case
  proof (cases "x = y")
    case True
    have "key q \<noteq> k x" if "q \<in> set us" for q
    proof -
      from that set_interleavings [OF us(1)] obtain y' where y': "y' \<in> set ys" "q \<in> set (f y')" by auto
      then have "k y' \<in> k ` set ys" by blast
      moreover have "key q = k y'" using Cons.prems(4) [of y' q] y' by simp
      ultimately show ?thesis using Cons.prems(2) True by force
    qed
    with filter_shuffle(1) [OF us(2)] k True show ?thesis by simp
  next
    case False
    then have x: "x \<in> set ys" using Cons.prems(3) by simp
    then have "k x \<in> k ` set ys" by blast
    then have x: "x \<in> set ys" "k x \<noteq> k y" using x Cons.prems(2) by force+
    then have "filter (\<lambda>q. key q = k x) zs = filter (\<lambda>q. key q = k x) us"
      using filter_shuffle(2) [OF us(2)] k by simp
    with Cons.IH [OF us(1) _ x(1)] Cons.prems(2,4) show ?thesis by simp
  qed
qed simp

section \<open>Sessions side by side\<close>

text \<open>A session is its task, its connection and its tape; what it sends to the log:\<close>

definition session_sent :: "(nat \<Rightarrow> nat \<Rightarrow> nat) \<Rightarrow> send_task \<times> net \<times> tape \<Rightarrow> bytes send_packet list" where
  "session_sent slack x = (case x of (st, s, t) \<Rightarrow>
     (case worker slack tape_writer st s t of Panics m \<Rightarrow> [] | Returns (e, s', t') \<Rightarrow> tape_records t'))"

definition fresh_session :: "send_task \<times> net \<times> tape \<Rightarrow> bool" where
  "fresh_session x = (case x of (st, s, t) \<Rightarrow> deadline_err s = None \<and> tape_ok t \<and> tp_pushed t = [])"

definition conn_of :: "send_task \<times> net \<times> tape \<Rightarrow> 32 word" where
  "conn_of x = st_ConnID (fst x)"

text \<open>What a session has done when it has ended, with \<open>qs\<close> the records it has sent.\<close>

definition session_done :: "(nat \<Rightarrow> nat \<Rightarrow> nat) \<Rightarrow> send_task \<times> net \<times> tape \<Rightarrow> bytes send_packet list \<Rightarrow> bool" where
  "session_done slack x qs \<longleftrightarrow> (case x of (st, s, t) \<Rightarrow> \<exists>e s' t' cs rs ds d y.
     worker slack tape_writer st s t = Returns (e, s', t') \<and> qs = cs @ rs @ ds \<and>
     cs \<in> {[]} \<union> {[c] | c. session_record st ''connect'' c \<and> sp_Packets c = []} \<and>
     ds \<in> {[]} \<union> {[c] | c. session_record st ''disconnect'' c \<and> sp_Packets c = []} \<and>
     list_all (est_record st) rs \<and>
     stream (inbox s) = concat (map sp_Packets rs) @ d @ stream (inbox s') \<and>
     outbox s' = outbox s @ concat (map sp_Packets rs) @ y \<and> prefix y d \<and>
     length y \<le> max_packet_size \<and> (e = EOF \<longrightarrow> d = []))"

lemma session_sent_done:
  assumes "fresh_session x"
  shows "session_done slack x (session_sent slack x)"
proof -
  obtain st s t where x: "x = (st, s, t)" by (metis prod_cases3)
  with assms have h: "tape_ok t" "deadline_err s = None" "tape_records t = []"
    by (simp_all add: fresh_session_def tape_records_def)
  from tape.worker_spec [OF h(1), of slack st s] h(2) obtain e s' t' cs rs ds d y where
    "worker slack tape_writer st s t = Returns (e, s', t')" "tape_records t' = tape_records t @ cs @ rs @ ds"
    "cs \<in> {[]} \<union> {[c] | c. session_record st ''connect'' c \<and> sp_Packets c = []}"
    "ds \<in> {[]} \<union> {[c] | c. session_record st ''disconnect'' c \<and> sp_Packets c = []}"
    "list_all (est_record st) rs" "stream (inbox s) = concat (map sp_Packets rs) @ d @ stream (inbox s')"
    "outbox s' = outbox s @ concat (map sp_Packets rs) @ y" "prefix y d" "length y \<le> max_packet_size" "e = EOF \<longrightarrow> d = []"
    by (elim exE conjE) blast
  then show ?thesis unfolding x session_done_def session_sent_def using h(3) by simp blast
qed

lemma session_done_conn: "session_done slack x qs \<Longrightarrow> q \<in> set qs \<Longrightarrow> sp_ConnectionID q = conn_of x"
  by (auto simp: session_done_def conn_of_def session_record_def est_record_def list_all_iff)

text \<open>C3: sessions do not disturb each other's log.  Any number of sessions with different connection ids run at
  the same time, each on its own connection and with whatever records the pool gives it and
  whatever cancellations it sees; their sends reach the channel in any interleaving, mixed with any turns and
  rotations of the worker.  On a disk without errors the records of one connection that are filed, over all
  files, are the records this session has sent, in its order and with its packets, up to those
  still in the channel, and all of them when the worker has ended because the channel was closed;
  every file decodes to what was filed in it.\<close>

theorem concurrent_sessions_are_audited:
  assumes "main_startup u = Runs cfg m a" and "healthy (su_disk u)" and "stores (k_files (su_disk u)) L"
    and "list_all fresh_session xs" and "distinct (map conn_of xs)"
    and "AuditLog.orderly False es" and "pushed es \<in> interleavings (map (session_sent slack) xs)"
    and "w = filed (pc_LogFileName cfg) es [] False (time2Path (pc_LogFileName cfg) (su_now u))"
  shows "\<exists>r a'. log_write_worker es a = Returns (r, a') \<and>
    (\<forall>x \<in> set xs. \<exists>qs. session_done slack x qs \<and> prefix (filter (\<lambda>q. sp_ConnectionID q = conn_of x) (map snd w)) qs \<and>
       (r = Some None \<longrightarrow> filter (\<lambda>q. sp_ConnectionID q = conn_of x) (map snd w) = qs)) \<and>
    (r \<noteq> None \<longrightarrow> (\<forall>p. records_of L p @ filed_in p w \<noteq> [] \<longrightarrow>
       (\<exists>d. new_file_reader (k_files (al_disk a')) p = Inr d \<and> decodes d (records_of L p @ filed_in p w))))"
proof -
  from worker_run_files [OF assms(2,3) main_startup_runs(1) [OF assms(1)] assms(6,8)] obtain r a' where
    r: "log_write_worker es a = Returns (r, a')" "prefix (map snd w) (pushed es)" "r = Some None \<longrightarrow> map snd w = pushed es"
      "r \<noteq> None \<longrightarrow> (\<forall>p. records_of L p @ filed_in p w \<noteq> [] \<longrightarrow>
        (\<exists>d. new_file_reader (k_files (al_disk a')) p = Inr d \<and> decodes d (records_of L p @ filed_in p w)))"
    by blast
  have d: "session_done slack x (session_sent slack x)" if "x \<in> set xs" for x
    using session_sent_done assms(4) that by (auto simp: list_all_iff)
  have f: "filter (\<lambda>q. sp_ConnectionID q = conn_of x) (pushed es) = session_sent slack x" if "x \<in> set xs" for x
    by (rule filter_interleaving [OF assms(7,5) that]) (rule session_done_conn [OF d])
  have "prefix (filter (\<lambda>q. sp_ConnectionID q = conn_of x) (map snd w)) (session_sent slack x)" if "x \<in> set xs" for x
    using filter_mono_prefix [OF r(2)] f [OF that] by metis
  then have "\<exists>qs. session_done slack x qs \<and> prefix (filter (\<lambda>q. sp_ConnectionID q = conn_of x) (map snd w)) qs \<and>
       (r = Some None \<longrightarrow> filter (\<lambda>q. sp_ConnectionID q = conn_of x) (map snd w) = qs)" if "x \<in> set xs" for x
    using d [OF that] f [OF that] r(3) that by (intro exI [of _ "session_sent slack x"]) simp
  with r(1,4) show ?thesis by blast
qed

lemma append_in_shuffles: "xs @ ys \<in> shuffles xs ys"
  by (induction xs) (auto intro: Cons_in_shuffles_leftI)

lemma orderly_pushes:
  "list_all (encodable \<circ> record_view) sps \<Longrightarrow> AuditLog.orderly False (map Pushed sps @ es) = AuditLog.orderly False es"
  by (induction sps) auto

lemma pushed_pushes: "pushed (map Pushed sps @ es) = map record_view sps @ pushed es"
  by (induction sps) auto

definition example_session :: "32 word \<Rightarrow> send_task \<times> net \<times> tape" where
  "example_session i = (example_task\<lparr>st_ConnID := i\<rparr>, query_net, \<lparr>tp_gets = [], tp_cancels = [], tp_pushed = []\<rparr>)"

lemma example_session_sends:
  "\<exists>sps. session_sent slack (example_session i) = map record_view sps \<and> list_all (encodable \<circ> record_view) sps"
proof -
  let ?st = "example_task\<lparr>st_ConnID := i\<rparr>" and ?t = "\<lparr>tp_gets = [], tp_cancels = [], tp_pushed = []\<rparr>"
  have "fresh_session (example_session i)"
    by (simp add: example_session_def fresh_session_def query_net_def tape_ok_def)
  from session_sent_done [OF this, of slack] obtain e s' t' cs rs ds where
    w: "worker slack tape_writer ?st query_net ?t = Returns (e, s', t')"
    and q: "session_sent slack (example_session i) = cs @ rs @ ds"
      "cs \<in> {[]} \<union> {[c] | c. session_record ?st ''connect'' c \<and> sp_Packets c = []}"
      "ds \<in> {[]} \<union> {[c] | c. session_record ?st ''disconnect'' c \<and> sp_Packets c = []}" "list_all (est_record ?st) rs"
    unfolding session_done_def example_session_def by (simp only: prod.case, elim exE conjE) blast
  have "list_all encodable (cs @ rs @ ds)"
    by (rule session_records_encodable [OF q(2-4)]) (simp_all add: example_task_def)
  then have "list_all encodable (map record_view (tp_pushed t'))"
    using q(1) w by (simp add: session_sent_def example_session_def tape_records_def)
  then have "list_all (encodable \<circ> record_view) (tp_pushed t')" by (simp add: list_all_iff)
  then show ?thesis using w by (intro exI [of _ "tp_pushed t'"]) (simp add: session_sent_def example_session_def tape_records_def)
qed

theorem concurrent_sessions_are_audited_witness:
  "\<exists>m a es r a'. main_startup example_surroundings = Runs example_cfg m a \<and> log_write_worker es a = Returns (r, a') \<and>
     (\<forall>x \<in> {example_session 1, example_session 2}. \<exists>qs. session_done (\<lambda>_ _. 0) x qs)"
proof -
  obtain m a where a: "main_startup example_surroundings = Runs example_cfg m a" using example_starts by blast
  have h: "healthy (su_disk example_surroundings)" "stores (k_files (su_disk example_surroundings)) Map.empty"
    by (simp_all add: example_surroundings_def healthy_blank stores_blank)
  let ?xs = "[example_session 1, example_session 2]" and ?sl = "\<lambda>_ _. 0"
  have x: "list_all fresh_session ?xs" "distinct (map conn_of ?xs)"
    by (simp_all add: example_session_def fresh_session_def query_net_def tape_ok_def conn_of_def)
  from example_session_sends [of ?sl 1] example_session_sends [of ?sl 2] obtain s1 s2 where
    s: "session_sent ?sl (example_session 1) = map record_view s1" "list_all (encodable \<circ> record_view) s1"
      "session_sent ?sl (example_session 2) = map record_view s2" "list_all (encodable \<circ> record_view) s2" by blast
  let ?es = "map Pushed (s1 @ s2) @ [Closed]"
  have o: "AuditLog.orderly False ?es" using s(2,4) orderly_pushes [of "s1 @ s2" "[Closed]"] by simp
  have p: "pushed ?es \<in> interleavings (map (session_sent ?sl) ?xs)"
    using append_in_shuffles [of "map record_view s1" "map record_view s2"] pushed_pushes [of "s1 @ s2" "[Closed]"] s(1,3)
    by simp
  from concurrent_sessions_are_audited [OF a h x o p refl] obtain r a' where
    "log_write_worker ?es a = Returns (r, a')" "\<forall>x \<in> set ?xs. \<exists>qs. session_done ?sl x qs" by blast
  with a show ?thesis by (metis list.set(1) list.set(2))
qed

end
