(* ===== verification/LogRefinement.thy ===== *)
theory LogRefinement
  imports Startup
begin

text \<open>
  The log writer implements the system: every run of its worker, with the sends of the sessions and
  the closing of the channel in between, is a run of the system of \<open>Pipeline\<close>.
\<close>

section \<open>Errors of the disk\<close>

text \<open>No operation on files gives \<open>io.EOF\<close>, which the worker takes for the end of the channel.\<close>

definition real_disk :: "disk \<Rightarrow> bool" where
  "real_disk k \<longleftrightarrow> Some EOF \<notin> set (k_open k) \<and> (\<forall>n. k_room k \<noteq> Some (n, EOF)) \<and> k_flush k \<noteq> Some EOF \<and> k_close k \<noteq> Some EOF"

definition real_writer :: "gzip_writer \<times> disk \<Rightarrow> bool" where
  "real_writer w \<longleftrightarrow> z_err (fst w) \<noteq> Some EOF \<and> real_disk (snd w)"

definition real_errors :: "audit_log \<Rightarrow> bool" where
  "real_errors a \<longleftrightarrow> real_disk (al_disk a) \<and> (\<forall>z. al_gzip a = Some z \<longrightarrow> z_err z \<noteq> Some EOF)"

lemma real_open: "real_disk k \<Longrightarrow> open_file m p k = (e, k') \<Longrightarrow> real_disk k' \<and> e \<noteq> Some EOF"
  by (cases "k_open k") (auto simp: open_file_def real_disk_def Let_def split: open_mode.splits option.splits if_splits)

lemma real_write: "real_writer w \<Longrightarrow> gz_write w b = (w', n, e) \<Longrightarrow> real_writer w' \<and> e \<noteq> Some EOF"
  by (cases w) (auto simp: gz_write_def real_writer_def real_disk_def split: option.splits if_splits)

lemma real_and_then:
  assumes "\<And>w' e'. r = (w', e') \<Longrightarrow> real_writer w' \<and> e' \<noteq> Some EOF"
    and "\<And>w w' e'. real_writer w \<Longrightarrow> k w = (w', e') \<Longrightarrow> real_writer w' \<and> e' \<noteq> Some EOF"
    and "and_then r k = (w', e')"
  shows "real_writer w' \<and> e' \<noteq> Some EOF"
  using assms by (cases r) (auto simp: and_then_def split: option.splits)

lemma real_binary_write: "real_writer w \<Longrightarrow> binary_write gz_write w b = (w', e) \<Longrightarrow> real_writer w' \<and> e \<noteq> Some EOF"
  using real_write by (auto simp: binary_write_def split: prod.splits)

lemma real_write_bytes: "real_writer w \<Longrightarrow> write_bytes gz_write b w = (w', e) \<Longrightarrow> real_writer w' \<and> e \<noteq> Some EOF"
  unfolding write_bytes_def
  by (erule real_and_then [rotated 2]) (auto simp: real_binary_write dest: real_write split: prod.splits)

lemma real_encode: "real_writer w \<Longrightarrow> encode_packet gz_write w p = (w', e) \<Longrightarrow> real_writer w' \<and> e \<noteq> Some EOF"
  unfolding encode_packet_def
  apply (erule real_and_then [rotated 2], erule (1) real_binary_write)
  apply (erule real_and_then [rotated 2], erule (1) real_binary_write)
  apply (erule real_and_then [rotated 2], erule (1) real_write_bytes)+
  apply auto
  done

lemma real_close: "real_errors a \<Longrightarrow> close_file a = (e, a') \<Longrightarrow> real_errors a' \<and> e \<noteq> Some EOF"
  by (auto simp: close_file_def close_os_file_def gz_close_def real_errors_def real_disk_def split: option.splits)

lemma real_create:
  assumes "real_errors a" and "create_file t a = (e, a')"
  shows "real_errors a' \<and> e \<noteq> Some EOF"
proof -
  let ?p = "time2Path (al_filePath a) t"
  obtain e1 k where o: "open_file Excl ?p (al_disk a) = (e1, k)" by (metis prod.collapse)
  have k: "real_disk k" "e1 \<noteq> Some EOF" using real_open [OF _ o] assms(1) by (simp_all add: real_errors_def)
  obtain e2 k2 where o2: "open_file Append ?p k = (e2, k2)" by (metis prod.collapse)
  note k2 = real_open [OF k(1) o2]
  obtain z k3 n e3 where g: "gz_write (gz_new ?p, k) header = ((z, k3), n, e3)" by (metis prod.collapse)
  have "real_writer (gz_new ?p, k)" using k(1) by (simp add: real_writer_def gz_new_def)
  note k3 = real_write [OF this g]
  show ?thesis
    using assms o o2 g k k2 k3
    by (auto simp: create_file_def Let_def real_errors_def real_writer_def gz_new_def split: option.splits if_splits)
qed

lemma real_receive:
  assumes "real_errors a" and "receive_and_write w a = Returns (e, a')" and "queued a \<noteq> [] \<or> w \<noteq> Receive"
  shows "real_errors a' \<and> e \<noteq> Some EOF"
proof (cases w)
  case Done
  with assms show ?thesis by (simp add: receive_and_write_def)
next
  case (Tick t)
  obtain e1 a1 where c: "close_file a = (e1, a1)" by (metis prod.collapse)
  from real_close [OF assms(1) c] assms(2) Tick c real_create [of a1 t] show ?thesis
    by (cases e1) (auto simp: receive_and_write_def)
next
  case Receive
  with assms(3) obtain sp q where q: "queued a = sp # q" by (cases "queued a") auto
  with assms(2) Receive obtain z where z: "al_gzip a = Some z"
    by (cases "al_gzip a") (auto simp: receive_and_write_def write_data_to_file_def)
  obtain z1 k1 e1 where en: "encode_packet gz_write (z, al_disk a) (record_view sp) = ((z1, k1), e1)" by (metis prod.collapse)
  have "real_writer (z, al_disk a)" using assms(1) z by (simp add: real_errors_def real_writer_def)
  from real_encode [OF this en] assms(2) Receive q z en show ?thesis
    by (auto simp: receive_and_write_def write_data_to_file_def put_send_packet_def real_errors_def real_writer_def)
qed

section \<open>A turn of the worker\<close>

lemma log_of_queue:
  assumes "log_of a s" and "fifo s" and "y_writing s = None"
  shows "map record_view (queued a) = map (y_heap s) (y_queue s)"
proof -
  have s: "map record_view (al_sent a) = y_encoded s @ map (y_heap s) (y_queue s)"
    using assms by (simp add: log_of_def fifo_def in_flight_def)
  then have "length (al_sent a) = length (y_encoded s) + length (y_queue s)" by (metis length_append length_map)
  then have "al_recv a = length (y_encoded s)" using assms(1) by (auto simp: log_of_def queued_def)
  then show ?thesis using s by (simp add: queued_def flip: drop_map)
qed

text \<open>
  Taking a queued record, writing it and putting it back is two steps of the system: they receive
  the oldest pointer and encode what it points to, which is the record as it was sent.
\<close>

lemma turn_steps:
  assumes "reachable s" and "log_of a s" and "running s" and "y_worker s" and "y_writing s = None"
    and "queued a = sp # q" and "receive_and_write Receive a = Returns (e, a')"
  shows "\<exists>p ps. sys_step\<^sup>*\<^sup>* s (s\<lparr>y_queue := ps, y_encoded := y_encoded s @ [record_view sp], y_pool := p # y_pool s\<rparr>) \<and>
    log_of a' (s\<lparr>y_queue := ps, y_encoded := y_encoded s @ [record_view sp], y_pool := p # y_pool s\<rparr>) \<and> queued a' = q"
proof -
  from log_of_queue [OF assms(2) reachable_fifo [OF assms(1)] assms(5)] assms(6) obtain p ps where
    q: "y_queue s = p # ps" "record_view sp = y_heap s p" by (auto simp: Cons_eq_map_conv)
  let ?s1 = "s\<lparr>y_queue := ps, y_writing := Some p\<rparr>"
  let ?s2 = "?s1\<lparr>y_writing := None, y_encoded := y_encoded ?s1 @ [y_heap ?s1 p], y_pool := p # y_pool ?s1\<rparr>"
  have t: "sys_step s ?s1" using assms(3-5) q(1) by (rule Take)
  have "running ?s1" "y_writing ?s1 = Some p" using assms(3) by (simp_all add: running_def)
  then have c: "sys_step ?s1 ?s2" by (rule Encode)
  have s2: "?s2 = s\<lparr>y_queue := ps, y_encoded := y_encoded s @ [record_view sp], y_pool := p # y_pool s\<rparr>"
    using q(2) assms(5) by simp
  have g: "al_gzip a \<noteq> None"
    using assms(6,7) by (auto simp: receive_and_write_def write_data_to_file_def split: option.splits)
  from receive_frame [OF assms(6) g] assms(7) obtain z k where
    a': "a' = a\<lparr>al_recv := Suc (al_recv a), al_gzip := Some z, al_disk := k, al_pool := sp # al_pool a\<rparr>" by auto
  have "queued a' = q" using queued_recv [OF assms(6)] by (simp add: a' queued_def)
  moreover have "log_of a' ?s2"
    using assms(2,6) q(1) queued_ConsD [OF assms(6)] calculation by (auto simp: log_of_def a')
  moreover have "sys_step\<^sup>*\<^sup>* s ?s2" using rtranclp.rtrancl_into_rtrancl [OF r_into_rtranclp [of sys_step, OF t] c] .
  ultimately show ?thesis unfolding s2 by blast
qed

section \<open>Runs\<close>

text \<open>Sends that find room, as a send that does not waits for a turn of the worker.\<close>

fun paced :: "nat \<Rightarrow> log_event list \<Rightarrow> bool" where
  "paced q [] \<longleftrightarrow> True"
| "paced q (Pushed sp # es) \<longleftrightarrow> q < queue_capacity \<and> paced (Suc q) es"
| "paced q (Turn Receive # es) \<longleftrightarrow> paced (q - 1) es"
| "paced q (ev # es) \<longleftrightarrow> paced q es"

text \<open>
  A system state that the worker's state is an image of: the worker is waiting, and a session that
  holds no record can send one as long as the channel is open.
\<close>

definition matches :: "audit_log \<Rightarrow> system \<Rightarrow> bool" where
  "matches a s \<longleftrightarrow> reachable s \<and> log_of a s \<and> running s \<and> y_worker s \<and> y_writing s = None \<and>
     (y_server s = Accepting \<or> y_closed s) \<and> (\<exists>i \<in> y_live s. y_held s i = None)"

lemma matches_log: "matches a s \<Longrightarrow> log_of a' s \<Longrightarrow> matches a' s"
  by (simp add: matches_def)

lemma log_of_same:
  assumes "log_of a s" and "queued a' = queued a" and "al_sent a' = al_sent a" and "al_recv a' = al_recv a"
    and "al_closed a' = al_closed a" and "al_cap a' = al_cap a"
  shows "log_of a' s"
  using assms by (simp add: log_of_def)

lemma simulate_push:
  assumes "matches a s" and "\<not> al_closed a" and "length (queued a) < queue_capacity"
  shows "\<exists>s'. sys_step\<^sup>*\<^sup>* s s' \<and> matches (a\<lparr>al_sent := al_sent a @ [sp]\<rparr>) s'"
proof -
  have m: "reachable s" "log_of a s" "running s" "y_worker s" "y_writing s = None" "y_server s = Accepting" "\<not> y_closed s"
    "length (y_queue s) < queue_capacity"
    using assms by (auto simp: matches_def log_of_def)
  obtain i where i: "i \<in> y_live s" "y_held s i = None" using assms(1) by (auto simp: matches_def)
  define s1 where "s1 = s\<lparr>y_held := (y_held s)(i \<mapsto> y_fresh s), y_fresh := Suc (y_fresh s)\<rparr>"
  define s2 where "s2 = s1\<lparr>y_heap := (y_heap s1)(y_fresh s := record_view sp)\<rparr>"
  define s3 where "s3 = s2\<lparr>y_held := (y_held s2)(i := None), y_queue := y_queue s2 @ [y_fresh s],
    y_pushed := y_pushed s2 @ [y_heap s2 (y_fresh s)]\<rparr>"
  have 1: "sys_step s s1" unfolding s1_def by (rule GetNew [OF m(3) i]) simp
  have r1: "running s1" "y_held s1 i = Some (y_fresh s)" using m(3) by (simp_all add: s1_def running_def)
  have 2: "sys_step s1 s2" unfolding s2_def by (rule Fill [OF r1])
  have r2: "running s2" "y_held s2 i = Some (y_fresh s)" "\<not> y_closed s2" "length (y_queue s2) < queue_capacity"
    using r1 m(7,8) by (simp_all add: s2_def s1_def running_def)
  have 3: "sys_step s2 s3" unfolding s3_def by (rule Push [OF r2])
  from rtranclp.rtrancl_into_rtrancl [OF rtranclp.rtrancl_into_rtrancl [OF r_into_rtranclp [of sys_step, OF 1] 2] 3]
  have st: "sys_step\<^sup>*\<^sup>* s s3" .
  have "log_of (a\<lparr>al_sent := al_sent a @ [sp]\<rparr>) s3"
    using m(2) by (auto simp: log_of_def queued_def s3_def s2_def s1_def)
  moreover have "running s3" "y_worker s3" "y_writing s3 = None" "y_server s3 = Accepting" "i \<in> y_live s3" "y_held s3 i = None"
    using m i by (simp_all add: s3_def s2_def s1_def running_def)
  ultimately have "matches (a\<lparr>al_sent := al_sent a @ [sp]\<rparr>) s3"
    using reachable_steps [OF st m(1)] by (auto simp: matches_def)
  with st show ?thesis by blast
qed

lemma simulate_close:
  assumes "matches a s" and "\<not> al_closed a"
  shows "\<exists>s'. sys_step\<^sup>*\<^sup>* s s' \<and> matches (a\<lparr>al_closed := True\<rparr>) s'"
proof -
  have m: "reachable s" "log_of a s" "running s" "y_worker s" "y_writing s = None" "y_server s = Accepting" "\<not> y_closed s"
    using assms by (auto simp: matches_def log_of_def)
  let ?s = "s\<lparr>y_ctx_done := True, y_server := Returned, y_closed := True\<rparr>"
  note st = can_close [OF m(3,7)]
  have "log_of (a\<lparr>al_closed := True\<rparr>) ?s" using m(2) by (simp add: log_of_def queued_def)
  then have "matches (a\<lparr>al_closed := True\<rparr>) ?s"
    using m reachable_steps [OF st m(1)] assms(1) by (simp add: matches_def running_def)
  with st show ?thesis by blast
qed

lemma simulate_receive:
  assumes "matches a s" and "queued a = sp # q" and "receive_and_write Receive a = Returns (e, a')"
  shows "\<exists>s'. sys_step\<^sup>*\<^sup>* s s' \<and> matches a' s' \<and> queued a' = q"
proof -
  have m: "reachable s" "log_of a s" "running s" "y_worker s" "y_writing s = None"
    using assms by (auto simp: matches_def)
  from turn_steps [OF m assms(2,3)] obtain p ps where
    t: "sys_step\<^sup>*\<^sup>* s (s\<lparr>y_queue := ps, y_encoded := y_encoded s @ [record_view sp], y_pool := p # y_pool s\<rparr>)"
      "log_of a' (s\<lparr>y_queue := ps, y_encoded := y_encoded s @ [record_view sp], y_pool := p # y_pool s\<rparr>)" "queued a' = q" by blast
  let ?s = "s\<lparr>y_queue := ps, y_encoded := y_encoded s @ [record_view sp], y_pool := p # y_pool s\<rparr>"
  have "matches a' ?s"
    using t(2) reachable_steps [OF t(1) m(1)] assms(1) by (simp add: matches_def running_def)
  with t(1,3) show ?thesis by blast
qed

lemma close_file_same:
  "close_file a = (e, a') \<Longrightarrow> log_of a s \<Longrightarrow> log_of a' s \<and> queued a' = queued a"
  by (auto simp: close_file_def close_os_file_def log_of_def queued_def split: option.splits prod.splits)

lemma create_file_same:
  "create_file t a = (e, a') \<Longrightarrow> log_of a s \<Longrightarrow> log_of a' s \<and> queued a' = queued a"
  by (auto simp: create_file_def log_of_def queued_def Let_def split: option.splits prod.splits if_splits)

lemma tick_same:
  assumes "receive_and_write (Tick t) a = Returns (e, a')" and "log_of a s"
  shows "log_of a' s \<and> queued a' = queued a"
proof -
  obtain e1 a1 where c: "close_file a = (e1, a1)" by (metis prod.collapse)
  from close_file_same [OF c assms(2)] create_file_same [of t a1 e a' s] assms(1) c show ?thesis
    by (cases e1) (auto simp: receive_and_write_def)
qed

lemma simulate_stop:
  assumes "matches a s" and "log_of a' s" and "y_closed s \<and> y_queue s = [] \<or> c"
  shows "\<exists>s'. sys_step\<^sup>*\<^sup>* s s' \<and> log_of a' s' \<and> \<not> y_worker s' \<and> y_writing s' = None \<and>
    y_closed s' = y_closed s \<and> y_queue s' = y_queue s \<and> (c \<longrightarrow> y_ctx_done s')"
proof -
  define s1 where "s1 = (if c then s\<lparr>y_ctx_done := True\<rparr> else s)"
  define s2 where "s2 = s1\<lparr>y_worker := False\<rparr>"
  have r: "running s" "y_worker s" "y_writing s = None" using assms(1) by (simp_all add: matches_def)
  have 1: "sys_step\<^sup>*\<^sup>* s s1" using r_into_rtranclp [of sys_step, OF Interrupt [OF r(1)]] by (simp add: s1_def)
  have "running s1" "y_worker s1" "y_writing s1 = None" "y_ctx_done s1 \<or> y_closed s1 \<and> y_queue s1 = []"
    using r assms(3) by (auto simp: s1_def running_def)
  then have 2: "sys_step s1 s2" unfolding s2_def by (rule WorkerStops)
  have "log_of a' s2" using assms(2) by (simp add: s2_def s1_def log_of_def)
  with rtranclp.rtrancl_into_rtrancl [OF 1 2] r(3) show ?thesis
    by (intro exI [of _ s2]) (simp add: s2_def s1_def)
qed

definition ends_as :: "go_error option option \<Rightarrow> audit_log \<Rightarrow> system \<Rightarrow> bool" where
  "ends_as r a s \<longleftrightarrow> log_of a s \<and> y_writing s = None \<and> (y_worker s \<longleftrightarrow> r = None) \<and>
     (r = Some None \<longrightarrow> y_closed s \<and> y_queue s = []) \<and> (\<forall>e. r = Some (Some e) \<longrightarrow> y_ctx_done s)"

lemma ends_after:
  assumes "sys_step\<^sup>*\<^sup>* s s1" and "\<exists>s'. sys_step\<^sup>*\<^sup>* s1 s' \<and> ends_as r a s'"
  shows "\<exists>s'. sys_step\<^sup>*\<^sup>* s s' \<and> ends_as r a s'"
  using assms by (meson rtranclp_trans)

text \<open>One turn: the worker goes on in a state of the system, or it has closed the file of the closed channel.\<close>

lemma simulate_turn:
  assumes "matches a s" and "real_errors a" and "turn_ready w a" and "receive_and_write w a = Returns (e, a1)"
  shows "e \<noteq> Some EOF \<and> real_errors a1 \<and> length (queued a1) = length (queued a) - (if w = Receive then 1 else 0) \<and>
      (\<exists>s1. sys_step\<^sup>*\<^sup>* s s1 \<and> matches a1 s1) \<or>
    e = Some EOF \<and> log_of a1 s \<and> y_closed s \<and> y_queue s = []"
proof -
  have l: "log_of a s" using assms(1) by (simp add: matches_def)
  consider (got) sp q where "w = Receive" "queued a = sp # q" | (rot) t where "w = Tick t" | (stay) "w = Done"
    | (fin) "w = Receive" "queued a = []" "al_closed a"
    using assms(3) by (cases w; cases "queued a") (auto simp: turn_ready_def)
  then show ?thesis
  proof cases
    case got
    from simulate_receive [OF assms(1) got(2) assms(4) [unfolded got(1)]] real_receive [OF assms(2,4)] got
    show ?thesis by auto
  next
    case rot
    from tick_same [OF assms(4) [unfolded rot] l] real_receive [OF assms(2,4)] rot matches_log [OF assms(1)]
    show ?thesis by auto
  next
    case stay
    with assms show ?thesis by (auto simp: receive_and_write_def)
  next
    case fin
    obtain e1 a2 where c: "close_file a = (e1, a2)" by (metis prod.collapse)
    have s: "y_closed s" "y_queue s = []" using l fin by (auto simp: log_of_def)
    from close_file_same [OF c l] real_close [OF assms(2) c] matches_log [OF assms(1)] fin(1,2) assms(4) c s show ?thesis
      by (cases e1) (auto simp: receive_and_write_def)
  qed
qed

lemma worker_simulated:
  assumes "matches a s" and "real_errors a" and "paced (length (queued a)) es" and "log_write_worker es a = Returns (r, a')"
  shows "\<exists>s'. sys_step\<^sup>*\<^sup>* s s' \<and> ends_as r a' s'"
  using assms
proof (induction es arbitrary: a s)
  case Nil
  then show ?case by (auto simp: ends_as_def matches_def)
next
  case (Cons ev es)
  note m = Cons.prems(1) and re = Cons.prems(2) and pc = Cons.prems(3) and run = Cons.prems(4)
  have l: "log_of a s" "al_recv a \<le> length (al_sent a)" using m by (auto simp: matches_def log_of_def)
  have re': "real_errors (a\<lparr>al_sent := x\<rparr>)" "real_errors (a\<lparr>al_closed := c\<rparr>)" for x c using re by (simp_all add: real_errors_def)
  show ?case
  proof (cases ev)
    case (Pushed sp)
    with run pc have h: "\<not> al_closed a" "length (queued a) < queue_capacity" by (auto split: if_splits)
    from simulate_push [OF m h] obtain s1 where s1: "sys_step\<^sup>*\<^sup>* s s1" "matches (a\<lparr>al_sent := al_sent a @ [sp]\<rparr>) s1" by blast
    have "paced (length (queued (a\<lparr>al_sent := al_sent a @ [sp]\<rparr>))) es" using pc Pushed queued_send [OF l(2)] by simp
    from Cons.IH [OF s1(2) re'(1) this] run Pushed h(1) show ?thesis by (intro ends_after [OF s1(1)]) simp
  next
    case Closed
    with run have h: "\<not> al_closed a" by (auto simp: close_channel_def)
    from simulate_close [OF m h] obtain s1 where s1: "sys_step\<^sup>*\<^sup>* s s1" "matches (a\<lparr>al_closed := True\<rparr>) s1" by blast
    have "paced (length (queued (a\<lparr>al_closed := True\<rparr>))) es" using pc Closed by simp
    from Cons.IH [OF s1(2) re'(2) this] run Closed h show ?thesis by (intro ends_after [OF s1(1)]) (simp add: close_channel_def)
  next
    case (Turn w)
    consider (stop) "w = Done" | (wait) "w \<noteq> Done" "\<not> turn_ready w a" | (go) "w \<noteq> Done" "turn_ready w a" by blast
    then show ?thesis
    proof cases
      case stop
      with run Turn obtain e where c: "close_file a = (e, a')" "r = Some (Some Canceled)" by (auto split: prod.splits)
      from simulate_stop [OF m conjunct1 [OF close_file_same [OF c(1) l(1)]], of True] c(2) show ?thesis
        by (auto simp: ends_as_def)
    next
      case wait
      with Turn run pc have "log_write_worker es a = Returns (r, a')" "paced (length (queued a)) es"
        by (auto simp: turn_ready_def split: log_turn.splits)
      from Cons.IH [OF m re this(2,1)] show ?thesis .
    next
      case go
      with run Turn obtain e a1 where w: "receive_and_write w a = Returns (e, a1)"
        and rest: "if e = Some EOF then \<exists>e'. close_file a1 = (e', a') \<and> r = Some None else log_write_worker es a1 = Returns (r, a')"
        by (auto simp: bind_outcome_Returns_iff split: if_splits prod.splits)
      from simulate_turn [OF m re go(2) w] show ?thesis
      proof (elim disjE conjE exE)
        fix s1 assume s1: "e \<noteq> Some EOF" "real_errors a1" "sys_step\<^sup>*\<^sup>* s s1" "matches a1 s1"
          and n: "length (queued a1) = length (queued a) - (if w = Receive then 1 else 0)"
        have "paced (length (queued a1)) es" using pc Turn go(1) n by (cases w) auto
        from Cons.IH [OF s1(4,2) this] rest s1(1) show ?thesis by (intro ends_after [OF s1(3)]) simp
      next
        assume e: "e = Some EOF" "log_of a1 s" "y_closed s" "y_queue s = []"
        with rest obtain e' where c: "close_file a1 = (e', a')" "r = Some None" by auto
        from simulate_stop [OF m conjunct1 [OF close_file_same [OF c(1) e(2)]], of False] e(3,4) c(2) show ?thesis
          by (auto simp: ends_as_def)
      qed
    qed
  qed
qed

text \<open>The log writer that \<open>main\<close> has made.\<close>

lemma startup_matches:
  assumes "main_startup u = Runs cfg m a" and "real_disk (su_disk u)"
  shows "log_of a (main_start h) \<and> real_errors a"
proof -
  let ?a0 = "\<lparr>al_filePath = pc_LogFileName cfg, al_sent = [], al_recv = 0, al_cap = queue_capacity,
        al_closed = False, al_picks = su_picks u, al_pool = [], al_file = None, al_gzip = None,
        al_latestFile = [], al_disk = su_disk u\<rparr>"
  from main_startup_runs(1) [OF assms(1)] have c: "create_file (su_now u) ?a0 = (None, a)"
    by (auto simp: new_audit_log_def split: prod.splits option.splits)
  have "real_errors ?a0" using assms(2) by (simp add: real_errors_def)
  moreover have "log_of ?a0 (main_start h)" by (simp add: log_of_def main_start_def queued_def)
  ultimately show ?thesis using real_create [OF _ c] create_file_same [OF c] by blast
qed



end
