(* ===== verification/Undisturbed.thy ===== *)
theory Undisturbed
  imports ClientSess
begin

text \<open>
  Sessions that nothing disturbs: no cancellation, no error but read timeouts, a server that takes
  what it is sent, and a log that is not given up.  Here it is said what has to happen, where
  \<open>SendTask\<close> and \<open>AuditLog\<close> say what cannot go wrong: every packet is forwarded and logged.
\<close>

section \<open>Undisturbed connections\<close>

definition quiet :: "net \<Rightarrow> bool" where
  "quiet s \<longleftrightarrow> deadline_err s = None \<and> pctx s = None \<and> cctx s = None \<and> out_room s = None \<and>
     (\<forall>c \<in> set (inbox s). c_err c = None \<or> c_err c = Some NetTimeout)"

lemma quiet_polled: "quiet s \<Longrightarrow> polled s = s"
  by (simp add: quiet_def polled_def)

lemma quiet_not_done: "quiet s \<Longrightarrow> \<not> parent_done s \<and> \<not> child_done s"
  by (simp add: quiet_def parent_done_def child_done_def)

lemma quiet_read:
  assumes "quiet s" and "timeout_read k s = ((b, e), s1)"
  shows "quiet s1 \<and> (k = 0 \<and> e = None \<or> 0 < k \<and> inbox s = [] \<and> b = [] \<and> e = Some EOF \<and> s1 = s \<or>
    e = None \<or> e = Some NetTimeout)"
  using assms quiet_polled [OF assms(1)] quiet_not_done [OF assms(1)]
  by (auto simp: timeout_read_def quiet_def split: if_splits list.splits chunk.splits)

lemma quiet_write:
  assumes "quiet s"
  shows "timeout_write s b = (s\<lparr>outbox := outbox s @ b\<rparr>, length b, None)"
  using assms quiet_polled [OF assms] quiet_not_done [OF assms]
  by (simp add: timeout_write_def conn_write_def quiet_def)

lemma read_full_quiet:
  assumes "quiet s" and "read_full_mysql_packet k got s = ((g, n, e), s')"
  shows "quiet s' \<and> (k \<le> length (stream (inbox s)) \<longrightarrow> e = None) \<and>
    (stream (inbox s) = [] \<and> 0 < k \<and> got = [] \<longrightarrow> g = [] \<and> n = 0 \<and> e = Some EOF)"
  using assms
proof (induction k got s rule: read_full_mysql_packet.induct)
  case (1 k got s)
  have q: "deadline_err s = None" using "1.prems"(1) by (simp add: quiet_def)
  obtain b x s1 where rd: "timeout_read k s = ((b, x), s1)" by (metis prod.collapse)
  note r = quiet_read [OF "1.prems"(1) rd] and st = timeout_read_stream [OF rd]
  have s1: "quiet s1" "\<not> parent_done s1" "polled s1 = s1"
    using r quiet_polled quiet_not_done by blast+
  let ?s2 = "if x = None then s1 else polled s1"
  consider (full) "x = None \<or> x = Some NetTimeout" "k \<le> length b"
    | (again) "x = None \<or> x = Some NetTimeout" "\<not> k \<le> length b"
    | (eof) "0 < k" "inbox s = []" "b = []" "x = Some EOF" "s1 = s" using r by metis
  then show ?case
  proof cases
    case full
    with "1.prems"(2) q rd s1 st show ?thesis
      by (auto simp: read_full_mysql_packet.simps [of k] Let_def split: if_splits)
  next
    case again
    have "read_full_mysql_packet (k - length b) (got @ b) ?s2 = ((g, n, e), s')"
      using "1.prems"(2) q rd again s1 by (auto simp: read_full_mysql_packet.simps [of k] Let_def split: if_splits)
    moreover have "quiet ?s2" using s1 by simp
    ultimately show ?thesis
      using "1.IH" [OF q rd [symmetric] refl refl refl _ _ refl] again s1 st by auto
  next
    case eof
    with "1.prems"(2) q rd s1 show ?thesis
      by (auto simp: read_full_mysql_packet.simps [of k] Let_def split: if_splits)
  qed
qed

text \<open>A stream of packets is cut in one way only.\<close>

lemma mysql_packet_unique:
  assumes "mysql_packet p" and "mysql_packet d" and "p @ r = d @ r'"
  shows "p = d"
proof -
  have "payload_length p = payload_length d"
    using assms payload_length_append [of p r] payload_length_append [of d r'] by (simp add: mysql_packet_def)
  then show ?thesis using assms by (simp add: mysql_packet_def append_eq_append_conv)
qed

lemma payload_length_take: "4 \<le> length b \<Longrightarrow> payload_length (take 4 b) = payload_length b"
  using payload_length_append [of "take 4 b" "drop 4 b"] by simp

lemma forward_quiet:
  assumes "quiet s" and "max_packet_size \<le> gs_cap dst" and "stream (inbox s) = p @ rest" and "mysql_packet p"
  shows "\<exists>dst' s'. write_buffer_and_send slack dst s = (Returns (dst', None), s') \<and> quiet s'"
proof -
  have room: "4 \<le> gs_cap dst" "payload_length p + 4 \<le> gs_cap dst" and p: "4 \<le> length p" "length p = payload_length p + 4"
    using assms(2,4) payload_length_bound [of p] by (simp_all add: max_packet_size_def mysql_packet_def)
  obtain got n e s1 where rd: "read_full_mysql_packet 4 [] s = ((got, n, e), s1)" by (metis prod.collapse)
  have e: "e = None" "quiet s1" using read_full_quiet [OF assms(1) rd] assms(3) p(1) by simp_all
  then have got: "length got = 4" "stream (inbox s) = got @ stream (inbox s1)"
    using read_full_stream [OF rd] quiet_not_done [OF e(2)] by auto
  then have "take 4 (p @ rest) = got" using assms(3) by simp
  then have "got = take 4 p" using p(1) by simp
  then have pl: "payload_length (got @ xs) = payload_length p" for xs
    using payload_length_append [of got xs] payload_length_take [OF p(1)] p(1) by simp
  let ?d2 = "store_at 0 got (dst\<lparr>gs_len := 4\<rparr>)"
  have arr: "gs_arr ?d2 = got @ drop 4 (gs_arr dst)" using got(1) by (simp add: store_at_def)
  obtain data m e1 s2 where rd2: "read_full_mysql_packet (payload_length p) [] s1 = ((data, m, e1), s2)"
    by (metis prod.collapse)
  have "length (stream (inbox s)) = length p + length rest" using assms(3) by simp
  then have "payload_length p \<le> length (stream (inbox s1))" using got p(2) by simp
  then have e1: "e1 = None" "quiet s2" using read_full_quiet [OF e(2) rd2] by simp_all
  have cap: "gs_cap ?d2 = gs_cap dst" using got(1) room(1) by (simp add: gs_cap_store)
  have "\<exists>dst' s'. forward_payload slack ?d2 s1 = (Returns (dst', None), s') \<and> quiet s'"
    using rd2 e1 quiet_write [OF e1(2)] room(2) cap
    by (auto simp: forward_payload_def Let_def arr pl resize_slice_fits quiet_def)
  then show ?thesis
    using rd e(1) room(1) by (simp add: write_buffer_and_send_def resize_slice_fits Let_def)
qed

text \<open>One packet of an undisturbed session, and the end of its input.\<close>

lemma forward_quiet_packet:
  assumes "quiet s" and "max_packet_size \<le> gs_cap dst" and "stream (inbox s) = p @ rest" and "mysql_packet p"
  shows "\<exists>dst' s'. write_buffer_and_send slack dst s = (Returns (dst', None), s') \<and> quiet s' \<and>
    gs_cap dst' = gs_cap dst \<and> gs_bytes dst' = p \<and> stream (inbox s') = rest \<and> outbox s' = outbox s @ p"
proof -
  from forward_quiet [OF assms] obtain dst' s' where
    w: "write_buffer_and_send slack dst s = (Returns (dst', None), s')" "quiet s'" by blast
  from write_buffer_and_send_spec [OF assms(2) w(1)] obtain d x where
    f: "gs_cap dst' = gs_cap dst" "forwards s (dst', None) s' d x" by auto
  have "p @ rest = d @ stream (inbox s')" "mysql_packet d" using f(2) assms(3) by (auto simp: forwards_def)
  then have "d = p" using mysql_packet_unique [OF assms(4)] by metis
  then show ?thesis using w f assms(3) by (auto simp: forwards_def)
qed

lemma forward_quiet_end:
  assumes "quiet s" and "max_packet_size \<le> gs_cap dst" and "stream (inbox s) = []"
  shows "\<exists>dst' s'. write_buffer_and_send slack dst s = (Returns (dst', Some EOF), s') \<and> quiet s' \<and>
    gs_cap dst' = gs_cap dst \<and> gs_len dst' = 0 \<and> stream (inbox s') = [] \<and> outbox s' = outbox s"
proof -
  have room: "4 \<le> gs_cap dst" using assms(2) by (simp add: max_packet_size_def)
  obtain got n e s1 where rd: "read_full_mysql_packet 4 [] s = ((got, n, e), s1)" by (metis prod.collapse)
  with read_full_quiet [OF assms(1) rd] assms(3) read_full_stream [OF rd] show ?thesis
    using room by (simp add: write_buffer_and_send_def resize_slice_fits Let_def gs_cap_store)
qed

section \<open>Undisturbed sessions\<close>

text \<open>A log that takes every record it is sent by a session that has not been cancelled.\<close>

locale reliable_log = log_writer_contract +
  assumes push_accepted: "inv l \<Longrightarrow> pool_record sp \<Longrightarrow> \<exists>l'. lw_push lw False sp l = Returns (None, l')"
begin

lemma push_quiet:
  assumes "inv l" and "pool_record sp" and "quiet s"
  shows "\<exists>l'. push_to_log lw sp s l = Returns (None, s, l') \<and> inv l' \<and> logged l' = logged l @ [record_view sp]"
proof -
  from push_accepted [OF assms(1,2)] obtain l' where l': "lw_push lw False sp l = Returns (None, l')" by blast
  with push_record [OF assms(1,2), of False] quiet_polled [OF assms(3)] quiet_not_done [OF assms(3)]
  show ?thesis by (simp add: push_to_log_def)
qed

lemma send_state_quiet:
  assumes "inv l" and "quiet s"
  shows "\<exists>l' c. send_state lw st state s l = Returns (None, s, l') \<and> inv l' \<and> logged l' = logged l @ [c] \<and>
    session_record st state c \<and> sp_Packets c = []"
proof -
  obtain sp l1 where n: "new_send_packet lw st s l = (sp, l1)" by (metis prod.collapse)
  let ?sp = "sp\<lparr>sp_State := state, sp_Packets := (sp_Packets sp)\<lparr>gs_len := 0\<rparr>\<rparr>"
  from new_send_packet_spec [OF assms(1) n]
  have sp: "inv l1" "logged l1 = logged l" "pool_record ?sp"
    "session_record st state (record_view ?sp)" "sp_Packets (record_view ?sp) = []"
    by (auto simp: filling_def pool_record_def session_record_def record_view_def gs_bytes_def)
  from push_quiet [OF sp(1,3) assms(2)] n sp(2,4,5) show ?thesis by (auto simp: send_state_def)
qed

lemma loop_quiet:
  assumes "inv l" and "filling st cur" and "quiet s" and "stream (inbox s) = concat ps" and "list_all mysql_packet ps"
  shows "\<exists>cur' s' l' rs. worker_loop slack lw st cur s l = Returns (EOF, cur', s', l') \<and> inv l' \<and> quiet s' \<and>
    (\<forall>sp. cur' = Some sp \<longrightarrow> pool_record sp) \<and> logged l' = logged l @ rs \<and> list_all (est_record st) rs \<and>
    map sp_Packets rs = ps \<and> stream (inbox s') = [] \<and> outbox s' = outbox s @ concat ps"
  using assms
proof (induction ps arbitrary: cur s l)
  case Nil
  from current_record [OF Nil.prems(1,2), of s] obtain sp l0 where
    sp: "(case cur of None \<Rightarrow> new_send_packet lw st s l | Some sp \<Rightarrow> (sp, l)) = (sp, l0)"
    and l0: "inv l0" "logged l0 = logged l" "filling st (Some sp)" and room: "max_packet_size \<le> gs_cap (sp_Packets sp)"
    by blast
  from forward_quiet_end [OF Nil.prems(3) room, of slack] Nil.prems(4) obtain dst s' where
    w: "write_buffer_and_send slack (sp_Packets sp) s = (Returns (dst, Some EOF), s')" "quiet s'"
      "gs_cap dst = gs_cap (sp_Packets sp)" "gs_len dst = 0" "stream (inbox s') = []" "outbox s' = outbox s" by auto
  have "worker_loop slack lw st cur s l = Returns (EOF, Some (sp\<lparr>sp_Packets := dst\<rparr>), s', l0)"
    using sp w quiet_polled [OF Nil.prems(3)] quiet_not_done [OF Nil.prems(3)]
    by (simp add: worker_loop.simps [of _ _ _ _ s] Let_def)
  then show ?case
    using l0 w by (intro exI [of _ "Some (sp\<lparr>sp_Packets := dst\<rparr>)"] exI [of _ s'] exI [of _ l0] exI [of _ "[]"])
      (auto simp: filling_def pool_record_def)
next
  case (Cons p ps)
  from current_record [OF Cons.prems(1,2), of s] obtain sp l0 where
    sp: "(case cur of None \<Rightarrow> new_send_packet lw st s l | Some sp \<Rightarrow> (sp, l)) = (sp, l0)"
    and l0: "inv l0" "logged l0 = logged l" "filling st (Some sp)" and room: "max_packet_size \<le> gs_cap (sp_Packets sp)"
    by blast
  have pk: "stream (inbox s) = p @ concat ps" "mysql_packet p" using Cons.prems(4,5) by simp_all
  from forward_quiet_packet [OF Cons.prems(3) room pk, of slack] obtain dst s1 where
    w: "write_buffer_and_send slack (sp_Packets sp) s = (Returns (dst, None), s1)" "quiet s1"
      "gs_cap dst = gs_cap (sp_Packets sp)" "gs_bytes dst = p" "stream (inbox s1) = concat ps" "outbox s1 = outbox s @ p"
    by blast
  let ?sp1 = "sp\<lparr>sp_Packets := dst\<rparr>"
  have pr: "pool_record ?sp1" "est_record st (record_view ?sp1)" "sp_Packets (record_view ?sp1) = p"
    using l0(3) w(3,4) pk(2) by (auto simp: filling_def pool_record_def est_record_def session_record_def record_view_def)
  have ne: "0 < gs_len dst" using w(4) pk(2) by (auto simp: mysql_packet_def gs_bytes_def)
  from push_quiet [OF l0(1) pr(1) w(2)] obtain l1 where
    l1: "push_to_log lw ?sp1 s1 l0 = Returns (None, s1, l1)" "inv l1" "logged l1 = logged l0 @ [record_view ?sp1]" by blast
  have go: "worker_loop slack lw st cur s l = worker_loop slack lw st None s1 l1"
    using sp w(1) l1(1) ne quiet_polled [OF Cons.prems(3)] quiet_not_done [OF Cons.prems(3)]
    by (simp add: worker_loop.simps [of _ _ _ _ s])
  have "filling st None" "list_all mysql_packet ps" using Cons.prems(5) by (simp_all add: filling_def)
  from Cons.IH [OF l1(2) this(1) w(2,5) this(2)] obtain cur' s' l' rs where
    r: "worker_loop slack lw st None s1 l1 = Returns (EOF, cur', s', l')" "inv l'" "quiet s'"
      "\<forall>sp. cur' = Some sp \<longrightarrow> pool_record sp" "logged l' = logged l1 @ rs" "list_all (est_record st) rs"
      "map sp_Packets rs = ps" "stream (inbox s') = []" "outbox s' = outbox s1 @ concat ps" by blast
  show ?case
    using go r w(6) l1(3) l0(2) pr(2,3) by (intro exI [of _ cur'] exI [of _ s'] exI [of _ l'] exI [of _ "record_view ?sp1 # rs"]) auto
qed

lemma worker_quiet:
  assumes "inv l" and "quiet s" and "stream (inbox s) = concat ps" and "list_all mysql_packet ps"
  shows "\<exists>s' l' c rs d. worker slack lw st s l = Returns (EOF, s', l') \<and> inv l' \<and>
    logged l' = logged l @ [c] @ rs @ [d] \<and> session_record st ''connect'' c \<and> sp_Packets c = [] \<and>
    list_all (est_record st) rs \<and> map sp_Packets rs = ps \<and> session_record st ''disconnect'' d \<and> sp_Packets d = [] \<and>
    stream (inbox s') = [] \<and> outbox s' = outbox s @ concat ps"
proof -
  from send_state_quiet [OF assms(1,2)] obtain l1 c where
    c: "send_state lw st ''connect'' s l = Returns (None, s, l1)" "inv l1" "logged l1 = logged l @ [c]"
      "session_record st ''connect'' c" "sp_Packets c = []" by blast
  have "filling st None" by (simp add: filling_def)
  from loop_quiet [OF c(2) this assms(2-4)] obtain cur s2 l2 rs where
    r: "worker_loop slack lw st None s l1 = Returns (EOF, cur, s2, l2)" "inv l2" "quiet s2"
      "\<forall>sp. cur = Some sp \<longrightarrow> pool_record sp" "logged l2 = logged l1 @ rs" "list_all (est_record st) rs"
      "map sp_Packets rs = ps" "stream (inbox s2) = []" "outbox s2 = outbox s @ concat ps" by blast
  define l3 where "l3 = (case cur of None \<Rightarrow> l2 | Some sp \<Rightarrow> lw_put lw sp l2)"
  have l3: "inv l3" "logged l3 = logged l2" using r(2,4) put_record by (auto simp: l3_def split: option.splits)
  from send_state_quiet [OF l3(1) r(3)] obtain l4 d where
    d: "send_state lw st ''disconnect'' s2 l3 = Returns (None, s2, l4)" "inv l4" "logged l4 = logged l3 @ [d]"
      "session_record st ''disconnect'' d" "sp_Packets d = []" by blast
  have "worker slack lw st s l = Returns (EOF, s2, l4)" using c(1) r(1) d(1) by (simp add: worker_def l3_def)
  then show ?thesis
    using c r d l3 by (intro exI [of _ s2] exI [of _ l4] exI [of _ c] exI [of _ rs] exI [of _ d]) simp
qed

end

text \<open>The log writer is such a log while no select has to choose a cancellation.\<close>

definition steady :: "audit_log \<Rightarrow> bool" where
  "steady a \<longleftrightarrow> log_inv a \<and> al_picks a = []"

lemma steady_push:
  assumes "steady a" and "pool_record sp"
  shows "\<exists>a'. push_to_log_channel False sp a = Returns (None, a') \<and> al_picks a' = []"
proof (cases "al_cap a \<le> length (queued a)")
  case True
  with assms(1) obtain s0 q where q: "queued a = s0 # q" by (cases "queued a") (auto simp: steady_def log_inv_def)
  let ?a = "a\<lparr>al_picks := []\<rparr>"
  have "queued ?a = s0 # q" "al_gzip ?a \<noteq> None" using q assms(1) by (simp_all add: steady_def log_inv_def)
  from receive_frame [OF this] obtain e a2 where "receive_and_write Receive ?a = Returns (e, a2)" "al_picks a2 = []" by auto
  with True assms(1) show ?thesis by (simp add: steady_def log_inv_def push_to_log_channel_def Let_def)
next
  case False
  with assms(1) show ?thesis by (simp add: steady_def log_inv_def push_to_log_channel_def Let_def)
qed

lemma push_picks: "push_to_log_channel d sp a = Returns (e, a') \<Longrightarrow> al_picks a = [] \<Longrightarrow> log_inv a \<Longrightarrow> al_picks a' = []"
  using receive_frame [of "a\<lparr>al_picks := []\<rparr>"]
  by (cases "queued a") (auto simp: push_to_log_channel_def Let_def bind_outcome_Returns_iff log_inv_def split: if_splits)

interpretation steady: reliable_log audit_log_writer steady sent_records
proof
  fix a :: audit_log and sp a'
  assume a: "steady a" and g: "lw_get audit_log_writer a = (sp, a')"
  have "al_picks a' = []"
    using a g by (cases "al_pool a") (auto simp: steady_def audit_log_writer_def get_send_packet_def)
  with audit.get_record [OF _ g] a show "steady a' \<and> sent_records a' = sent_records a \<and> pool_record sp"
    by (simp add: steady_def)
next
  fix a :: audit_log and sp
  assume a: "steady a" and sp: "pool_record sp"
  with audit.put_record [of a sp] show "steady (lw_put audit_log_writer sp a) \<and>
      sent_records (lw_put audit_log_writer sp a) = sent_records a"
    by (simp add: steady_def) (simp add: audit_log_writer_def put_send_packet_def)
next
  fix a :: audit_log and sp d
  assume a: "steady a" and sp: "pool_record sp"
  from audit.push_record [OF _ sp, of a d] a obtain e l' where
    r: "lw_push audit_log_writer d sp a = Returns (e, l')" "log_inv l'"
      "case e of None \<Rightarrow> sent_records l' = sent_records a @ [record_view sp] | Some x \<Rightarrow> sent_records l' = sent_records a \<and> x = Canceled"
    by (auto simp: steady_def)
  have "al_picks l' = []" using push_picks [of d sp a e l'] r(1) a by (simp add: audit_log_writer_def steady_def)
  with r show "\<exists>e l'. lw_push audit_log_writer d sp a = Returns (e, l') \<and> steady l' \<and>
      (case e of None \<Rightarrow> sent_records l' = sent_records a @ [record_view sp]
       | Some x \<Rightarrow> sent_records l' = sent_records a \<and> x = Canceled)" by (auto simp: steady_def)
next
  fix a :: audit_log and sp
  assume "steady a" and "pool_record sp"
  from steady_push [OF this] show "\<exists>l'. lw_push audit_log_writer False sp a = Returns (None, l')"
    by (auto simp: audit_log_writer_def)
qed

section \<open>Undisturbed copies\<close>

text \<open>The other direction: a target that ends its stream, or only keeps silent, and a client that reads.\<close>

definition calm :: "net \<Rightarrow> bool" where
  "calm s \<longleftrightarrow> pctx s = None \<and> cctx s = None \<and> out_room s = None \<and>
     (\<forall>c \<in> set (inbox s). c_err c = None \<or> c_err c = Some NetTimeout \<or> c_err c = Some EOF)"

lemma calm_read:
  assumes "calm s" and "timeout_read k s = ((b, e), s1)"
  shows "calm s1 \<and> (e = None \<or> e = Some NetTimeout \<or> e = Some EOF)"
  using assms
  by (auto simp: timeout_read_def calm_def polled_def child_done_def split: if_splits list.splits chunk.splits; force)

lemma calm_write:
  "calm w \<Longrightarrow> timeout_write w b = (w\<lparr>outbox := outbox w @ b\<rparr>, length b, None)"
  by (simp add: timeout_write_def conn_write_def calm_def polled_def child_done_def)

lemma write_to_calm:
  assumes "wr = timeout_write" and "calm s" and "calm w" and "write_to wr tot s w = ((n, e), s', w')"
  shows "e = None"
  using assms
proof (induction wr tot s w rule: write_to.induct)
  case (1 wr tot s w)
  obtain b x s1 where rd: "timeout_read 1024 s = ((b, x), s1)" by (metis prod.collapse)
  note r = calm_read [OF "1.prems"(2) rd]
  have wr: "wr w b = (w\<lparr>outbox := outbox w @ b\<rparr>, length b, None)" using "1.prems"(1,3) calm_write by simp
  have cw: "calm (w\<lparr>outbox := outbox w @ b\<rparr>)" using "1.prems"(3) by (simp add: calm_def)
  show ?case
  proof (cases x)
    case None
    with "1.prems"(4) rd wr have "write_to wr (tot + word_of_nat (length b)) s1 (w\<lparr>outbox := outbox w @ b\<rparr>) = ((n, e), s', w')"
      by (simp add: write_to.simps [of _ _ s])
    from "1.IH"(1) [OF rd [symmetric] refl None wr [symmetric] refl refl "1.prems"(1) _ cw this] r show ?thesis by blast
  next
    case (Some y)
    show ?thesis
    proof (cases "y = EOF")
      case True
      with "1.prems"(4) rd Some show ?thesis by (simp add: write_to.simps [of _ _ s])
    next
      case False
      with r Some have y: "y = NetTimeout" by simp
      with "1.prems"(4) rd Some have "write_to wr tot s1 w = ((n, e), s', w')" by (simp add: write_to.simps [of _ _ s])
      from "1.IH"(2) [OF rd [symmetric] refl Some False y "1.prems"(1) _ "1.prems"(3) this] r show ?thesis by blast
    qed
  qed
qed

context reliable_log
begin

lemma proxy_quiet:
  assumes "cs_TargetMysql c = Some t" and "inv l" and "quiet up" and "stream (inbox up) = concat ps"
    and "list_all mysql_packet ps" and "calm down" and "clean (inbox down)" and "calm client"
  shows "\<exists>up' down' client' l' r rs q. proxy mc slack lw remote conn_id c up down client l =
      Returns (case mc_close mc t of Some e \<Rightarrow> [TargetCloseErr e] | None \<Rightarrow> [], up', down', client', l') \<and> inv l' \<and>
    logged l' = logged l @ [r] @ rs @ [q] \<and>
    session_record (proxy_task remote conn_id c) ''connect'' r \<and> sp_Packets r = [] \<and>
    list_all (est_record (proxy_task remote conn_id c)) rs \<and> map sp_Packets rs = ps \<and>
    session_record (proxy_task remote conn_id c) ''disconnect'' q \<and> sp_Packets q = [] \<and>
    stream (inbox up') = [] \<and> outbox up' = outbox up @ concat ps \<and>
    outbox client' = outbox client @ until_eof (inbox down)"
proof -
  obtain n e down' client' where w: "write_to timeout_write 0 down client = ((n, e), down', client')"
    by (metis prod.collapse)
  have e: "e = None" by (rule write_to_calm [OF refl assms(6,8) w])
  with write_to_delivers_prefix [OF timeout_writer.byte_sink_axioms assms(7) w]
  have client: "outbox client' = outbox client @ until_eof (inbox down)" by auto
  from worker_quiet [OF assms(2-5), of slack "proxy_task remote conn_id c"] obtain up' l' r rs q where
    x: "worker slack lw (proxy_task remote conn_id c) up l = Returns (EOF, up', l')" "inv l'"
      "logged l' = logged l @ [r] @ rs @ [q]" "session_record (proxy_task remote conn_id c) ''connect'' r" "sp_Packets r = []"
      "list_all (est_record (proxy_task remote conn_id c)) rs" "map sp_Packets rs = ps"
      "session_record (proxy_task remote conn_id c) ''disconnect'' q" "sp_Packets q = []"
      "stream (inbox up') = []" "outbox up' = outbox up @ concat ps"
    by (elim exE conjE) blast
  have "proxy mc slack lw remote conn_id c up down client l =
      Returns (case mc_close mc t of Some e \<Rightarrow> [TargetCloseErr e] | None \<Rightarrow> [], up', down', client', l')"
    using assms(1) w e x(1) by (simp add: proxy_def)
  with x(2-) client show ?thesis by blast
qed

end

section \<open>Undisturbed sessions of the proxy\<close>



end
