(* ===== verification/Delivered.thy ===== *)
theory Delivered
  imports Undisturbed EndToEnd
begin

text \<open>
  The way of an undisturbed session from the client's packets to the decoder's output: the log
  writer that accepts every record and the log writer whose file is tracked are the same.
\<close>

definition delivering :: "string \<Rightarrow> logs \<Rightarrow> audit_log \<Rightarrow> bool" where
  "delivering p L a \<longleftrightarrow> steady a \<and> tracked p L a"

lemma deliveringD: "delivering p L a \<Longrightarrow> log_inv a \<and> tracked p L a"
  by (simp add: delivering_def steady_def)

lemma deliveringI: "log_inv a \<and> tracked p L a \<Longrightarrow> steady a \<Longrightarrow> delivering p L a"
  by (simp add: delivering_def)

interpretation delivering: reliable_log audit_log_writer "delivering p L" sent_records for p L
proof
  fix a :: audit_log and sp a'
  assume a: "delivering p L a" and g: "lw_get audit_log_writer a = (sp, a')"
  from disk.get_record [OF deliveringD [OF a] g] steady.get_record [OF _ g] a
  show "delivering p L a' \<and> sent_records a' = sent_records a \<and> pool_record sp" by (auto simp: delivering_def)
next
  fix a :: audit_log and sp
  assume a: "delivering p L a" and sp: "pool_record sp"
  from disk.put_record [OF deliveringD [OF a] sp] steady.put_record [OF _ sp, of a] a
  show "delivering p L (lw_put audit_log_writer sp a) \<and> sent_records (lw_put audit_log_writer sp a) = sent_records a"
    by (auto simp: delivering_def)
next
  fix a :: audit_log and sp d
  assume a: "delivering p L a" and sp: "pool_record sp"
  from disk.push_record [OF deliveringD [OF a] sp, of d] steady.push_record [OF _ sp, of a d] a
  show "\<exists>e l'. lw_push audit_log_writer d sp a = Returns (e, l') \<and> delivering p L l' \<and>
      (case e of None \<Rightarrow> sent_records l' = sent_records a @ [record_view sp]
       | Some x \<Rightarrow> sent_records l' = sent_records a \<and> x = Canceled)"
    by (auto simp: delivering_def)
next
  fix a :: audit_log and sp
  assume a: "delivering p L a" and sp: "pool_record sp"
  from disk.push_record [OF deliveringD [OF a] sp, of False] steady.push_accepted [OF _ sp, of a] a
  show "\<exists>l'. lw_push audit_log_writer False sp a = Returns (None, l')" by (auto simp: delivering_def)
qed

lemma main_startup_delivering:
  assumes "main_startup u = Runs cfg m a" and "healthy (su_disk u)" and "stores (k_files (su_disk u)) L" and "su_picks u = []"
  shows "delivering (time2Path (pc_LogFileName cfg) (su_now u)) L a \<and> sent_records a = []"
proof -
  note n = main_startup_runs(1) [OF assms(1)]
  from n assms(4) have "al_picks a = []"
    by (auto simp: new_audit_log_def create_file_def Let_def split: prod.splits option.splits if_splits)
  with new_audit_log_tracked [OF n assms(2,3)] show ?thesis
    by (simp add: delivering_def steady_def queue_capacity_def)
qed

text \<open>C2: what the client sends is what the decoder prints.  The proxy has started on a disk without errors and
  an undisturbed session runs: the target has received exactly the client's packets and the client exactly
  what the target sent.  When the channel is then closed and the worker takes what it holds, the
  worker ends without an error, and the decoder prints what the file held before, one connect
  record, one record for each packet of the client, in order and with its bytes, and one disconnect record,
  and nothing else.\<close>

theorem undisturbed_session_is_printed:
  assumes "main_startup u = Runs cfg m a" and "healthy (su_disk u)" and "stores (k_files (su_disk u)) L" and "su_picks u = []"
    and "cs_TargetMysql c = Some t" and "quiet up" and "stream (inbox up) = concat ps"
    and "list_all mysql_packet ps" and "calm down" and "clean (inbox down)" and "calm client"
    and "length (cs_TargetUser c) < 2 ^ 32" and "length (cs_TargetDB c) < 2 ^ 32" and "length remote < 2 ^ 32"
  shows "\<exists>up' down' client' a' a'' r rs q. proxy mc slack audit_log_writer remote conn_id c up down client a =
      Returns (case mc_close mc t of Some e \<Rightarrow> [TargetCloseErr e] | None \<Rightarrow> [], up', down', client', a') \<and>
    outbox up' = outbox up @ concat ps \<and> outbox client' = outbox client @ until_eof (inbox down) \<and>
    session_record (proxy_task remote conn_id c) ''connect'' r \<and>
    list_all (est_record (proxy_task remote conn_id c)) rs \<and> map sp_Packets rs = ps \<and>
    session_record (proxy_task remote conn_id c) ''disconnect'' q \<and>
    log_write_worker (drain a') a' = Returns (Some None, a'') \<and>
    (\<forall>out. list_all2 (\<lambda>r q. format_packet com r = Returns q)
        (records_of L (time2Path (pc_LogFileName cfg) (su_now u)) @ [r] @ rs @ [q]) out \<longrightarrow>
      file_print com marshal (k_files (al_disk a'')) (time2Path (pc_LogFileName cfg) (su_now u)) =
        (concat (map (fmt_json marshal) out), Returns None))"
proof -
  let ?p = "time2Path (pc_LogFileName cfg) (su_now u)" and ?st = "proxy_task remote conn_id c"
  from main_startup_delivering [OF assms(1-4)] have i: "delivering ?p L a" "sent_records a = []" by simp_all
  from delivering.proxy_quiet [OF assms(5) i(1) assms(6-11), of mc slack remote conn_id] i(2) obtain up' down' client' a' r rs q where
    x: "proxy mc slack audit_log_writer remote conn_id c up down client a =
        Returns (case mc_close mc t of Some e \<Rightarrow> [TargetCloseErr e] | None \<Rightarrow> [], up', down', client', a')" "delivering ?p L a'"
      "sent_records a' = [r] @ rs @ [q]"
    and rec: "session_record ?st ''connect'' r" "sp_Packets r = []" "list_all (est_record ?st) rs" "map sp_Packets rs = ps"
      "session_record ?st ''disconnect'' q" "sp_Packets q = []"
    and io: "outbox up' = outbox up @ concat ps" "outbox client' = outbox client @ until_eof (inbox down)"
    by (elim exE conjE) simp
  have "list_all encodable (sent_records a')" unfolding x(3)
    by (rule session_records_encodable [of _ ?st]) (use rec assms(12-14) in \<open>auto simp: proxy_task_def\<close>)
  from drain_files [OF _ _ this] deliveringD [OF x(2)] obtain a'' M where
    f: "log_write_worker (drain a') a' = Returns (Some None, a'')" "stores (k_files (al_disk a'')) M"
      "records_of M ?p = records_of L ?p @ [r] @ rs @ [q]" unfolding x(3) by blast
  have "file_print com marshal (k_files (al_disk a'')) ?p = (concat (map (fmt_json marshal) out), Returns None)"
    if "list_all2 (\<lambda>r q. format_packet com r = Returns q) (records_of L ?p @ [r] @ rs @ [q]) out" for out
    by (rule stored_file_print [OF f(2)]) (use that f(3) in auto)
  with x(1) rec io f(1) show ?thesis by (intro exI conjI) (assumption | blast)+
qed

theorem undisturbed_session_is_printed_witness:
  "\<exists>m a up' down' client' a' a'' (rs :: bytes send_packet list). main_startup example_surroundings = Runs example_cfg m a \<and>
    proxy example_client (\<lambda>_ _. 0) audit_log_writer ''10.0.0.1:5000'' 9 example_sess
      query_net example_net example_net a = Returns ([], up', down', client', a') \<and>
    log_write_worker (drain a') a' = Returns (Some None, a'') \<and> map sp_Packets rs = [query_packet] \<and>
    outbox up' = query_packet \<and> outbox client' = [1, 2, 3]"
proof -
  obtain m a where a: "main_startup example_surroundings = Runs example_cfg m a" using example_starts by blast
  have s: "healthy (su_disk example_surroundings)" "stores (k_files (su_disk example_surroundings)) Map.empty"
    "su_picks example_surroundings = []"
    by (simp_all add: example_surroundings_def healthy_blank stores_blank)
  have "mysql_packet query_packet" by (simp add: mysql_packet_def query_packet_def payload_length_eq)
  then have h: "cs_TargetMysql example_sess = Some 0" "quiet query_net"
    "stream (inbox query_net) = concat [query_packet]" "list_all mysql_packet [query_packet]"
    "calm example_net" "clean (inbox example_net)" "calm example_net"
    by (simp_all add: example_sess_def quiet_def query_net_def calm_def example_net_def)
  have l: "length (cs_TargetUser example_sess) < 2 ^ 32" "length (cs_TargetDB example_sess) < 2 ^ 32"
    "length ''10.0.0.1:5000'' < (2::nat) ^ 32" by (simp_all add: example_sess_def)
  have v: "outbox query_net @ concat [query_packet] = query_packet"
    "outbox example_net @ until_eof (inbox example_net) = [1, 2, 3]" "mc_close example_client 0 = None"
    by (simp_all add: query_net_def example_net_def example_client_def)
  from undisturbed_session_is_printed [OF a s h l, of example_client "\<lambda>_ _. 0" 9 mysql_com "\<lambda>p. Inr []"]
  obtain up' down' client' a' a'' r q and rs :: "bytes send_packet list" where
    "proxy example_client (\<lambda>_ _. 0) audit_log_writer ''10.0.0.1:5000'' 9 example_sess query_net example_net example_net a =
      Returns (case mc_close example_client 0 of Some e \<Rightarrow> [TargetCloseErr e] | None \<Rightarrow> [], up', down', client', a')"
    "outbox up' = outbox query_net @ concat [query_packet]" "outbox client' = outbox example_net @ until_eof (inbox example_net)"
    "map sp_Packets rs = [query_packet]" "log_write_worker (drain a') a' = Returns (Some None, a'')"
    by (elim exE conjE) (rule that; assumption)
  with a show ?thesis unfolding v option.case by - (intro exI conjI; assumption)
qed

end
