(* ===== verification/Restart.thy ===== *)
theory Restart
  imports AuditLog
begin

text \<open>
  Starting on a log file that exists and is empty.  \<open>createFile\<close> writes the version header only into a
  file it has created itself; an existing file is appended to as it is.
\<close>

section \<open>Files without a header\<close>

text \<open>A time before the year two billion: the last byte of the stored number is not the one of the header.\<close>

definition early :: "bytes send_packet \<Rightarrow> bool" where
  "early r \<longleftrightarrow> unat (sp_Datetime r) < 2 ^ 56"

definition headerless :: "bytes list \<Rightarrow> bool" where
  "headerless ms \<longleftrightarrow> (\<exists>rs. list_all early rs \<and> concat ms = concat (map packet_bytes rs))"

lemma check_format_prefix:
  assumes "check_format gz_read bs = (Inr v, gr)"
  shows "prefix (bytes_of_string v) (concat bs)"
  using assms
  by (cases bs) (auto simp: check_format_def Let_def take_is_prefix split: if_splits)

lemma early_last_byte: "early r \<Longrightarrow> put_int64 (sp_Datetime r) ! 7 = 0"
proof -
  assume "early r"
  then have "sp_Datetime r < 72057594037927936" by (simp add: early_def word_less_nat_alt)
  then have "drop_bit 56 (sp_Datetime r) = 0" by (simp add: drop_bit_eq_div div_word_less)
  then show ?thesis by (simp add: eval_nat_numeral)
qed

lemma headerless_refused:
  assumes "fs p = Some ms" and "headerless (ms @ ms')"
  shows "\<exists>e. new_file_reader fs p = Inl e"
proof (rule ccontr)
  assume "\<nexists>e. new_file_reader fs p = Inl e"
  then obtain d where "new_file_reader fs p = Inr d" by (cases "new_file_reader fs p") auto
  then obtain gr where "check_format gz_read (gz_blocks ms) = (Inr fmtVersion, gr)"
    using assms(1) by (auto simp: new_file_reader_def split: if_splits prod.splits sum.splits)
  from check_format_prefix [OF this] have "prefix header (concat ms)" by (simp add: concat_gz_blocks header_def)
  then have h: "prefix header (concat (ms @ ms'))" by (auto simp: prefix_def)
  from assms(2) obtain rs where rs: "list_all early rs" "concat (ms @ ms') = concat (map packet_bytes rs)"
    by (auto simp: headerless_def)
  have "rs \<noteq> []"
  proof
    assume "rs = []"
    with rs(2) have "concat (ms @ ms') = []" by (simp del: concat_append concat_eq_Nil_conv)
    with h have "header = []" by (simp only: prefix_Nil)
    with length_header show False by simp
  qed
  then obtain r rs' where r: "rs = r # rs'" by (cases rs) auto
  with h rs(2) obtain xs where "header @ xs = put_int64 (sp_Datetime r) @ put_uint32 (sp_ConnectionID r) @
      concat (map lp_bytes (packet_strings r)) @ concat (map packet_bytes rs')"
    by (auto simp: packet_bytes_def elim!: prefixE)
  moreover have "length (put_int64 (sp_Datetime r)) = 8" by (simp add: eval_nat_numeral)
  ultimately have "header ! 7 = put_int64 (sp_Datetime r) ! 7" using length_header by (metis (no_types) nth_append numeral_less_iff
      semiring_norm(76) semiring_norm(77) semiring_norm(78) semiring_norm(80) semiring_norm(81))
  then have "header ! 7 = 0" using early_last_byte rs(1) r by simp
  moreover have "header ! 7 = 116" by code_simp
  ultimately show False by simp
qed

section \<open>A worker on such a file\<close>

text \<open>What the file would hold if the member that is being written were closed now.\<close>

definition open_members :: "string \<Rightarrow> audit_log \<Rightarrow> bytes list" where
  "open_members p a = (case al_gzip a of Some z \<Rightarrow> if z_file z = p then [z_data z] else [] | None \<Rightarrow> [])"

definition damaged :: "string \<Rightarrow> audit_log \<Rightarrow> bool" where
  "damaged p a \<longleftrightarrow> healthy (al_disk a) \<and> (\<forall>z. al_gzip a = Some z \<longrightarrow> z_err z = None) \<and>
     list_all (early \<circ> record_view) (queued a) \<and> al_recv a \<le> length (al_sent a) \<and>
     (\<exists>ms. k_files (al_disk a) p = Some ms \<and> headerless (ms @ open_members p a))"

lemma damaged_close:
  assumes "damaged p a" and "close_file a = (e, a')"
  shows "damaged p a' \<and> e = None \<and> open_members p a' = []"
  using assms
  by (auto simp: damaged_def close_file_def close_os_file_def gz_close_def healthy_def open_members_def
      add_member_def queued_def split: option.splits)

lemma damaged_create:
  assumes "damaged p a" and "open_members p a = []" and "create_file t a = (e, a')"
  shows "damaged p a'"
proof -
  obtain ms where ms: "k_files (al_disk a) p = Some ms" "headerless ms"
    using assms(1,2) by (auto simp: damaged_def)
  then have "headerless (ms @ [[]])" by (simp add: headerless_def)
  with assms(1,3) ms show ?thesis
    by (auto simp: damaged_def create_file_def open_file_def gz_write_healthy gz_new_def healthy_def open_members_def queued_def
        Let_def split: option.splits if_splits)
qed

lemma damaged_receive:
  assumes "damaged p a" and "queued a = sp # q" and "receive_and_write Receive a = Returns (e, a')"
  shows "damaged p a' \<and> e = None"
proof -
  from assms(2,3) obtain z where z: "al_gzip a = Some z"
    by (cases "al_gzip a") (auto simp: receive_and_write_def write_data_to_file_def)
  have h: "z_err z = None" "k_room (al_disk a) = None" using assms(1) z by (simp_all add: damaged_def healthy_def)
  let ?z = "z\<lparr>z_data := z_data z @ packet_bytes (record_view sp)\<rparr>"
  have a': "a' = a\<lparr>al_recv := Suc (al_recv a), al_gzip := Some ?z, al_pool := sp # al_pool a\<rparr>" "e = None"
    using assms(2,3) z encode_packet_healthy [OF h]
    by (auto simp: receive_and_write_def write_data_to_file_def put_send_packet_def)
  obtain ms where ms: "k_files (al_disk a) p = Some ms" "headerless (ms @ open_members p a)"
    using assms(1) by (auto simp: damaged_def)
  have e: "early (record_view sp)" "list_all (early \<circ> record_view) q" using assms(1,2) by (simp_all add: damaged_def)
  from ms(2) obtain rs where rs: "list_all early rs" "concat (ms @ open_members p a) = concat (map packet_bytes rs)"
    by (auto simp: headerless_def)
  have "headerless (ms @ open_members p a')"
  proof (cases "z_file z = p")
    case True
    with rs e(1) z show ?thesis
      unfolding headerless_def by (intro exI [of _ "rs @ [record_view sp]"]) (simp add: a'(1) open_members_def)
  next
    case False
    with ms(2) z show ?thesis by (simp add: a'(1) open_members_def)
  qed
  moreover have "queued a' = q" using queued_recv [OF assms(2)] by (simp add: a'(1) queued_def)
  ultimately show ?thesis
    using assms(1) ms(1) e(2) h(1) queued_ConsD [OF assms(2)] by (simp add: damaged_def a')
qed

lemma damaged_turn:
  assumes "damaged p a" and "receive_and_write w a = Returns (e, a')"
  shows "damaged p a'"
proof (cases w)
  case Done
  with assms show ?thesis by (simp add: receive_and_write_def)
next
  case (Tick t)
  obtain e1 a1 where c: "close_file a = (e1, a1)" by (metis prod.collapse)
  from damaged_close [OF assms(1) c] damaged_create [of p a1 t e a'] assms(2) Tick c show ?thesis
    by (auto simp: receive_and_write_def)
next
  case Receive
  show ?thesis
  proof (cases "queued a")
    case Nil
    obtain e1 a1 where c: "close_file a = (e1, a1)" by (metis prod.collapse)
    from damaged_close [OF assms(1) c] assms(2) Receive Nil c show ?thesis by (auto simp: receive_and_write_def)
  next
    case (Cons sp q)
    from damaged_receive [OF assms(1) this] assms(2) Receive show ?thesis by blast
  qed
qed

fun early_events :: "log_event list \<Rightarrow> bool" where
  "early_events [] \<longleftrightarrow> True"
| "early_events (Pushed sp # es) \<longleftrightarrow> early (record_view sp) \<and> early_events es"
| "early_events (ev # es) \<longleftrightarrow> early_events es"

lemma damaged_run:
  assumes "damaged p a" and "early_events es" and "log_write_worker es a = Returns (r, a')"
  shows "damaged p a'"
  using assms
proof (induction es arbitrary: a)
  case (Cons ev es)
  note dm = Cons.prems(1) and ev = Cons.prems(2) and run = Cons.prems(3)
  show ?case
  proof (cases ev)
    case (Pushed sp)
    have "damaged p (a\<lparr>al_sent := al_sent a @ [sp]\<rparr>)"
      using dm ev Pushed queued_send by (auto simp: damaged_def open_members_def)
    with Cons.IH [OF this] ev run Pushed show ?thesis by (auto split: if_splits)
  next
    case Closed
    have "damaged p (a\<lparr>al_closed := True\<rparr>)" using dm by (simp add: damaged_def open_members_def)
    with Cons.IH [OF this] ev run Closed show ?thesis by (auto simp: close_channel_def split: if_splits)
  next
    case (Turn w)
    consider (stop) "w = Done" | (wait) "w \<noteq> Done" "\<not> turn_ready w a" | (go) "w \<noteq> Done" "turn_ready w a" by blast
    then show ?thesis
    proof cases
      case stop
      with run Turn damaged_close [OF dm] show ?thesis by (auto split: prod.splits)
    next
      case wait
      with Cons.IH [OF dm] ev run Turn show ?thesis by simp
    next
      case go
      with run Turn obtain e a1 where w: "receive_and_write w a = Returns (e, a1)"
        and rest: "if e = Some EOF then \<exists>e'. close_file a1 = (e', a') \<and> r = Some None else log_write_worker es a1 = Returns (r, a')"
        by (auto simp: bind_outcome_Returns_iff split: if_splits prod.splits)
      note d1 = damaged_turn [OF dm w]
      from rest damaged_close [OF d1] Cons.IH [OF d1] ev Turn show ?thesis by (auto split: if_splits)
    qed
  qed
qed simp

section \<open>Property\<close>

text \<open>C31: a log file that exists and is empty is lost for good.  Such a file is left by a program that
  died after the exclusive open and before anything was flushed.  When the proxy is started while
  that file's name is current, it appends to it without writing the version header, and from then
  on no record in it, however many the worker writes and however often it rotates, can be read: the
  decoder refuses the file.  (The times of the records are below \<open>2 ^ 56\<close>, the year two billion.)\<close>

theorem empty_log_stays_unreadable:
  assumes "healthy k" and "k_files k (time2Path fp t) = Some []" and "new_audit_log n fp t picks k = Inr a"
    and "early_events es" and "log_write_worker es a = Returns (r, a')"
  shows "\<exists>e. new_file_reader (k_files (al_disk a')) (time2Path fp t) = Inl e"
proof -
  let ?p = "time2Path fp t"
  let ?a0 = "\<lparr>al_filePath = fp, al_sent = [], al_recv = 0, al_cap = n, al_closed = False, al_picks = picks,
        al_pool = [], al_file = None, al_gzip = None, al_latestFile = [], al_disk = k\<rparr>"
  have "headerless []" by (auto simp: headerless_def intro: exI [of _ "[]"])
  with assms(1,2) have "damaged ?p ?a0" by (simp add: damaged_def open_members_def queued_def)
  moreover have "create_file t ?a0 = (None, a)"
    using assms(3) by (auto simp: new_audit_log_def split: prod.splits option.splits)
  ultimately have "damaged ?p a" using damaged_create by (simp add: open_members_def)
  from damaged_run [OF this assms(4,5)] obtain ms where
    ms: "k_files (al_disk a') ?p = Some ms" "headerless (ms @ open_members ?p a')" by (auto simp: damaged_def)
  from headerless_refused [of "k_files (al_disk a')" ?p ms "open_members ?p a'", OF ms] show ?thesis .
qed

theorem empty_log_stays_unreadable_witness:
  "\<exists>a r a' e. new_audit_log 1000 ''a.%H'' (Civil 2024 3 4 5 59 0) [] (blank_disk\<lparr>k_files := [''a.05'' \<mapsto> []]\<rparr>) = Inr a \<and>
     log_write_worker [Pushed (small_record ''u'' [1, 0, 0, 0, 14]), Turn Receive] a = Returns (r, a') \<and>
     new_file_reader (k_files (al_disk a')) ''a.05'' = Inl e"
proof -
  let ?k = "blank_disk\<lparr>k_files := [''a.05'' \<mapsto> []]\<rparr>" and ?t = "Civil 2024 3 4 5 59 0"
  have p: "time2Path ''a.%H'' ?t = ''a.05''" by code_simp
  have k: "healthy ?k" "k_files ?k (time2Path ''a.%H'' ?t) = Some []" by (simp_all add: healthy_def blank_disk_def p)
  define a where "a = \<lparr>al_filePath = ''a.%H'', al_sent = [], al_recv = 0, al_cap = 1000, al_closed = False, al_picks = [],
        al_pool = [], al_file = Some ''a.05'', al_gzip = Some (gz_new ''a.05''), al_latestFile = ''a.05'', al_disk = ?k\<rparr>"
  have a: "new_audit_log 1000 ''a.%H'' ?t [] ?k = Inr a"
    by (simp add: new_audit_log_def create_file_def open_file_def p a_def blank_disk_def Let_def)
  let ?es = "[Pushed (small_record ''u'' [1, 0, 0, 0, 14]), Turn Receive]"
  have e: "early_events ?es" by (simp add: early_def small_record_def record_view_def)
  have "\<exists>r a'. log_write_worker ?es a = Returns (r, a')"
    using receive_frame [of "a\<lparr>al_sent := [small_record ''u'' [1, 0, 0, 0, 14]]\<rparr>"]
    by (auto simp: a_def turn_ready_def queued_def close_file_def split: prod.splits option.splits)
  then obtain r a' where r: "log_write_worker ?es a = Returns (r, a')" by blast
  from empty_log_stays_unreadable [OF k a e r] a r p show ?thesis by auto
qed

end
