(* ===== verification/Tools.thy ===== *)
theory Tools
  imports Startup GeneratePem
begin

text \<open>
  The commands beside the proxy: src/pack/debpack/main.go and src/pack/rpmpack/main.go, which put
  the two binaries into a package file, and src/cmd/ganeratepem/main.go, which prints a pair of
  certificates.  The packaging libraries, envconfig and the JSON encoder are parameters;
  \<open>log.Fatal\<close> ends the program with the message's format, its file name and its error.
\<close>

datatype tool_end = LogFatal string string go_error | Prints string

section \<open>Files of the working directory\<close>

text \<open>
  A file is its bytes.  \<open>wd_read_err\<close> and \<open>wd_open_err\<close> are the errors that reading and opening give for
  other reasons than the absence of the file.
\<close>

record workdir =
  wd_files :: "string \<rightharpoonup> bytes"
  wd_read_err :: "string \<rightharpoonup> go_error"
  wd_open_err :: "string \<rightharpoonup> go_error"

definition read_file :: "workdir \<Rightarrow> string \<Rightarrow> (string \<times> go_error) + bytes" where
  "read_file wd f = (case wd_read_err wd f of
       Some e \<Rightarrow> Inl (f, e)
     | None \<Rightarrow> (case wd_files wd f of
         None \<Rightarrow> Inl (f, Failure ''no such file or directory'')
       | Some b \<Rightarrow> Inr b))"

text \<open>
  \<open>os.OpenFile\<close> with \<open>O_CREATE|O_WRONLY\<close>, the library's writing of \<open>out\<close> from the start of the
  file, and the printing of the name.  There is no \<open>O_TRUNC\<close>: what an older file holds
  beyond the bytes written stays.
\<close>

definition write_at_start :: "bytes \<Rightarrow> bytes \<Rightarrow> bytes" where
  "write_at_start old out = out @ drop (length out) old"

definition save_package :: "string \<Rightarrow> bytes \<times> go_error option \<Rightarrow> workdir \<Rightarrow> tool_end \<times> workdir" where
  "save_package filename written wd = (case wd_open_err wd filename of
       Some e \<Rightarrow> (LogFatal ''OpenFile(%s) err: %v'' filename e, wd)
     | None \<Rightarrow> (case written of (out, err) \<Rightarrow>
         let old = (case wd_files wd filename of None \<Rightarrow> [] | Some b \<Rightarrow> b);
             wd' = wd\<lparr>wd_files := (wd_files wd)(filename \<mapsto> write_at_start old out)\<rparr>
         in (case err of
             Some e \<Rightarrow> (LogFatal ''write failed: %v'' [] e, wd')
           | None \<Rightarrow> (Prints filename, wd'))))"

section \<open>The files of a package\<close>

record packed_file =
  pf_Name :: string
  pf_Mode :: nat
  pf_Body :: bytes
  pf_Owner :: string
  pf_Group :: string

definition root_binary :: "string \<Rightarrow> bytes \<Rightarrow> packed_file" where
  "root_binary name body = \<lparr>pf_Name = name, pf_Mode = 493, pf_Body = body, pf_Owner = ''root'', pf_Group = ''root''\<rparr>"

definition package_files :: "string \<Rightarrow> string \<Rightarrow> workdir \<Rightarrow> (string \<times> go_error) + packed_file list" where
  "package_files binPath name wd = (case read_file wd binPath of
       Inl e \<Rightarrow> Inl e
     | Inr b \<Rightarrow> (case read_file wd ''.bin/mysql8-audit-log-decoder'' of
         Inl e \<Rightarrow> Inl e
       | Inr d \<Rightarrow> Inr [root_binary (path_join [''/usr/local/bin/'', name]) b,
                    root_binary ''/usr/local/bin/mysql8-audit-log-decoder'' d]))"

section \<open>debpack\<close>

record deb_specification =
  ds_BinPath :: string
  ds_Name :: string
  ds_Version :: string
  ds_Arch :: string
  ds_Maintainer :: string
  ds_Desc :: string

record deb_metadata =
  dm_Name :: string
  dm_Version :: string
  dm_Arch :: string
  dm_Maintainer :: string
  dm_Description :: string

definition deb_filename :: "deb_specification \<Rightarrow> string" where
  "deb_filename s = ds_Name s @ ''-'' @ ds_Version s @ ''.'' @ ds_Arch s @ ''.deb''"

text \<open>\<open>new\<close> is what \<open>debpack.NewDEB\<close> answers, \<open>write\<close> what \<open>Write\<close> has written when it returns, and its error.\<close>

definition deb_main ::
  "(deb_metadata \<Rightarrow> go_error option) \<Rightarrow> (deb_metadata \<Rightarrow> packed_file list \<Rightarrow> bytes \<times> go_error option) \<Rightarrow>
   go_error + deb_specification \<Rightarrow> workdir \<Rightarrow> tool_end \<times> workdir" where
  "deb_main new write env wd = (case env of
       Inl e \<Rightarrow> (LogFatal ''%s'' [] e, wd)
     | Inr s \<Rightarrow>
         let meta = \<lparr>dm_Name = ds_Name s, dm_Version = ds_Version s, dm_Arch = ds_Arch s,
                     dm_Maintainer = ds_Maintainer s, dm_Description = ds_Desc s\<rparr> in
         (case new meta of
           Some e \<Rightarrow> (LogFatal ''%s'' [] e, wd)
         | None \<Rightarrow> (case package_files (ds_BinPath s) (ds_Name s) wd of
             Inl (f, e) \<Rightarrow> (LogFatal ''ReadFile(%s) err:%s'' f e, wd)
           | Inr fs \<Rightarrow> save_package (deb_filename s) (write meta fs) wd)))"

section \<open>rpmpack\<close>

record rpm_specification =
  rs_BinPath :: string
  rs_Name :: string
  rs_Version :: string
  rs_Hash :: string
  rs_Release :: string
  rs_Arch :: string
  rs_Sign :: string

record rpm_metadata =
  rm_Name :: string
  rm_Version :: string
  rm_Release :: string
  rm_Arch :: string

definition rpm_release :: "rpm_specification \<Rightarrow> string" where
  "rpm_release s = (if rs_Hash s = [] then rs_Release s else rs_Hash s @ ''.'' @ rs_Release s)"

definition rpm_filename :: "rpm_specification \<Rightarrow> string" where
  "rpm_filename s = rs_Name s @ ''-'' @ rs_Version s @ ''-'' @ rpm_release s @ ''.'' @ rs_Arch s @ ''.rpm''"

definition rpm_signer :: "rpm_specification \<Rightarrow> (bytes \<Rightarrow> go_error + bytes) option" where
  "rpm_signer s = (if rs_Sign s = [] then None else Some (\<lambda>_. Inr (bytes_of_string (rs_Sign s))))"

definition rpm_main ::
  "(rpm_metadata \<Rightarrow> go_error option) \<Rightarrow>
   (rpm_metadata \<Rightarrow> packed_file list \<Rightarrow> (bytes \<Rightarrow> go_error + bytes) option \<Rightarrow> bytes \<times> go_error option) \<Rightarrow>
   go_error + rpm_specification \<Rightarrow> workdir \<Rightarrow> tool_end \<times> workdir" where
  "rpm_main new write env wd = (case env of
       Inl e \<Rightarrow> (LogFatal ''%s'' [] e, wd)
     | Inr s \<Rightarrow>
         let meta = \<lparr>rm_Name = rs_Name s, rm_Version = rs_Version s, rm_Release = rpm_release s, rm_Arch = rs_Arch s\<rparr> in
         (case new meta of
           Some e \<Rightarrow> (LogFatal ''%s'' [] e, wd)
         | None \<Rightarrow> (case package_files (rs_BinPath s) (rs_Name s) wd of
             Inl (f, e) \<Rightarrow> (LogFatal ''ReadFile(%s) err:%s'' f e, wd)
           | Inr fs \<Rightarrow> save_package (rpm_filename s) (write meta fs (rpm_signer s)) wd)))"

section \<open>ganeratepem\<close>

text \<open>\<open>marshal\<close> is the JSON encoder on the map of the two pairs; an error of it prints nothing after the colon.\<close>

definition ganeratepem_main ::
  "'k crypto \<Rightarrow> (pems \<Rightarrow> pems \<Rightarrow> go_error + string) \<Rightarrow> go_error + pem_config \<Rightarrow> tool_end" where
  "ganeratepem_main cr marshal env = (case env of
       Inl e \<Rightarrow> LogFatal ''%s'' [] e
     | Inr c \<Rightarrow> (case Generate cr c of
         (caPems, serverPems, Some e) \<Rightarrow> LogFatal ''%s'' [] e
       | (caPems, serverPems, None) \<Rightarrow>
           Prints (''Pems:'' @ (case marshal caPems serverPems of Inl e \<Rightarrow> [] | Inr s \<Rightarrow> s))))"

section \<open>What the tools do\<close>

lemma save_package_keeps_others:
  "save_package f w wd = (r, wd') \<Longrightarrow> g \<noteq> f \<Longrightarrow> wd_files wd' g = wd_files wd g"
  by (auto simp: save_package_def Let_def split: option.splits prod.splits)

text \<open>A package is exactly what the library has written when the file was not longer before.\<close>

lemma write_at_start_exact: "write_at_start old out = out \<longleftrightarrow> length old \<le> length out"
  by (simp add: write_at_start_def)

lemma save_package_Prints:
  "save_package f written wd = (Prints g, wd') \<longleftrightarrow> wd_open_err wd f = None \<and> snd written = None \<and> g = f \<and>
     wd' = wd\<lparr>wd_files := (wd_files wd)(f \<mapsto> write_at_start (case wd_files wd f of None \<Rightarrow> [] | Some b \<Rightarrow> b) (fst written))\<rparr>"
  by (cases written) (auto simp: save_package_def Let_def split: option.splits)

lemma deb_main_only_writes_the_package:
  assumes "deb_main new write (Inr s) wd = (r, wd')" and "g \<noteq> deb_filename s"
  shows "wd_files wd' g = wd_files wd g"
  using assms save_package_keeps_others [OF _ assms(2)]
  by (auto simp: deb_main_def Let_def split: option.splits sum.splits prod.splits)

lemma rpm_main_only_writes_the_package:
  assumes "rpm_main new write (Inr s) wd = (r, wd')" and "g \<noteq> rpm_filename s"
  shows "wd_files wd' g = wd_files wd g"
  using assms save_package_keeps_others [OF _ assms(2)]
  by (auto simp: rpm_main_def Let_def split: option.splits sum.splits prod.splits)

text \<open>A successful run has packed both binaries, below the fixed directory unless the name leads out of it.\<close>

lemma package_files_Inr:
  assumes "package_files binPath name wd = Inr fs"
  obtains b d where "wd_files wd binPath = Some b" "wd_files wd ''.bin/mysql8-audit-log-decoder'' = Some d"
    "fs = [root_binary (path_join [''/usr/local/bin/'', name]) b, root_binary ''/usr/local/bin/mysql8-audit-log-decoder'' d]"
  using assms by (auto simp: package_files_def read_file_def split: option.splits sum.splits)

lemma deb_main_Prints:
  assumes "deb_main new write (Inr s) wd = (Prints g, wd')"
  obtains fs out where "package_files (ds_BinPath s) (ds_Name s) wd = Inr fs" "g = deb_filename s"
    "write \<lparr>dm_Name = ds_Name s, dm_Version = ds_Version s, dm_Arch = ds_Arch s,
        dm_Maintainer = ds_Maintainer s, dm_Description = ds_Desc s\<rparr> fs = (out, None)"
    "wd_files wd' g = Some (write_at_start (case wd_files wd g of None \<Rightarrow> [] | Some b \<Rightarrow> b) out)"
proof -
  let ?meta = "\<lparr>dm_Name = ds_Name s, dm_Version = ds_Version s, dm_Arch = ds_Arch s,
        dm_Maintainer = ds_Maintainer s, dm_Description = ds_Desc s\<rparr>"
  from assms obtain fs where fs: "package_files (ds_BinPath s) (ds_Name s) wd = Inr fs"
    and save: "save_package (deb_filename s) (write ?meta fs) wd = (Prints g, wd')"
    by (auto simp: deb_main_def Let_def split: option.splits sum.splits)
  obtain out err where "write ?meta fs = (out, err)" by (cases "write ?meta fs")
  with save show thesis by (intro that [OF fs]) (auto simp: save_package_Prints)
qed

lemma split_no_separator: "c \<notin> set s \<Longrightarrow> split c s = [s]"
  by (induction s) auto

lemma plain_name_is_installed_in_bin:
  assumes "CHR ''/'' \<notin> set name" and "name \<notin> {[], ''.'', ''..''}"
  shows "path_join [''/usr/local/bin/'', name] = ''/usr/local/bin/'' @ name"
  using assms by (simp add: path_join_def clean_path_def split_no_separator)

lemma name_can_leave_bin: "path_join [''/usr/local/bin/'', ''../../../etc/cron.d/job''] = ''/etc/cron.d/job''"
  by code_simp

text \<open>The signature that the signer gives does not depend on what it signs.\<close>

lemma signature_is_constant: "rpm_signer s = Some f \<Longrightarrow> f x = f y"
  by (auto simp: rpm_signer_def split: if_splits)

text \<open>A second, shorter package of the same name ends with bytes of the first: no reader of it can know.\<close>

lemma shorter_package_is_not_what_was_written:
  assumes "deb_main new write (Inr s) wd = (Prints g, wd')" and "wd_files wd g = Some old"
    and "\<And>m fs. length (fst (write m fs)) < length old"
  shows "\<exists>out. wd_files wd' g = Some (out @ drop (length out) old) \<and> drop (length out) old \<noteq> []"
proof -
  from assms(1) obtain fs out where w: "write \<lparr>dm_Name = ds_Name s, dm_Version = ds_Version s, dm_Arch = ds_Arch s,
        dm_Maintainer = ds_Maintainer s, dm_Description = ds_Desc s\<rparr> fs = (out, None)"
    and f: "wd_files wd' g = Some (write_at_start (case wd_files wd g of None \<Rightarrow> [] | Some b \<Rightarrow> b) out)"
    by (rule deb_main_Prints)
  have "length out < length old" using assms(3) w by (metis fst_conv)
  with f assms(2) show ?thesis by (auto simp: write_at_start_def)
qed

lemma ganeratepem_main_prints_both:
  assumes "ganeratepem_main cr (\<lambda>ca sv. Inr (f ca sv)) (Inr c) = Prints out"
  shows "\<exists>ca sv. Generate cr c = (ca, sv, None) \<and> out = ''Pems:'' @ f ca sv"
  using assms by (auto simp: ganeratepem_main_def split: prod.splits option.splits)

end
