(* ===== verification/ParsePrototype.thy ===== *)
theory ParsePrototype
  imports SqlParse
begin

text \<open>
  The program of src/test/test.go, from which the visitor of the server table comes: it parses one
  fixed statement and prints what the visitor has collected.  Its \<open>Data\<close> has the fields
  of \<open>Query\<close>; the output is a list of the printed texts, each a prefix with the data at that moment.
\<close>

definition test_sql :: string where
  "test_sql = ''SELECT username, password FROM users where username = '' @ [CHR 0x27] @ ''user1'' @ [CHR 0x27]"

type_synonym printed = "(string \<times> query) list"

text \<open>\<open>Enter\<close> asks for the kinds one after the other; a node has only one.\<close>

definition data_enter :: "node_kind \<Rightarrow> query \<Rightarrow> query" where
  "data_enter k v =
     (let v = (case k of SelectNode t \<Rightarrow> v\<lparr>q_Statement := SelectStmt, q_Text := t\<rparr> | _ \<Rightarrow> v);
          v = (case k of UpdateNode t \<Rightarrow> v\<lparr>q_Statement := UpdateStmt, q_Text := t\<rparr> | _ \<Rightarrow> v);
          v = (case k of InsertNode t \<Rightarrow> v\<lparr>q_Statement := InsertStmt, q_Text := t\<rparr> | _ \<Rightarrow> v);
          v = (case k of DeleteNode t \<Rightarrow> v\<lparr>q_Statement := DeleteStmt, q_Text := t\<rparr> | _ \<Rightarrow> v);
          v = (case k of TableName n \<Rightarrow> v\<lparr>q_TableName := n\<rparr> | _ \<Rightarrow> v);
          v = (case k of BinaryOperationExpr op \<Rightarrow> v\<lparr>q_CurrentType := Where, q_WhereOp := op\<rparr> | _ \<Rightarrow> v);
          v = (case k of ColumnName c \<Rightarrow>
                 (if q_CurrentType v = Where then v\<lparr>q_WhereColumns := q_WhereColumns v @ [c]\<rparr>
                  else v\<lparr>q_Columns := q_Columns v @ [c]\<rparr>) | _ \<Rightarrow> v)
      in (case k of ValueExpr x \<Rightarrow>
                 (if q_CurrentType v = Where then v\<lparr>q_WhereValues := q_WhereValues v @ [x]\<rparr>
                  else v\<lparr>q_Values := q_Values v @ [x]\<rparr>) | _ \<Rightarrow> v))"

text \<open>\<open>Leave\<close> prints by the kind of the node it leaves, not by the statement that is in the data.\<close>

fun data_leave :: "node_kind \<Rightarrow> query \<times> printed \<Rightarrow> query \<times> printed" where
  "data_leave (SelectNode t) (v, out) = (v, out @ [(''selectStmt '', v)])"
| "data_leave (InsertNode t) (v, out) = (v, out @ [(''insertStmt '', v)])"
| "data_leave (DeleteNode t) (v, out) = (v, out @ [(''deleteStmt '', v)])"
| "data_leave (UpdateNode t) (v, out) = (v, out @ [(''updateStmt '', v)])"
| "data_leave (BinaryOperationExpr op) (v, out) = (v\<lparr>q_CurrentType := []\<rparr>, out)"
| "data_leave k s = s"

fun data_accept :: "node \<Rightarrow> query \<times> printed \<Rightarrow> query \<times> printed" where
  "data_accept (Node k cs) (v, out) = data_leave k (fold data_accept cs (data_enter k v, out))"

definition test_main :: "(string \<Rightarrow> go_error + node list) \<Rightarrow> (go_error + printed) outcome" where
  "test_main parser = bind_outcome (Parse parser test_sql) (\<lambda>r. case r of
       Inl e \<Rightarrow> Returns (Inl e)
     | Inr n \<Rightarrow> Returns (Inr (snd (data_accept n (new_query, [])))))"

section \<open>The prototype and the visitor of the server table\<close>

text \<open>The visitor of the server table with functions that print, under the name of the statement in the data.\<close>

definition print_name :: "string \<Rightarrow> string" where
  "print_name n = (if n = UpdateStmt then ''updateStmt '' else n @ ''Stmt '')"

definition printing :: "printed handlers" where
  "printing n = (if n \<in> {SelectStmt, InsertStmt, UpdateStmt, DeleteStmt}
     then Some (\<lambda>p out. (p, out @ [(print_name n, p)])) else None)"

lemma data_enter_is_enter: "data_enter k v = enter k v"
  by (cases k) (simp_all add: data_enter_def)

text \<open>Leaving a node of the statement that is in the data does the same in both.\<close>

lemma leave_agrees:
  assumes "\<And>n. stmt_name k = Some n \<Longrightarrow> q_Statement v = n"
  shows "leave printing k (v, out) = data_leave k (v, out)"
  using assms
  by (cases k)
    (simp_all add: leave_func_def printing_def print_name_def SelectStmt_def InsertStmt_def UpdateStmt_def DeleteStmt_def)

lemma data_leave_statement: "q_Statement (fst (data_leave k s)) = q_Statement (fst s)"
  by (cases s; cases k) simp_all

lemma data_accept_statement:
  assumes "entered n = []"
  shows "q_Statement (fst (data_accept n s)) = q_Statement (fst s)"
  using assms
proof (induction n arbitrary: s)
  case (Node k cs)
  have "q_Statement (fst (fold data_accept cs s)) = q_Statement (fst s)" for s
    using Node.IH Node.prems
  proof (induction cs arbitrary: s)
    case (Cons c cs)
    then have "q_Statement (fst (data_accept c s)) = q_Statement (fst s)" by simp
    moreover have "q_Statement (fst (fold data_accept cs (data_accept c s))) = q_Statement (fst (data_accept c s))"
      using Cons by (intro Cons.IH) auto
    ultimately show ?case by simp
  qed simp
  moreover have "stmt_name k = None" using Node.prems by (cases "stmt_name k") auto
  ultimately show ?case
    by (cases s) (simp add: data_leave_statement data_enter_is_enter enter_statement)
qed

lemma accept_agrees_without_statement:
  assumes "entered n = []"
  shows "accept printing n s = data_accept n s"
  using assms
proof (induction n arbitrary: s)
  case (Node k cs)
  have k: "stmt_name k = None" using Node.prems by (cases "stmt_name k") auto
  have "fold (accept printing) cs s = fold data_accept cs s" for s
    using Node.IH Node.prems by (intro List.fold_cong) auto
  moreover have "leave printing k t = data_leave k t" for t
    using leave_agrees [of k "fst t" "snd t"] k by simp
  ultimately show ?case by (cases s) (simp add: data_enter_is_enter)
qed

text \<open>On one statement without another inside, the two visitors collect and print the same.\<close>

lemma prototype_agrees_on_plain_statements:
  assumes "stmt_name k = Some n" and "concat (map entered cs) = []"
  shows "accept printing (Node k cs) s = data_accept (Node k cs) s"
proof (cases s)
  case (Pair v out)
  let ?s = "(data_enter k v, out)"
  have f: "fold (accept printing) cs s = fold data_accept cs s" for s
    using assms(2) accept_agrees_without_statement by (intro List.fold_cong) auto
  have "q_Statement (fst (fold data_accept cs s)) = q_Statement (fst s)" for s
    using assms(2) by (induction cs arbitrary: s) (auto simp: data_accept_statement)
  then have "q_Statement (fst (fold data_accept cs ?s)) = n"
    using assms(1) by (simp add: data_enter_is_enter enter_statement)
  then have "leave printing k (fold data_accept cs ?s) = data_leave k (fold data_accept cs ?s)"
    using leave_agrees [of k "fst (fold data_accept cs ?s)" "snd (fold data_accept cs ?s)"] assms(1) by simp
  with f Pair show ?thesis by (simp add: data_enter_is_enter)
qed

text \<open>An insert from a select: the prototype names both statements, the server table runs the select twice.\<close>

lemma prototype_differs_on_nested_statements:
  defines "n \<equiv> Node (InsertNode ''insert ...'') [Node (TableName ''t'') [], Node (SelectNode ''select ...'') []]"
  shows "map fst (snd (data_accept n (new_query, []))) = [''selectStmt '', ''insertStmt '']"
    and "map fst (snd (accept printing n (new_query, []))) = [''selectStmt '', ''selectStmt '']"
  by (simp_all add: n_def new_query_def leave_func_def printing_def print_name_def SelectStmt_def InsertStmt_def UpdateStmt_def DeleteStmt_def)

lemma test_main_panics_iff: "(\<exists>m. test_main parser = Panics m) \<longleftrightarrow> parser test_sql = Inr []"
  by (auto simp: test_main_def Parse_def split: sum.splits list.splits)

end
