(* ===== verification/Spec2Isabelle.thy ===== *)
theory Spec2Isabelle
  imports Concurrency LogRefinement Delivered Restart Tools ParsePrototype
begin

text \<open>
  mysql8-audit-proxy, a MySQL proxy that writes every client packet to a compressed audit log: a
  model of its Go code and the theorems that make it correct.

  \<^bold>\<open>The program.\<close>  \<open>src/main.go\<close> starts two goroutines, the log worker and the proxy server, around
  one channel of a thousand records.  The server (\<open>pkg/mysqlproxy/proxysrv.go\<close>) accepts clients; the
  login name of a client says which target server it wants and, if it is the administrator's,
  that it wants the server table instead.  A client session (\<open>clntsess.go\<close>) copies the target's
  bytes to the client and runs a \<open>SendTask\<close> (\<open>sendtask.go\<close>) that takes MySQL packets from the client,
  sends them to the target and sends a record of each to the log.  The log worker
  (\<open>log/auditlogwriter.go\<close>) encodes the records (\<open>sendpacket/sendpacket.go\<close>) into gzip files that it
  rotates; \<open>cmd/mysql8-audit-log-decoder\<close> prints such files.  The administrator's SQL statements
  (\<open>pkg/serverconfig\<close>) change a JSON file of users and encrypted passwords, which the
  logins of all clients are checked against.

  \<^bold>\<open>The theories\<close>, in the order of the imports:

  \<^item> \<open>Prelude\<close>: bytes, errors, panics as values, and the interface of \<open>io.Writer\<close> (locale \<open>byte_sink\<close>).
  \<^item> \<open>GoText\<close>: \<open>strings.Split\<close> and \<open>Join\<close>, the number verbs of \<open>fmt\<close>, \<open>TrailingZeros32\<close>.
  \<^item> \<open>Codec\<close> (sendpacket.go): encoder over any writer, decoder with its reused buffer in a store.
    Round trip, truncation, prefixes.
  \<^item> \<open>Timeoutnet\<close> (timeoutnet.go): connections as scripts of reads, contexts as poll counts,
    \<open>TimeoutReader.WriteTo\<close>: delivery in order, end after cancellation.
  \<^item> \<open>SendTask\<close> (sendtask.go): slices with capacity, reading and forwarding one packet, the whole
    worker over an abstract log writer (locale \<open>log_writer_contract\<close>).
  \<^item> \<open>LogFormat\<close> (log.go, filereader.go, errorreader.go): version header, file names, opening a log.
  \<^item> \<open>AuditLog\<close> (auditlogwriter.go): pool, channel, gzip file, rotation; the worker refines a map
    from files to records, and provides the contract of \<open>SendTask\<close>, so sessions are audited.
  \<^item> \<open>Decoder\<close> (mysql8-audit-log-decoder): formatting of records and printing of files.
  \<^item> \<open>SqlParse\<close> (sqlparse.go): the visitor of the syntax tree and the evaluation of columns and conditions.
  \<^item> \<open>Secret\<close> (end of serverconfig.go): encryption of stored passwords.
  \<^item> \<open>ServerConfig\<close> (serverconfig.go): the manager of the JSON file and its four statements.
  \<^item> \<open>ConfigHandler\<close> (confighandler.go): the administrator's connection.
  \<^item> \<open>ClientSess\<close> (clntsess.go): capability text, connecting, the relay, the debugging wrappers.
  \<^item> \<open>GeneratePem\<close> (generatepem.go): keys, templates and the two certificates of the listener.
  \<^item> \<open>ProxySrv\<close> (proxysrv.go, userprovider.go, proxycfg.go): login names, the credential provider
    (locale \<open>user_table\<close>, interpreted on the manager's lookup), the worker of a connection, which
    composes the handler, the provider and the relay, the accept loop and \<open>Start\<close>.
  \<^item> \<open>Pipeline\<close> (main.go): sessions, pool, channel, worker, interrupt and shutdown as a step
    relation on one state, in which a record is a pointer; its invariants and its ends.  A push on
    the log writer is a step of it.
  \<^item> \<open>Startup\<close> (main.go, \<open>NewManager\<close>): how the program starts or fails to, up to the initial state of \<open>Pipeline\<close>.
  \<^item> \<open>EndToEnd\<close>: one run from the start through a session, the log writer and its file to the
    decoder's output (a second instance of the session's contract, which tracks the file).
  \<^item> \<open>Undisturbed\<close>: sessions on connections that do not fail, over a log that accepts every record (locale
    \<open>reliable_log\<close>, interpreted on the log writer): nothing of a session is lost.
  \<^item> \<open>Delivered\<close>: the log writer as such a log whose file is tracked; from the client to the decoder's output
    with nothing missing.
  \<^item> \<open>LogRefinement\<close>: whole runs of the log worker, with their events, are runs of the system of \<open>Pipeline\<close>.
  \<^item> \<open>Concurrency\<close>: many sessions at once.  What the shared log answers one of them is a tape, which provides the
    session's contract as well; their sends are an interleaving.
  \<^item> \<open>Restart\<close>: starting on a log file that exists and is empty.
  \<^item> \<open>Tools\<close> (pack/debpack, pack/rpmpack, cmd/ganeratepem): packages and the certificate command.
  \<^item> \<open>ParsePrototype\<close> (test/test.go): the visitor's first version, and where the two agree.

  \<^bold>\<open>How code is modelled.\<close>  A struct is a record with the struct's fields, integers keep their
  width where it matters (\<open>32 word\<close> lengths, \<open>64 word\<close> counters and durations), a Go error is a value,
  a panic is the value \<open>Panics\<close> of \<open>outcome\<close>.  Shared state is passed explicitly; a
  pointer handed from one goroutine to another is a pointer in \<open>Pipeline\<close> and a value elsewhere.
  What a select chooses, when a context is seen cancelled, what a peer sends and when a disk
  fails are inputs, so a theorem holds for all of them.  Loops are total functions; the only one that
  may run forever, the administrator's loop, is a \<open>partial_function\<close>, and that it
  ends is proved.  No fuel is used.

  \<^bold>\<open>Parameters.\<close>  Code outside the repository is an argument: the MySQL server and client libraries,
  the TiDB parser, AES-GCM, regular expressions, JSON marshalling, x509, random bytes.  Where a
  theorem relies on documented behaviour of such code the assumption is in its statement and its
  witness gives an instance.

  \<^bold>\<open>What the theorems show.\<close>  The relay and the log agree: what the client sends is forwarded
  unchanged, recorded packet by packet, sent to the log without being altered afterwards, and read
  back from the file by the decoder.  An undisturbed session is recorded completely; sessions that
  run at the same time, with the worker rotating in between, do not disturb each other's
  records; and every run of the worker is one of the system whose invariants are proved.  The server table keeps distinct users and
  working passwords under its statements.  Beside these the theorems describe where the code fails:
  the shutdown, the gzip writer after an error, a rotation that cannot open its file, a log file left empty,
  updates that encrypt twice, the table under concurrent statements.

  \<^bold>\<open>Not modelled.\<close>  Log output, \<open>DumpResult\<close>, \<open>JsonEncodePacket\<close>, \<open>Mkdir\<close> and \<open>PrintPathInfo\<close>,
  which nothing that runs depends on; \<open>FileReader.Close\<close> and the methods of \<open>DebugConn\<close> that
  only call the wrapped connection's; what the environment and the flags hold, an input of the start;
  the operating system's part of a crash, so that a file is what its closed gzip members hold.
\<close>

end
